(* ===== verification/Tailgate_Prelude.thy ===== *)
theory Tailgate_Prelude
  imports Main "HOL-Library.Word" "HOL-Library.Sublist"
begin

text \<open>
  Shared vocabulary of the development: the machine types, the result type of code that may
  throw or touch memory out of bounds, checked vector access, big-endian integers, and the
  string operations of the C++ standard library that several components use.

  \<^item> A \<^verbatim>\<open>std::vector<std::uint8_t>\<close> or span is a \<open>byte list\<close>; \<^verbatim>\<open>std::uintN_t\<close> is an N-bit word;
    \<^verbatim>\<open>std::size_t\<close> counts of bytes held in memory are \<open>nat\<close>.
  \<^item> \<open>('e, 'a) res\<close> is the outcome of a C++ call: \<open>Inr v\<close> a returned value, \<open>Inl (Throw e)\<close> a
    thrown exception, \<open>Inl Fault\<close> an access outside a vector, which is undefined behaviour.  Parsers
    of untrusted bytes read through \<open>at\<close>, so that absence of \<open>Fault\<close> is memory safety.
\<close>

unbundle bit_operations_syntax

named_theorems res_simps \<open>evaluation of the result type\<close>
named_theorems be_simps \<open>big-endian encoders and decoders\<close>

type_synonym byte = "8 word"
type_synonym u16 = "16 word"
type_synonym u32 = "32 word"
type_synonym u64 = "64 word"

section \<open>Outcomes of a call\<close>

datatype 'e exn = Fault | Throw 'e

type_synonym ('e, 'a) res = "'e exn + 'a"

definition bindE :: "('e, 'a) res \<Rightarrow> ('a \<Rightarrow> ('e, 'b) res) \<Rightarrow> ('e, 'b) res" where
  "bindE m f = (case m of Inl e \<Rightarrow> Inl e | Inr x \<Rightarrow> f x)"

lemma bindE_simps [simp, res_simps]:
  "bindE (Inr x) f = f x"
  "bindE (Inl e) f = Inl e"
  by (simp_all add: bindE_def)

lemma bindE_eq_Inr_iff: "bindE m f = Inr y \<longleftrightarrow> (\<exists>x. m = Inr x \<and> f x = Inr y)"
  by (cases m) auto

lemma bindE_eq_Inl_iff:
  "bindE m f = Inl e \<longleftrightarrow> m = Inl e \<or> (\<exists>x. m = Inr x \<and> f x = Inl e)"
  by (cases m) auto

lemma bindE_cong [fundef_cong]:
  "m = m' \<Longrightarrow> (\<And>x. m' = Inr x \<Longrightarrow> f x = f' x) \<Longrightarrow> bindE m f = bindE m' f'"
  by (cases m') auto

lemma bindE_assoc: "bindE (bindE m f) g = bindE m (\<lambda>x. bindE (f x) g)"
  by (cases m) auto

text \<open>A call is safe when it never touches memory out of bounds.\<close>

definition safe :: "('e, 'a) res \<Rightarrow> bool" where
  "safe m \<longleftrightarrow> m \<noteq> Inl Fault"

lemma safe_simps [simp]:
  "safe (Inr x)" "safe (Inl (Throw e))" "\<not> safe (Inl Fault)"
  by (simp_all add: safe_def)

lemma safe_bindE: "safe m \<Longrightarrow> (\<And>x. m = Inr x \<Longrightarrow> safe (f x)) \<Longrightarrow> safe (bindE m f)"
  by (cases m) (auto simp: safe_def)

text \<open>
  \<open>keeps Q P m\<close>: the call is safe, its result satisfies \<open>P\<close>, and what it throws satisfies \<open>Q\<close>.
\<close>

definition keeps :: "('e \<Rightarrow> bool) \<Rightarrow> ('a \<Rightarrow> bool) \<Rightarrow> ('e, 'a) res \<Rightarrow> bool" where
  "keeps Q P m = (case m of Inl Fault \<Rightarrow> False | Inl (Throw e) \<Rightarrow> Q e | Inr x \<Rightarrow> P x)"

lemma keeps_simps [simp]:
  "keeps Q P (Inr x) = P x" "keeps Q P (Inl (Throw e)) = Q e" "\<not> keeps Q P (Inl Fault)"
  by (simp_all add: keeps_def)

lemma keeps_bindE: "keeps Q P m \<Longrightarrow> (\<And>x. P x \<Longrightarrow> keeps Q R (f x)) \<Longrightarrow> keeps Q R (bindE m f)"
  by (cases m) (auto simp: keeps_def split: exn.splits)

lemma keeps_mono: "keeps Q P m \<Longrightarrow> (\<And>e. Q e \<Longrightarrow> Q' e) \<Longrightarrow> (\<And>x. P x \<Longrightarrow> P' x) \<Longrightarrow> keeps Q' P' m"
  by (cases m) (auto simp: keeps_def split: exn.splits)

lemma keepsI: "safe m \<Longrightarrow> (\<And>e. m = Inl (Throw e) \<Longrightarrow> Q e) \<Longrightarrow> (\<And>x. m = Inr x \<Longrightarrow> P x) \<Longrightarrow> keeps Q P m"
  by (cases m) (auto simp: keeps_def split: exn.splits)

lemma keeps_safe: "keeps Q P m \<Longrightarrow> safe m"
  by (auto simp: safe_def)

lemma keeps_Inr: "keeps Q P m \<Longrightarrow> m = Inr x \<Longrightarrow> P x"
  by simp

section \<open>Checked access to vectors\<close>

definition at :: "'a list \<Rightarrow> nat \<Rightarrow> ('e, 'a) res" where
  "at xs i = (if i < length xs then Inr (xs ! i) else Inl Fault)"

definition put :: "'a list \<Rightarrow> nat \<Rightarrow> 'a \<Rightarrow> ('e, 'a list) res" where
  "put xs i v = (if i < length xs then Inr (xs[i := v]) else Inl Fault)"

text \<open>\<open>slice xs i n\<close> is the iterator range \<^verbatim>\<open>[begin + i, begin + i + n)\<close>.\<close>

definition slice :: "'a list \<Rightarrow> nat \<Rightarrow> nat \<Rightarrow> ('e, 'a list) res" where
  "slice xs i n = (if i + n \<le> length xs then Inr (take n (drop i xs)) else Inl Fault)"

lemma at_in [simp, res_simps]: "i < length xs \<Longrightarrow> at xs i = Inr (xs ! i)"
  by (simp add: at_def)

lemma put_in [simp, res_simps]: "i < length xs \<Longrightarrow> put xs i v = Inr (xs[i := v])"
  by (simp add: put_def)

lemma slice_in [simp, res_simps]: "i + n \<le> length xs \<Longrightarrow> slice xs i n = Inr (take n (drop i xs))"
  by (simp add: slice_def)

lemma at_eq_Inr_iff: "at xs i = Inr v \<longleftrightarrow> i < length xs \<and> v = xs ! i"
  by (auto simp: at_def)

lemma slice_eq_Inr_iff:
  "slice xs i n = Inr v \<longleftrightarrow> i + n \<le> length xs \<and> v = take n (drop i xs)"
  by (auto simp: slice_def)

section \<open>Big-endian integers\<close>

definition be16 :: "byte \<Rightarrow> byte \<Rightarrow> u16" where
  "be16 a b = push_bit 8 (ucast a) OR ucast b"

definition be32 :: "byte \<Rightarrow> byte \<Rightarrow> byte \<Rightarrow> byte \<Rightarrow> u32" where
  "be32 a b c d =
     push_bit 24 (ucast a) OR push_bit 16 (ucast b) OR push_bit 8 (ucast c) OR ucast d"

definition Append16 :: "u16 \<Rightarrow> byte list" where
  "Append16 v = [ucast (drop_bit 8 v), ucast v]"

definition Append32 :: "u32 \<Rightarrow> byte list" where
  "Append32 v = [ucast (drop_bit 24 v), ucast (drop_bit 16 v), ucast (drop_bit 8 v), ucast v]"

definition Append64 :: "u64 \<Rightarrow> byte list" where
  "Append64 v = map (\<lambda>i. ucast (drop_bit (8 * i) v)) [7, 6, 5, 4, 3, 2, 1, 0]"

definition Read16 :: "byte list \<Rightarrow> nat \<Rightarrow> ('e, u16) res" where
  "Read16 xs i = bindE (at xs i) (\<lambda>a. bindE (at xs (i + 1)) (\<lambda>b. Inr (be16 a b)))"

definition Read32 :: "byte list \<Rightarrow> nat \<Rightarrow> ('e, u32) res" where
  "Read32 xs i =
     bindE (at xs i) (\<lambda>a. bindE (at xs (i + 1)) (\<lambda>b.
     bindE (at xs (i + 2)) (\<lambda>c. bindE (at xs (i + 3)) (\<lambda>d. Inr (be32 a b c d)))))"

text \<open>The loop \<^verbatim>\<open>value = (value << 8) | byte\<close> over consecutive bytes.\<close>

definition be64 :: "byte list \<Rightarrow> u64" where
  "be64 bs = foldl (\<lambda>v b. push_bit 8 v OR ucast b) 0 bs"

definition Read64 :: "byte list \<Rightarrow> nat \<Rightarrow> ('e, u64) res" where
  "Read64 xs i = bindE (slice xs i 8) (\<lambda>bs. Inr (be64 bs))"

lemma byte_bit_out [simp]: "8 \<le> n \<Longrightarrow> \<not> bit (b :: byte) n"
  using bit_imp_le_length [of b n] by auto

lemma unat_byte [simp]: "unat (b :: byte) < 256"
  using unsigned_less [of b] by simp

lemma unat_u16 [simp]: "unat (w :: u16) < 65536"
  using unsigned_less [of w] by simp

lemma unat_le [simp]: "unat (b :: byte) \<le> 255" "unat (w :: u16) \<le> 65535"
  using unat_byte [of b] unat_u16 [of w] by linarith+

lemma byte_bit_cases:
  assumes "n < (32 :: nat)"
  obtains "n < 8" | "8 \<le> n" "n < 16" | "16 \<le> n" "n < 24" | "24 \<le> n" "n < 32"
  using assms by linarith

lemma be16_Append16 [simp, be_simps]: "be16 (ucast (drop_bit 8 v)) (ucast v) = v"
  unfolding be16_def by (rule bit_word_eqI) (auto simp: bit_simps)

lemma be32_Append32 [simp, be_simps]:
  "be32 (ucast (drop_bit 24 v)) (ucast (drop_bit 16 v)) (ucast (drop_bit 8 v)) (ucast v) = v"
proof (rule bit_word_eqI)
  fix n
  assume "n < LENGTH(32)"
  then have "n < 32" by simp
  then show "bit (be32 (ucast (drop_bit 24 v)) (ucast (drop_bit 16 v)) (ucast (drop_bit 8 v))
      (ucast v)) n = bit v n"
    by (cases n rule: byte_bit_cases) (auto simp: be32_def bit_simps)
qed

lemma ucast_be16 [simp, be_simps]: "ucast (drop_bit 8 (be16 a b)) = a" "ucast (be16 a b) = b"
  by (rule bit_word_eqI, auto simp: be16_def bit_simps)+

lemma ucast_be32 [simp, be_simps]:
  "ucast (drop_bit 24 (be32 a b c d)) = a"
  "ucast (drop_bit 16 (be32 a b c d)) = b"
  "ucast (drop_bit 8 (be32 a b c d)) = c"
  "ucast (be32 a b c d) = d"
  by (rule bit_word_eqI, auto simp: be32_def bit_simps)+

lemma be16_disjoint: "push_bit 8 (ucast (a :: byte)) AND ucast (b :: byte) = (0 :: u16)"
  by (rule bit_word_eqI) (auto simp: bit_simps)

lemma unat_be16: "unat (be16 a b) = unat a * 256 + unat b"
proof -
  have "be16 a b = push_bit 8 (ucast a) + ucast b"
    by (simp add: be16_def be16_disjoint disjunctive_add_eq_or)
  also have "\<dots> = word_of_nat (unat a * 256 + unat b)"
    by (simp add: push_bit_eq_mult mult.commute)
  finally have eq: "be16 a b = word_of_nat (unat a * 256 + unat b)" .
  have "unat a * 256 + unat b < 65536"
    using unat_byte [of a] unat_byte [of b] by linarith
  then show ?thesis unfolding eq unat_of_nat by simp
qed

lemma be_step:
  "push_bit 8 (drop_bit (n + 8) v) OR ucast (ucast (drop_bit n v) :: byte) = drop_bit n (v :: u64)"
  by (rule bit_word_eqI) (auto simp: bit_simps)

lemma be64_top: "ucast (ucast (drop_bit 56 v) :: byte) = drop_bit 56 (v :: u64)"
  by (rule bit_word_eqI) (auto simp: bit_simps dest: bit_imp_le_length)

lemma be64_Append64 [simp, be_simps]: "be64 (Append64 v) = v"
  using be_step [of 48 v] be_step [of 40 v] be_step [of 32 v] be_step [of 24 v]
    be_step [of 16 v] be_step [of 8 v] be_step [of 0 v]
  by (simp add: be64_def Append64_def be64_top)

lemma be64_byte:
  "ucast (push_bit 8 v OR ucast (b :: byte) :: u64) = b"
  "n \<le> 48 \<Longrightarrow> ucast (drop_bit (n + 8) (push_bit 8 v OR ucast (b :: byte) :: u64)) = (ucast (drop_bit n v) :: byte)"
  by (rule bit_word_eqI, auto simp: bit_simps)+

lemma Append64_be64 [simp, be_simps]: "length bs = 8 \<Longrightarrow> Append64 (be64 bs) = bs"
proof -
  assume "length bs = 8"
  then obtain a b c d e f g h where bs: "bs = [a, b, c, d, e, f, g, h]"
    by (auto simp: length_Suc_conv numeral_eq_Suc)
  let ?s = "\<lambda>v b. push_bit 8 v OR ucast (b :: byte) :: u64"
  have step: "ucast (drop_bit 8 (?s v x)) = (ucast v :: byte)"
    "ucast (drop_bit 16 (?s v x)) = (ucast (drop_bit 8 v) :: byte)"
    "ucast (drop_bit 24 (?s v x)) = (ucast (drop_bit 16 v) :: byte)"
    "ucast (drop_bit 32 (?s v x)) = (ucast (drop_bit 24 v) :: byte)"
    "ucast (drop_bit 40 (?s v x)) = (ucast (drop_bit 32 v) :: byte)"
    "ucast (drop_bit 48 (?s v x)) = (ucast (drop_bit 40 v) :: byte)"
    "ucast (drop_bit 56 (?s v x)) = (ucast (drop_bit 48 v) :: byte)" for v x
    using be64_byte(2) [of 0 v x] be64_byte(2) [of 8 v x] be64_byte(2) [of 16 v x] be64_byte(2) [of 24 v x]
      be64_byte(2) [of 32 v x] be64_byte(2) [of 40 v x] be64_byte(2) [of 48 v x] by simp_all
  have "Append64 v = [ucast (drop_bit 56 v), ucast (drop_bit 48 v), ucast (drop_bit 40 v), ucast (drop_bit 32 v),
      ucast (drop_bit 24 v), ucast (drop_bit 16 v), ucast (drop_bit 8 v), ucast v]" for v
    by (simp add: Append64_def)
  then show ?thesis unfolding bs be64_def foldl.simps by (simp only: step be64_byte(1))
qed

lemma length_Append [simp]:
  "length (Append16 v) = 2" "length (Append32 w) = 4" "length (Append64 x) = 8"
  by (simp_all add: Append16_def Append32_def Append64_def)

lemma Append_nonempty [simp]: "Append16 v \<noteq> []" "Append32 w \<noteq> []" "Append64 x \<noteq> []"
  by (simp_all add: Append16_def Append32_def Append64_def)

lemma Append_be [simp, be_simps]:
  "Append16 (be16 a b) = [a, b]" "Append32 (be32 a b c d) = [a, b, c, d]"
  by (simp_all add: Append16_def Append32_def)

lemma Read16_in [simp, res_simps]:
  "i + 1 < length xs \<Longrightarrow> Read16 xs i = Inr (be16 (xs ! i) (xs ! (i + 1)))"
  by (simp add: Read16_def)

lemma Read32_in [simp, res_simps]:
  "i + 3 < length xs \<Longrightarrow>
     Read32 xs i = Inr (be32 (xs ! i) (xs ! (i + 1)) (xs ! (i + 2)) (xs ! (i + 3)))"
  by (simp add: Read32_def)

lemma Read64_in [simp, res_simps]:
  "i + 8 \<le> length xs \<Longrightarrow> Read64 xs i = Inr (be64 (take 8 (drop i xs)))"
  by (simp add: Read64_def)

text \<open>Reading back what was appended, anywhere inside a message.\<close>

lemma Read16_Append16 [be_simps]:
  "length pre = i \<Longrightarrow> Read16 (pre @ Append16 v @ post) i = Inr v"
  by (auto simp: Read16_def at_def Append16_def nth_append)

lemma Read32_Append32 [be_simps]:
  "length pre = i \<Longrightarrow> Read32 (pre @ Append32 v @ post) i = Inr v"
  by (auto simp: Read32_def at_def Append32_def nth_append)

lemma Read64_Append64 [be_simps]:
  "length pre = i \<Longrightarrow> Read64 (pre @ Append64 v @ post) i = Inr v"
  by (auto simp: Read64_def slice_def)

section \<open>Interface: a message codec\<close>

text \<open>
  The contract every pair of encoder and decoder of the program keeps: what was encoded is
  decoded to the same message, up to the normal form \<open>norm\<close> the wire can represent.
\<close>

locale codec =
  fixes enc :: "'a \<Rightarrow> ('e, 'w) res"
    and dec :: "'w \<Rightarrow> ('f, 'a) res"
    and ok :: "'a \<Rightarrow> bool"
    and norm :: "'a \<Rightarrow> 'a"
  assumes dec_enc: "ok x \<Longrightarrow> enc x = Inr w \<Longrightarrow> dec w = Inr (norm x)"
begin

lemma enc_determines: "ok x \<Longrightarrow> ok y \<Longrightarrow> enc x = Inr w \<Longrightarrow> enc y = Inr w \<Longrightarrow> norm x = norm y"
  by (auto dest!: dec_enc)

end

text \<open>A strict codec also rejects every byte string the encoder does not produce.\<close>

locale strict_codec = codec +
  assumes norm_id: "ok x \<Longrightarrow> norm x = x"
    and enc_dec: "dec w = Inr x \<Longrightarrow> ok x \<and> enc x = Inr w"
begin

lemma dec_inj: "dec v = Inr x \<Longrightarrow> dec w = Inr x \<Longrightarrow> v = w"
  by (auto dest!: enc_dec)

lemma dec_iff_enc: "dec w = Inr x \<longleftrightarrow> ok x \<and> enc x = Inr w"
  using dec_enc enc_dec norm_id by metis

end

section \<open>Interface: an invariant of a component\<close>

text \<open>
  A component whose operations are the steps of \<open>step\<close>, and a predicate every operation keeps.
\<close>

locale component_invariant =
  fixes step :: "'s \<Rightarrow> 's \<Rightarrow> bool"
    and inv :: "'s \<Rightarrow> bool"
  assumes step_inv: "inv s \<Longrightarrow> step s t \<Longrightarrow> inv t"
begin

lemma steps_inv: "step\<^sup>*\<^sup>* s t \<Longrightarrow> inv s \<Longrightarrow> inv t"
  by (induction rule: rtranclp_induct) (auto intro: step_inv)

end

section \<open>Interface: a component that implements a specification\<close>

text \<open>
  A component is driven by a sequence of inputs and answers each.  \<open>run_option\<close> runs a component whose
  operation may fail to return (\<open>None\<close>), \<open>run_total\<close> its specification.
\<close>

primrec run_option :: "('s \<Rightarrow> 'i \<Rightarrow> ('s \<times> 'o) option) \<Rightarrow> 's \<Rightarrow> 'i list \<Rightarrow> ('s \<times> 'o list) option" where
  "run_option f s [] = Some (s, [])"
| "run_option f s (i # is) =
     (case f s i of None \<Rightarrow> None
      | Some (s', out) \<Rightarrow> map_option (\<lambda>(s'', outs). (s'', out # outs)) (run_option f s' is))"

primrec run_total :: "('s \<Rightarrow> 'i \<Rightarrow> 's \<times> 'o) \<Rightarrow> 's \<Rightarrow> 'i list \<Rightarrow> 's \<times> 'o list" where
  "run_total f s [] = (s, [])"
| "run_total f s (i # is) =
     (let (s', out) = f s i; (s'', outs) = run_total f s' is in (s'', out # outs))"

lemma run_total_steps: "(\<lambda>s s'. \<exists>i. s' = fst (f s i))\<^sup>*\<^sup>* s (fst (run_total f s is))"
proof (induction "is" arbitrary: s)
  case (Cons i "is")
  have "(\<lambda>s s'. \<exists>i. s' = fst (f s i)) s (fst (f s i))" by blast
  from converse_rtranclp_into_rtranclp [of "\<lambda>s s'. \<exists>i. s' = fst (f s i)", OF this Cons.IH] show ?case
    by (simp add: case_prod_beta Let_def)
qed simp

locale simulation =
  fixes cstep :: "'c \<Rightarrow> 'i \<Rightarrow> ('c \<times> 'o) option"
    and astep :: "'a \<Rightarrow> 'i \<Rightarrow> 'a \<times> 'o"
    and rel :: "'c \<Rightarrow> 'a \<Rightarrow> bool"
    and ok :: "'i \<Rightarrow> bool"
  assumes sim: "rel c a \<Longrightarrow> ok i \<Longrightarrow> \<exists>c'. cstep c i = Some (c', snd (astep a i)) \<and> rel c' (fst (astep a i))"
begin

lemma run_sim:
  "rel c a \<Longrightarrow> list_all ok is \<Longrightarrow>
     \<exists>c'. run_option cstep c is = Some (c', snd (run_total astep a is)) \<and> rel c' (fst (run_total astep a is))"
proof (induction "is" arbitrary: c a)
  case (Cons i "is")
  then obtain c' where "cstep c i = Some (c', snd (astep a i))" "rel c' (fst (astep a i))"
    using sim [of c a i] by auto
  with Cons show ?case by (fastforce simp: case_prod_beta Let_def)
qed simp

end

section \<open>Interface: a self-delimiting message stream\<close>

text \<open>
  A parser that takes the next message out of a buffer at an offset, and the encoder it belongs to.
  \<open>take_messages\<close> is the client loop that collects at most \<open>n\<close> messages.
\<close>

primrec take_messages ::
    "(byte list \<Rightarrow> nat \<Rightarrow> ('e, ('f \<times> nat) option) res) \<Rightarrow> nat \<Rightarrow> byte list \<Rightarrow> nat \<Rightarrow> ('e, 'f list \<times> nat) res" where
  "take_messages p 0 buffer offset = Inr ([], offset)"
| "take_messages p (Suc n) buffer offset =
     bindE (p buffer offset) (\<lambda>r. case r of
       None \<Rightarrow> Inr ([], offset)
     | Some (f, offset') \<Rightarrow>
         bindE (take_messages p n buffer offset') (\<lambda>(fs, offset''). Inr (f # fs, offset'')))"

lemma take_messages_length: "take_messages p n buffer offset = Inr (fs, offset') \<Longrightarrow> length fs \<le> n"
  by (induction n arbitrary: offset fs offset')
    (auto simp: bindE_eq_Inr_iff split: option.splits prod.splits)

locale message_stream =
  fixes enc :: "'f \<Rightarrow> byte list"
    and valid :: "'f \<Rightarrow> bool"
    and parse :: "byte list \<Rightarrow> nat \<Rightarrow> ('e, ('f \<times> nat) option) res"
  assumes parse_enc: "valid f \<Longrightarrow> parse (pre @ enc f @ rest) (length pre) = Inr (Some (f, length pre + length (enc f)))"
    and parse_Some: "parse buffer offset = Inr (Some (f, offset')) \<Longrightarrow>
      valid f \<and> offset' = offset + length (enc f) \<and> offset' \<le> length buffer \<and>
      take (length (enc f)) (drop offset buffer) = enc f"
    and enc_nonempty: "valid f \<Longrightarrow> enc f \<noteq> []"
begin

lemma take_messages_enc:
  "list_all valid fs \<Longrightarrow>
     take_messages parse (length fs) (pre @ concat (map enc fs) @ rest) (length pre) =
       Inr (fs, length pre + length (concat (map enc fs)))"
proof (induction fs arbitrary: pre)
  case (Cons f fs)
  then show ?case
    using parse_enc [of f pre "concat (map enc fs) @ rest"] Cons.IH [of "pre @ enc f"] by simp
qed simp

lemma parse_progress: "parse buffer offset = Inr (Some (f, offset')) \<Longrightarrow> offset < offset' \<and> offset' \<le> length buffer"
  using parse_Some [of buffer offset f offset'] enc_nonempty [of f] by auto

lemma take_messages_sound:
  "take_messages parse n buffer offset = Inr (fs, offset') \<Longrightarrow> offset \<le> length buffer \<Longrightarrow>
     list_all valid fs \<and> offset' = offset + length (concat (map enc fs)) \<and> offset' \<le> length buffer \<and>
     take (length (concat (map enc fs))) (drop offset buffer) = concat (map enc fs)"
proof (induction n arbitrary: offset fs offset')
  case (Suc n)
  from Suc.prems(1) consider "fs = []" "offset' = offset"
    | f o1 gs where "parse buffer offset = Inr (Some (f, o1))" "fs = f # gs"
        "take_messages parse n buffer o1 = Inr (gs, offset')"
    by (auto simp: bindE_eq_Inr_iff split: option.splits)
  then show ?case
  proof cases
    case 1
    then show ?thesis using Suc.prems(2) by simp
  next
    case 2
    note f = parse_Some [OF 2(1)]
    then have g: "list_all valid gs" "offset' = o1 + length (concat (map enc gs))" "offset' \<le> length buffer"
      "take (length (concat (map enc gs))) (drop o1 buffer) = concat (map enc gs)"
      using Suc.IH [OF 2(3)] by auto
    have "take (length (enc f) + k) (drop offset buffer) = enc f @ take k (drop o1 buffer)" for k
      unfolding take_add using f by (simp add: add.commute)
    then show ?thesis using f g 2(2) by simp
  qed
qed simp

lemma unique_decoding:
  "list_all valid fs \<Longrightarrow> list_all valid gs \<Longrightarrow> concat (map enc fs) = concat (map enc gs) \<Longrightarrow> fs = gs"
proof (induction fs arbitrary: gs)
  case Nil
  then show ?case using enc_nonempty by (cases gs) auto
next
  case (Cons f fs)
  then obtain g gs' where g: "gs = g # gs'" using enc_nonempty by (cases gs) auto
  have "Some (f, length (enc f)) = Some (g, length (enc g))"
    using parse_enc [of f "[]" "concat (map enc fs)"] parse_enc [of g "[]" "concat (map enc gs')"] Cons.prems
    unfolding g by simp
  then show ?case using Cons g by auto
qed

end

end
