(* ===== verification/Tailgate_Text.thy ===== *)
theory Tailgate_Text
  imports Tailgate_Prelude
begin

text \<open>
  The operations on \<^verbatim>\<open>std::string\<close> and \<^verbatim>\<open>std::string_view\<close> the program uses: searching, decimal
  numbers through \<^verbatim>\<open>std::from_chars\<close> and \<^verbatim>\<open>std::format\<close>, and the conversion between characters
  and bytes.  A string is a list of 8-bit characters; \<^verbatim>\<open>npos\<close> is \<open>None\<close>.
\<close>

section \<open>Characters and bytes\<close>

definition byte_of_char :: "char \<Rightarrow> byte" where
  "byte_of_char c = word_of_nat (of_char c)"

definition char_of_byte :: "byte \<Rightarrow> char" where
  "char_of_byte b = char_of (unat b)"

definition string_bytes :: "string \<Rightarrow> byte list" where
  "string_bytes s = map byte_of_char s"

definition bytes_string :: "byte list \<Rightarrow> string" where
  "bytes_string bs = map char_of_byte bs"

lemma of_char_less [simp]: "of_char c < (256 :: nat)"
  by (metis nat_of_char_less_256)

lemma char_of_byte_of_char [simp]: "char_of_byte (byte_of_char c) = c"
  by (simp add: char_of_byte_def byte_of_char_def unat_of_nat)

lemma byte_of_char_of_byte [simp]: "byte_of_char (char_of_byte b) = b"
  by (simp add: char_of_byte_def byte_of_char_def)

lemma bytes_string_bytes [simp]: "bytes_string (string_bytes s) = s"
  by (simp add: bytes_string_def string_bytes_def comp_def)

lemma string_bytes_string [simp]: "string_bytes (bytes_string b) = b"
  by (simp add: bytes_string_def string_bytes_def comp_def)

lemma length_string_bytes [simp]:
  "length (string_bytes s) = length s" "length (bytes_string b) = length b"
  by (simp_all add: bytes_string_def string_bytes_def)

lemma string_bytes_append [simp]:
  "string_bytes (s @ t) = string_bytes s @ string_bytes t" "string_bytes [] = []"
  "bytes_string (a @ b) = bytes_string a @ bytes_string b" "bytes_string [] = []"
  by (simp_all add: bytes_string_def string_bytes_def)

section \<open>Searching\<close>

fun index_of :: "'a \<Rightarrow> 'a list \<Rightarrow> nat option" where
  "index_of c [] = None"
| "index_of c (x # xs) = (if x = c then Some 0 else map_option Suc (index_of c xs))"

text \<open>\<^verbatim>\<open>text.find(c, start)\<close>, \<^verbatim>\<open>text.rfind(c)\<close>, \<^verbatim>\<open>text.find(pattern, start)\<close>.\<close>

definition find_char :: "'a list \<Rightarrow> 'a \<Rightarrow> nat \<Rightarrow> nat option" where
  "find_char s c start = map_option (\<lambda>i. start + i) (index_of c (drop start s))"

definition rfind_char :: "'a list \<Rightarrow> 'a \<Rightarrow> nat option" where
  "rfind_char s c = map_option (\<lambda>i. length s - 1 - i) (index_of c (rev s))"

fun index_sub :: "'a list \<Rightarrow> 'a list \<Rightarrow> nat option" where
  "index_sub p [] = (if p = [] then Some 0 else None)"
| "index_sub p (x # xs) = (if prefix p (x # xs) then Some 0 else map_option Suc (index_sub p xs))"

definition find_sub :: "'a list \<Rightarrow> 'a list \<Rightarrow> nat \<Rightarrow> nat option" where
  "find_sub s p start =
     (if start \<le> length s then map_option (\<lambda>i. start + i) (index_sub p (drop start s)) else None)"

lemma index_of_None: "index_of c s = None \<longleftrightarrow> c \<notin> set s"
  by (induction s) auto

lemma index_of_Some: "index_of c s = Some i \<Longrightarrow> i < length s \<and> s ! i = c \<and> c \<notin> set (take i s)"
  by (induction s arbitrary: i) (auto split: if_splits)

lemma index_of_append [simp]: "c \<notin> set xs \<Longrightarrow> index_of c (xs @ c # ys) = Some (length xs)"
  by (induction xs) auto

lemma index_of_split:
  "index_of c s = Some i \<Longrightarrow> s = take i s @ c # drop (Suc i) s \<and> c \<notin> set (take i s)"
  using index_of_Some [of c s i] id_take_nth_drop [of i s] by auto

section \<open>Host names\<close>

text \<open>\<^verbatim>\<open>if (!s.empty() && s.back() == '.') s.pop_back();\<close> and \<^verbatim>\<open>s.substr(0, s.find('.'))\<close>\<close>

definition drop_dot :: "string \<Rightarrow> string" where
  "drop_dot s = (if s \<noteq> [] \<and> List.last s = CHR ''.'' then butlast s else s)"

definition first_label :: "string \<Rightarrow> string" where
  "first_label s = (case find_char s CHR ''.'' 0 of None \<Rightarrow> s | Some i \<Rightarrow> take i s)"

text \<open>\<^verbatim>\<open>boost::algorithm::to_lower\<close> in the classic locale.\<close>

definition lower_char :: "char \<Rightarrow> char" where
  "lower_char c = (if 65 \<le> (of_char c :: nat) \<and> of_char c \<le> (90 :: nat) then char_of (of_char c + 32 :: nat) else c)"

definition to_lower :: "string \<Rightarrow> string" where
  "to_lower s = map lower_char s"

lemma lower_char_idem [simp]: "lower_char (lower_char c) = lower_char c"
  by (auto simp: lower_char_def)

lemma lower_char_dot [simp]: "lower_char c = CHR ''.'' \<longleftrightarrow> c = CHR ''.''" "lower_char CHR ''.'' = CHR ''.''"
proof -
  show "lower_char CHR ''.'' = CHR ''.''" by (simp add: lower_char_def)
  have "(of_char (lower_char c) :: nat) = 46 \<longleftrightarrow> of_char c = (46 :: nat)" by (auto simp: lower_char_def)
  moreover have "c = CHR ''.'' \<longleftrightarrow> of_char c = (46 :: nat)" for c :: char
  proof -
    have e: "of_char CHR ''.'' = (46 :: nat)" by simp
    show ?thesis unfolding e [symmetric] by (metis char_of_char)
  qed
  ultimately show "lower_char c = CHR ''.'' \<longleftrightarrow> c = CHR ''.''" by blast
qed

lemma to_lower_simps [simp]: "to_lower (to_lower s) = to_lower s" "to_lower (s @ t) = to_lower s @ to_lower t" "to_lower [] = []"
  "to_lower s = [] \<longleftrightarrow> s = []" "length (to_lower s) = length s"
  by (simp_all add: to_lower_def)

section \<open>Decimal numbers\<close>

definition is_digit :: "char \<Rightarrow> bool" where
  "is_digit c \<longleftrightarrow> 48 \<le> (of_char c :: nat) \<and> of_char c \<le> (57 :: nat)"

definition digit_value :: "char \<Rightarrow> nat" where
  "digit_value c = of_char c - 48"

definition digits_value :: "string \<Rightarrow> nat" where
  "digits_value s = foldl (\<lambda>v c. 10 * v + digit_value c) 0 s"

text \<open>
  \<^verbatim>\<open>std::from_chars\<close> on an unsigned type whose largest value is \<open>hi\<close>: the longest prefix of
  decimal digits; no digit is \<^verbatim>\<open>invalid_argument\<close> and a value above \<open>hi\<close> is
  \<^verbatim>\<open>result_out_of_range\<close>, both \<open>None\<close> here.  The second component is the number of characters
  consumed, \<^verbatim>\<open>ptr - first\<close>.
\<close>

definition from_chars_unsigned :: "nat \<Rightarrow> string \<Rightarrow> (nat \<times> nat) option" where
  "from_chars_unsigned hi s =
     (let ds = takeWhile is_digit s; v = digits_value ds
      in if ds = [] \<or> v > hi then None else Some (v, length ds))"

text \<open>\<^verbatim>\<open>std::from_chars\<close> on a signed type with range \<open>lo .. hi\<close>: a minus sign is accepted too.\<close>

definition from_chars_signed :: "int \<Rightarrow> int \<Rightarrow> string \<Rightarrow> (int \<times> nat) option" where
  "from_chars_signed lo hi s =
     (let neg = (case s of [] \<Rightarrow> False | c # _ \<Rightarrow> c = CHR ''-''); body = (if neg then tl s else s);
          ds = takeWhile is_digit body;
          v = (if neg then - int (digits_value ds) else int (digits_value ds))
      in if ds = [] \<or> v < lo \<or> v > hi then None
         else Some (v, (if neg then 1 else 0) + length ds))"

text \<open>\<^verbatim>\<open>std::format("{}", n)\<close> for an unsigned integer.\<close>

fun show_nat :: "nat \<Rightarrow> string" where
  "show_nat n = (if n < 10 then [char_of (48 + n)] else show_nat (n div 10) @ [char_of (48 + n mod 10)])"

declare show_nat.simps [simp del]

lemma digits_value_snoc: "digits_value (s @ [c]) = 10 * digits_value s + digit_value c"
  by (simp add: digits_value_def)

lemma is_digit_char_of [simp]: "n < (10 :: nat) \<Longrightarrow> is_digit (char_of (48 + n))"
  by (simp add: is_digit_def)

lemma digit_value_char_of [simp]: "n < 10 \<Longrightarrow> digit_value (char_of (48 + n)) = n"
  by (simp add: digit_value_def)

lemma show_nat_digits: "list_all is_digit (show_nat n)"
proof (induction n rule: show_nat.induct)
  case (1 n)
  then show ?case by (subst show_nat.simps) simp
qed

lemma show_nat_nonempty [simp]: "show_nat n \<noteq> []"
  by (subst show_nat.simps) simp

lemma digits_value_show_nat [simp]: "digits_value (show_nat n) = n"
proof (induction n rule: show_nat.induct)
  case (1 n)
  show ?case
  proof (cases "n < 10")
    case True
    then show ?thesis by (subst show_nat.simps) (simp add: digits_value_def)
  next
    case False
    with 1 show ?thesis by (subst show_nat.simps) (simp add: digits_value_snoc)
  qed
qed

lemma takeWhile_digits_append:
  "list_all is_digit s \<Longrightarrow> (rest = [] \<or> \<not> is_digit (hd rest)) \<Longrightarrow>
     takeWhile is_digit (s @ rest) = s"
  by (induction s) (cases rest; auto)+

text \<open>Printing then parsing gives the number back and consumes exactly its digits.\<close>

lemma from_chars_show_nat:
  assumes "n \<le> hi" and "rest = [] \<or> \<not> is_digit (hd rest)"
  shows "from_chars_unsigned hi (show_nat n @ rest) = Some (n, length (show_nat n))"
  using takeWhile_digits_append [OF show_nat_digits assms(2), of n] assms(1)
  by (simp add: from_chars_unsigned_def Let_def)

lemma show_nat_no_dot [simp]: "CHR ''.'' \<notin> set (show_nat n)" "CHR '':'' \<notin> set (show_nat n)"
  using show_nat_digits [of n] by (auto simp: list_all_iff is_digit_def)

lemma not_digit_dot [simp]: "\<not> is_digit CHR ''.''" "\<not> is_digit CHR '':''"
  by (simp_all add: is_digit_def)

text \<open>The ten digits, so that printed numbers evaluate.\<close>

lemma digit_chars [simp]:
  "char_of (48 :: nat) = CHR ''0''" "char_of (49 :: nat) = CHR ''1''" "char_of (50 :: nat) = CHR ''2''"
  "char_of (51 :: nat) = CHR ''3''" "char_of (52 :: nat) = CHR ''4''" "char_of (53 :: nat) = CHR ''5''"
  "char_of (54 :: nat) = CHR ''6''" "char_of (55 :: nat) = CHR ''7''" "char_of (56 :: nat) = CHR ''8''"
  "char_of (57 :: nat) = CHR ''9''"
  by (simp_all add: char_of_def bit_0)

end
