(* ===== verification/Net_Address.thy ===== *)
theory Net_Address
  imports Tailgate_Text
begin

text \<open>
  Addresses: \<^verbatim>\<open>src/core/net/Ipv4Address.cpp\<close>, \<^verbatim>\<open>IpAddress.cpp\<close>, \<^verbatim>\<open>Endpoint.cpp\<close> and
  their headers.  The IPv6 text parser and printer are lwIP's \<^verbatim>\<open>ip6addr_aton\<close> and
  \<^verbatim>\<open>ip6addr_ntoa_r\<close>, which are not part of the program: they are the parameters \<open>aton\<close> and \<open>ntoa\<close>.
\<close>

section \<open>Ipv4Address\<close>

text \<open>The class holds one \<^verbatim>\<open>std::uint32_t m_value\<close>.\<close>

type_synonym ipv4 = u32

definition FromOctets :: "byte \<Rightarrow> byte \<Rightarrow> byte \<Rightarrow> byte \<Rightarrow> ipv4" where
  "FromOctets a b c d = be32 a b c d"

definition Octets :: "ipv4 \<Rightarrow> byte list" where
  "Octets v = [ucast (drop_bit 24 v), ucast (drop_bit 16 v), ucast (drop_bit 8 v), ucast v]"

definition IsPrivate :: "ipv4 \<Rightarrow> bool" where
  "IsPrivate v \<longleftrightarrow>
     v AND FromOctets 255 0 0 0 = FromOctets 10 0 0 0 \<or>
     v AND FromOctets 255 240 0 0 = FromOctets 172 16 0 0 \<or>
     v AND FromOctets 255 255 0 0 = FromOctets 192 168 0 0"

text \<open>One iteration's number: \<^verbatim>\<open>from_chars\<close> must consume the whole non-empty component.\<close>

definition parse_octet :: "string \<Rightarrow> byte option" where
  "parse_octet component =
     (case from_chars_unsigned (2 ^ 32 - 1) component of
        None \<Rightarrow> None
      | Some (value, n) \<Rightarrow>
          if component = [] \<or> n \<noteq> length component \<or> value > 255 then None
          else Some (word_of_nat value))"

text \<open>The loop of \<^verbatim>\<open>Ipv4Address::TryParse\<close> with its variables \<^verbatim>\<open>index\<close>, \<^verbatim>\<open>start\<close> and \<^verbatim>\<open>octets\<close>.\<close>

function parse_octets :: "string \<Rightarrow> nat \<Rightarrow> nat \<Rightarrow> byte list \<Rightarrow> byte list option" where
  "parse_octets text index start octets =
     (if index < 4 then
        let dot = find_char text CHR ''.'' start in
        if (index + 1 < 4) \<noteq> (dot \<noteq> None) then None
        else
          let component =
                (case dot of None \<Rightarrow> drop start text | Some e \<Rightarrow> take (e - start) (drop start text))
          in case parse_octet component of
               None \<Rightarrow> None
             | Some value \<Rightarrow>
                 parse_octets text (index + 1)
                   (case dot of None \<Rightarrow> length text | Some e \<Rightarrow> e + 1) (octets @ [value])
      else Some octets)"
  by pat_completeness auto
termination
  by (relation "measure (\<lambda>(text, index, start, octets). 4 - index)") auto

declare parse_octets.simps [simp del]

definition Ipv4_TryParse :: "string \<Rightarrow> ipv4 option" where
  "Ipv4_TryParse text =
     map_option (\<lambda>o4. FromOctets (o4 ! 0) (o4 ! 1) (o4 ! 2) (o4 ! 3)) (parse_octets text 0 0 [])"

datatype address_error = Ipv4AddressParseError | IpAddressParseError | EndpointParseError

definition Ipv4_Parse :: "string \<Rightarrow> (address_error, ipv4) res" where
  "Ipv4_Parse text =
     (case Ipv4_TryParse text of None \<Rightarrow> Inl (Throw Ipv4AddressParseError) | Some a \<Rightarrow> Inr a)"

definition Ipv4_ToString :: "ipv4 \<Rightarrow> string" where
  "Ipv4_ToString v =
     (let o4 = Octets v
      in show_nat (unat (o4 ! 0)) @ ''.'' @ show_nat (unat (o4 ! 1)) @ ''.'' @
         show_nat (unat (o4 ! 2)) @ ''.'' @ show_nat (unat (o4 ! 3)))"

section \<open>Endpoint\<close>

record endpoint =
  ep_address :: ipv4
  ep_port :: u16

definition Endpoint_TryParse :: "string \<Rightarrow> endpoint option" where
  "Endpoint_TryParse text =
     (case rfind_char text CHR '':'' of
        None \<Rightarrow> None
      | Some separator \<Rightarrow>
          let address = Ipv4_TryParse (take separator text); portText = drop (separator + 1) text
          in case (address, from_chars_unsigned (2 ^ 32 - 1) portText) of
               (Some a, Some (port, n)) \<Rightarrow>
                 if portText = [] \<or> n \<noteq> length portText \<or> port > 65535 then None
                 else Some \<lparr>ep_address = a, ep_port = word_of_nat port\<rparr>
             | _ \<Rightarrow> None)"

definition Endpoint_Parse :: "string \<Rightarrow> (address_error, endpoint) res" where
  "Endpoint_Parse text =
     (case Endpoint_TryParse text of None \<Rightarrow> Inl (Throw EndpointParseError) | Some e \<Rightarrow> Inr e)"

definition Endpoint_ToString :: "endpoint \<Rightarrow> string" where
  "Endpoint_ToString e = Ipv4_ToString (ep_address e) @ '':'' @ show_nat (unat (ep_port e))"

section \<open>IpAddress\<close>

datatype address_family = Ipv4 | Ipv6

text \<open>\<^verbatim>\<open>m_bytes\<close> always holds 16 bytes; an IPv4 address uses the first four and leaves zeros.\<close>

record ip_address =
  ip_family :: address_family
  ip_bytes :: "byte list"

definition Ip_of_v4 :: "ipv4 \<Rightarrow> ip_address" where
  "Ip_of_v4 a = \<lparr>ip_family = Ipv4, ip_bytes = Octets a @ replicate 12 0\<rparr>"

definition FromIpv6 :: "byte list \<Rightarrow> ip_address" where
  "FromIpv6 bytes = \<lparr>ip_family = Ipv6, ip_bytes = bytes\<rparr>"

definition Bytes :: "ip_address \<Rightarrow> byte list" where
  "Bytes a = (if ip_family a = Ipv4 then take 4 (ip_bytes a) else ip_bytes a)"

definition ip6_alphabet :: string where
  "ip6_alphabet = ''0123456789abcdefABCDEF:.''"

definition Ip_TryParse :: "(string \<Rightarrow> byte list option) \<Rightarrow> string \<Rightarrow> ip_address option" where
  "Ip_TryParse aton text =
     (case Ipv4_TryParse text of
        Some a \<Rightarrow> Some (Ip_of_v4 a)
      | None \<Rightarrow>
          if find_char text CHR '':'' 0 = None \<or>
             \<not> list_all (\<lambda>c. c \<in> set ip6_alphabet) text
          then None
          else map_option FromIpv6 (aton text))"

definition Ip_Parse :: "(string \<Rightarrow> byte list option) \<Rightarrow> string \<Rightarrow> (address_error, ip_address) res" where
  "Ip_Parse aton text =
     (case Ip_TryParse aton text of None \<Rightarrow> Inl (Throw IpAddressParseError) | Some a \<Rightarrow> Inr a)"

definition Ip_ToString :: "(byte list \<Rightarrow> string) \<Rightarrow> ip_address \<Rightarrow> string" where
  "Ip_ToString ntoa a =
     (if ip_family a = Ipv4
      then Ipv4_ToString (FromOctets (ip_bytes a ! 0) (ip_bytes a ! 1) (ip_bytes a ! 2) (ip_bytes a ! 3))
      else ntoa (ip_bytes a))"

definition IsUnspecified :: "ip_address \<Rightarrow> bool" where
  "IsUnspecified a \<longleftrightarrow> list_all (\<lambda>b. b = 0) (ip_bytes a)"

section \<open>IPv4 text\<close>

lemma takeWhile_all_iff: "length (takeWhile P xs) = length xs \<longleftrightarrow> list_all P xs"
  by (metis list_all_iff takeWhile_eq_all_conv takeWhile_eq_take take_all_iff order_refl)

lemma from_chars_whole:
  "from_chars_unsigned hi s = Some (v, n) \<Longrightarrow>
     n = length s \<longleftrightarrow> list_all is_digit s"
  by (auto simp: from_chars_unsigned_def Let_def takeWhile_all_iff split: if_splits)

lemma takeWhile_list_all: "list_all P xs \<Longrightarrow> takeWhile P xs = xs"
  by (induction xs) auto

lemma from_chars_digits:
  "list_all is_digit s \<Longrightarrow> from_chars_unsigned hi s =
     (if s = [] \<or> digits_value s > hi then None else Some (digits_value s, length s))"
  by (simp add: from_chars_unsigned_def Let_def takeWhile_list_all)

lemma parse_octet_iff:
  "parse_octet c = Some b \<longleftrightarrow>
     c \<noteq> [] \<and> list_all is_digit c \<and> digits_value c \<le> 255 \<and> b = word_of_nat (digits_value c)"
proof (cases "list_all is_digit c")
  case True
  then show ?thesis by (auto simp: parse_octet_def from_chars_digits)
next
  case False
  then show ?thesis
    by (auto simp: parse_octet_def dest: from_chars_whole split: option.splits prod.splits)
qed

lemma parse_octet_no_dot: "parse_octet c = Some b \<Longrightarrow> CHR ''.'' \<notin> set c"
  by (auto simp: parse_octet_iff list_all_iff)

lemma parse_octet_show [simp]: "parse_octet (show_nat (unat b)) = Some (b :: byte)"
  using show_nat_digits [of "unat b"] by (simp add: parse_octet_iff)

lemma find_char_append:
  "c \<notin> set xs \<Longrightarrow> find_char (pre @ xs @ c # ys) c (length pre) = Some (length pre + length xs)"
  by (simp add: find_char_def)

lemma find_char_none: "c \<notin> set xs \<Longrightarrow> find_char (pre @ xs) c (length pre) = None"
  by (simp add: find_char_def index_of_None)

lemma parse_octets_dot:
  assumes "i < 3" and "CHR ''.'' \<notin> set c"
  shows "parse_octets (pre @ c @ CHR ''.'' # rest) i (length pre) acc =
    (case parse_octet c of None \<Rightarrow> None
     | Some b \<Rightarrow> parse_octets ((pre @ c @ ''.'') @ rest) (i + 1) (length (pre @ c @ ''.'')) (acc @ [b]))"
  using assms by (subst parse_octets.simps) (simp add: Let_def find_char_append split: option.split)

lemma parse_octets_last:
  "CHR ''.'' \<notin> set c \<Longrightarrow> parse_octets (pre @ c) 3 (length pre) acc =
     (case parse_octet c of None \<Rightarrow> None | Some b \<Rightarrow> Some (acc @ [b]))"
  by (subst parse_octets.simps) (simp add: Let_def find_char_none parse_octets.simps split: option.split)

lemma split_at_char:
  obtains "c \<notin> set s" | xs ys where "s = xs @ c # ys" "c \<notin> set xs"
  using split_list_first by metis

lemma parse_octets_inv:
  assumes "i < 4" and "parse_octets (pre @ s) i (length pre) acc = Some os"
  shows "\<exists>c b. parse_octet c = Some b \<and>
    (if i < 3 then \<exists>rest. s = c @ CHR ''.'' # rest \<and>
       parse_octets ((pre @ c @ ''.'') @ rest) (i + 1) (length (pre @ c @ ''.'')) (acc @ [b]) = Some os
     else s = c \<and> os = acc @ [b])"
proof (cases "i < 3")
  case True
  show ?thesis
  proof (cases s rule: split_at_char [where c = "CHR ''.''"])
    case 1
    with True assms show ?thesis
      by (subst (asm) parse_octets.simps) (simp add: Let_def find_char_none)
  next
    case (2 xs ys)
    with assms True parse_octets_dot [OF True 2(2), of pre ys acc] show ?thesis
      by (auto split: option.splits)
  qed
next
  case False
  with assms(1) have i3: "i = 3" by simp
  show ?thesis
  proof (cases s rule: split_at_char [where c = "CHR ''.''"])
    case 1
    with i3 assms parse_octets_last [OF 1, of pre acc] show ?thesis
      by (auto split: option.splits)
  next
    case (2 xs ys)
    with i3 assms show ?thesis
      by (subst (asm) parse_octets.simps) (simp add: Let_def find_char_append)
  qed
qed

lemma parse_octets_four:
  "parse_octets s 0 0 [] = Some os \<longleftrightarrow>
     (\<exists>c0 c1 c2 c3 b0 b1 b2 b3. s = c0 @ ''.'' @ c1 @ ''.'' @ c2 @ ''.'' @ c3 \<and>
        parse_octet c0 = Some b0 \<and> parse_octet c1 = Some b1 \<and> parse_octet c2 = Some b2 \<and>
        parse_octet c3 = Some b3 \<and> os = [b0, b1, b2, b3])" (is "?L \<longleftrightarrow> ?R")
proof
  assume ?L
  then obtain c0 b0 r0 where 0: "parse_octet c0 = Some b0" "s = c0 @ CHR ''.'' # r0"
      "parse_octets ((c0 @ ''.'') @ r0) 1 (length (c0 @ ''.'')) [b0] = Some os"
    using parse_octets_inv [of 0 "[]" s "[]" os] by auto
  from parse_octets_inv [OF _ 0(3)] obtain c1 b1 r1 where 1: "parse_octet c1 = Some b1"
      "r0 = c1 @ CHR ''.'' # r1"
      "parse_octets (((c0 @ ''.'') @ c1 @ ''.'') @ r1) 2 (length ((c0 @ ''.'') @ c1 @ ''.'')) [b0, b1]
         = Some os"
    by (auto simp: numeral_2_eq_2)
  from parse_octets_inv [OF _ 1(3)] obtain c2 b2 r2 where 2: "parse_octet c2 = Some b2"
      "r1 = c2 @ CHR ''.'' # r2"
      "parse_octets ((((c0 @ ''.'') @ c1 @ ''.'') @ c2 @ ''.'') @ r2) 3
         (length (((c0 @ ''.'') @ c1 @ ''.'') @ c2 @ ''.'')) [b0, b1, b2] = Some os"
    by (auto simp: numeral_3_eq_3 numeral_2_eq_2)
  from parse_octets_inv [OF _ 2(3)] obtain b3 where "parse_octet r2 = Some b3"
      "os = [b0, b1, b2, b3]" by auto
  with 0 1 2 show ?R by auto
next
  assume ?R
  then obtain c0 c1 c2 c3 b0 b1 b2 b3 where
    *: "s = c0 @ ''.'' @ c1 @ ''.'' @ c2 @ ''.'' @ c3" "parse_octet c0 = Some b0"
      "parse_octet c1 = Some b1" "parse_octet c2 = Some b2" "parse_octet c3 = Some b3"
      "os = [b0, b1, b2, b3]" by blast
  note nd = *(2-5) [THEN parse_octet_no_dot]
  show ?L
    using * parse_octets_dot [OF _ nd(1), of 0 "[]"]
      parse_octets_dot [OF _ nd(2), of 1 "c0 @ ''.''" "c2 @ ''.'' @ c3"]
      parse_octets_dot [OF _ nd(3), of 2 "c0 @ ''.'' @ c1 @ ''.''" "c3"]
      parse_octets_last [OF nd(4), of "c0 @ ''.'' @ c1 @ ''.'' @ c2 @ ''.''"]
    by (simp add: numeral_2_eq_2 numeral_3_eq_3)
qed

lemma Ipv4_TryParse_octets:
  "Ipv4_TryParse s = Some a \<longleftrightarrow> parse_octets s 0 0 [] = Some (Octets a)"
proof
  assume "Ipv4_TryParse s = Some a"
  then obtain os where os: "parse_octets s 0 0 [] = Some os"
      "a = FromOctets (os ! 0) (os ! 1) (os ! 2) (os ! 3)"
    by (auto simp: Ipv4_TryParse_def)
  moreover from os(1) obtain b0 b1 b2 b3 where "os = [b0, b1, b2, b3]"
    unfolding parse_octets_four by blast
  ultimately show "parse_octets s 0 0 [] = Some (Octets a)"
    by (simp add: FromOctets_def Octets_def)
qed (simp add: Ipv4_TryParse_def FromOctets_def Octets_def)

text \<open>
  the IPv4 text parser accepts exactly four non-empty decimal numbers of at most 255 joined
  by dots, and returns the address with these octets, most significant first.
\<close>

theorem Ipv4_TryParse_iff:
  "Ipv4_TryParse s = Some a \<longleftrightarrow>
     (\<exists>c0 c1 c2 c3. s = c0 @ ''.'' @ c1 @ ''.'' @ c2 @ ''.'' @ c3 \<and>
        list_all (\<lambda>c. c \<noteq> [] \<and> list_all is_digit c \<and> digits_value c \<le> 255) [c0, c1, c2, c3] \<and>
        Octets a = map (\<lambda>c. word_of_nat (digits_value c)) [c0, c1, c2, c3])"
  unfolding Ipv4_TryParse_octets parse_octets_four by (simp add: parse_octet_iff)

lemma Ipv4_TryParse_ToString [simp]: "Ipv4_TryParse (Ipv4_ToString a) = Some a"
proof -
  have "parse_octets (Ipv4_ToString a) 0 0 [] = Some (Octets a)"
    unfolding parse_octets_four
    by (rule exI [of _ "show_nat (unat (Octets a ! 0))"], rule exI [of _ "show_nat (unat (Octets a ! 1))"],
        rule exI [of _ "show_nat (unat (Octets a ! 2))"], rule exI [of _ "show_nat (unat (Octets a ! 3))"])
      (simp add: Ipv4_ToString_def Let_def Octets_def)
  then show ?thesis
    by (simp add: Ipv4_TryParse_def FromOctets_def Octets_def)
qed

text \<open>printing an endpoint and parsing the text gives the endpoint back.\<close>

theorem Endpoint_TryParse_ToString: "Endpoint_TryParse (Endpoint_ToString e) = Some e"
proof -
  let ?p = "show_nat (unat (ep_port e))"
  have "rfind_char (Ipv4_ToString (ep_address e) @ '':'' @ ?p) CHR '':'' =
      Some (length (Ipv4_ToString (ep_address e)))"
    using index_of_append [of "CHR '':''" "rev ?p" "rev (Ipv4_ToString (ep_address e))"]
    by (simp add: rfind_char_def)
  moreover have "from_chars_unsigned (2 ^ 32 - 1) ?p = Some (unat (ep_port e), length ?p)"
    using from_chars_show_nat [of "unat (ep_port e)" "2 ^ 32 - 1" "[]"]
      order_trans [OF unat_le(2) [of "ep_port e"], of "2 ^ 32 - 1"] by simp
  ultimately show ?thesis
    by (simp add: Endpoint_TryParse_def Endpoint_ToString_def Let_def not_less)
qed

end
