(* ===== verification/Net_Range.thy ===== *)
theory Net_Range
  imports Net_Address
begin

text \<open>
  Address ranges, \<^verbatim>\<open>src/core/net/IpRange.cpp\<close>: the sources and destinations of access-control
  grants.  The bit loop that masks the host part is verified against the value of the address
  as one big-endian number.
\<close>

section \<open>IpRange\<close>

record ip_range =
  m_first :: ip_address
  m_last :: ip_address

definition FromBytes :: "address_family \<Rightarrow> byte list \<Rightarrow> ip_address" where
  "FromBytes family bytes =
     (if family = Ipv6 then FromIpv6 bytes
      else Ip_of_v4 (FromOctets (bytes ! 0) (bytes ! 1) (bytes ! 2) (bytes ! 3)))"

text \<open>\<^verbatim>\<open>std::ranges::lexicographical_compare\<close>.\<close>

fun lex_less :: "byte list \<Rightarrow> byte list \<Rightarrow> bool" where
  "lex_less [] ys = (ys \<noteq> [])"
| "lex_less (x # xs) [] = False"
| "lex_less (x # xs) (y # ys) = (if x < y then True else if y < x then False else lex_less xs ys)"

definition Less :: "ip_address \<Rightarrow> ip_address \<Rightarrow> bool" where
  "Less l r = lex_less (Bytes l) (Bytes r)"

text \<open>The loop over the host bits: \<open>m\<close> bits from bit \<open>k\<close> on are cleared in \<open>lo\<close> and set in \<open>hi\<close>.\<close>

fun mask_host_bits :: "nat \<Rightarrow> nat \<Rightarrow> byte list \<Rightarrow> byte list \<Rightarrow> byte list \<times> byte list" where
  "mask_host_bits 0 k lo hi = (lo, hi)"
| "mask_host_bits (Suc m) k lo hi =
     (let mask = (push_bit (7 - k mod 8) 1 :: byte); i = k div 8
      in mask_host_bits m (k + 1) (lo[i := lo ! i AND NOT mask]) (hi[i := hi ! i OR mask]))"

definition IpRange_TryParse :: "(string \<Rightarrow> byte list option) \<Rightarrow> string \<Rightarrow> ip_range option" where
  "IpRange_TryParse aton text =
     (case find_char text CHR ''-'' 0 of
        Some dash \<Rightarrow>
          (case (Ip_TryParse aton (take dash text), Ip_TryParse aton (drop (dash + 1) text)) of
             (Some lo, Some hi) \<Rightarrow>
               if ip_family lo \<noteq> ip_family hi \<or> Less hi lo then None
               else Some \<lparr>m_first = lo, m_last = hi\<rparr>
           | _ \<Rightarrow> None)
      | None \<Rightarrow>
          let slash = find_char text CHR ''/'' 0 in
          (case Ip_TryParse aton (case slash of None \<Rightarrow> text | Some i \<Rightarrow> take i text) of
             None \<Rightarrow> None
           | Some address \<Rightarrow>
               (case slash of
                  None \<Rightarrow> Some \<lparr>m_first = address, m_last = address\<rparr>
                | Some i \<Rightarrow>
                    let suffix = drop (i + 1) text; width = length (Bytes address) * 8
                    in case from_chars_unsigned (2 ^ 32 - 1) suffix of
                         None \<Rightarrow> None
                       | Some (plen, n) \<Rightarrow>
                           if n \<noteq> length suffix \<or> plen > width then None
                           else
                             let bytes = Bytes address @ replicate (16 - length (Bytes address)) 0;
                                 (lo, hi) = mask_host_bits (width - plen) plen bytes bytes
                             in Some \<lparr>m_first = FromBytes (ip_family address) lo,
                                      m_last = FromBytes (ip_family address) hi\<rparr>)))"

definition Contains :: "ip_range \<Rightarrow> ip_address \<Rightarrow> bool" where
  "Contains r a \<longleftrightarrow>
     ip_family a = ip_family (m_first r) \<and> \<not> Less a (m_first r) \<and> \<not> Less (m_last r) a"

section \<open>Address ranges\<close>

text \<open>The value of a byte string as one big-endian number.\<close>

fun bytes_value :: "byte list \<Rightarrow> nat" where
  "bytes_value [] = 0"
| "bytes_value (x # xs) = unat x * 2 ^ (8 * length xs) + bytes_value xs"

definition address_value :: "ip_address \<Rightarrow> nat" where
  "address_value a = bytes_value (Bytes a)"

definition address_width :: "ip_address \<Rightarrow> nat" where
  "address_width a = 8 * length (Bytes a)"

definition ip_ok :: "ip_address \<Rightarrow> bool" where
  "ip_ok a \<longleftrightarrow> length (ip_bytes a) = 16"

text \<open>What the program relies on of \<^verbatim>\<open>ip6addr_aton\<close>: a parsed address has 16 bytes.\<close>

definition aton_ok :: "(string \<Rightarrow> byte list option) \<Rightarrow> bool" where
  "aton_ok aton \<longleftrightarrow> (\<forall>t bs. aton t = Some bs \<longrightarrow> length bs = 16)"

lemma bytes_value_less: "bytes_value xs < 2 ^ (8 * length xs)"
proof (induction xs)
  case (Cons x xs)
  have "unat x * 2 ^ (8 * length xs) + bytes_value xs < (unat x + 1) * 2 ^ (8 * length xs)"
    using Cons by (simp add: algebra_simps)
  also have "\<dots> \<le> 256 * 2 ^ (8 * length xs)"
    using unat_byte [of x] by (intro mult_right_mono) (simp_all add: Suc_le_eq)
  finally show ?case by (simp add: power_add)
qed simp

lemma lex_less_value:
  "length xs = length ys \<Longrightarrow> lex_less xs ys \<longleftrightarrow> bytes_value xs < bytes_value ys"
proof (induction xs ys rule: lex_less.induct)
  case (3 x xs y ys)
  let ?B = "2 ^ (8 * length ys) :: nat"
  have lt: "bytes_value (a # as) < bytes_value (b # bs)"
    if "a < b" "length as = length ys" "length bs = length ys" for a b :: byte and as bs
  proof -
    have "bytes_value (a # as) < (unat a + 1) * ?B"
      using bytes_value_less [of as] that(2) by (simp add: algebra_simps)
    also have "\<dots> \<le> unat b * ?B"
      using that(1) by (intro mult_right_mono) (simp_all add: word_less_nat_alt)
    also have "\<dots> \<le> bytes_value (b # bs)" using that(3) by simp
    finally show ?thesis .
  qed
  show ?case
    using 3 lt [of x y xs ys] lt [of y x ys xs] by (cases x y rule: linorder_cases) auto
qed simp_all

lemma bit_bytes_value:
  "bit (bytes_value xs) i \<longleftrightarrow> i < 8 * length xs \<and> bit (xs ! (length xs - 1 - i div 8)) (i mod 8)"
proof (induction xs arbitrary: i)
  case (Cons x xs)
  let ?n = "8 * length xs"
  have eq: "bytes_value (x # xs) = push_bit ?n (unat x) OR bytes_value xs"
  proof -
    have "push_bit ?n (unat x) AND bytes_value xs = 0"
      by (rule bit_eqI) (auto simp: bit_simps Cons)
    then show ?thesis by (simp add: push_bit_eq_mult disjunctive_add_eq_or mult.commute)
  qed
  show ?case
  proof (cases "i < ?n")
    case True
    then have "i div 8 < length xs" by (simp add: div_less_iff_less_mult mult.commute)
    then have "length (x # xs) - 1 - i div 8 = Suc (length xs - 1 - i div 8)" by simp
    with True show ?thesis unfolding eq by (simp add: bit_simps Cons)
  next
    case False
    have "bit (unat x) (i - ?n) \<longleftrightarrow> i < ?n + 8 \<and> bit x (i mod 8)"
    proof (cases "i < ?n + 8")
      case True
      then have "i - ?n = i mod 8"
        using False by (metis le_add_diff_inverse mod_less mod_mult_self4 nat_add_left_cancel_less not_less)
      with True show ?thesis by (simp add: bit_unsigned_iff)
    next
      case False2: False
      then have "8 \<le> i - ?n" by simp
      with False2 show ?thesis by (simp add: bit_unsigned_iff)
    qed
    moreover have "i < ?n + 8 \<Longrightarrow> i div 8 = length xs"
      using False by (simp add: div_nat_eqI)
    ultimately show ?thesis using False unfolding eq by (auto simp: bit_simps Cons)
  qed
qed simp

text \<open>Clearing or setting one bit of one byte, seen on the value.\<close>

definition clear_at :: "nat \<Rightarrow> byte list \<Rightarrow> byte list" where
  "clear_at k xs = xs[k div 8 := xs ! (k div 8) AND NOT (push_bit (7 - k mod 8) 1)]"

definition set_at :: "nat \<Rightarrow> byte list \<Rightarrow> byte list" where
  "set_at k xs = xs[k div 8 := xs ! (k div 8) OR push_bit (7 - k mod 8) 1]"

lemma length_clear_set [simp]: "length (clear_at k xs) = length xs" "length (set_at k xs) = length xs"
  by (simp_all add: clear_at_def set_at_def)

lemma msb_position:
  fixes k n i :: nat
  assumes "k < 8 * n" and "i < 8 * n"
  shows "(n - 1 - i div 8 = k div 8 \<and> i mod 8 = 7 - k mod 8) \<longleftrightarrow> i + k + 1 = 8 * n"
proof -
  define a b c d where d: "a = i div 8" "b = i mod 8" "c = k div 8" "d = k mod 8"
  then have i: "i = 8 * a + b" "b < 8" and k: "k = 8 * c + d" "d < 8" by simp_all
  have an: "a < n" using assms i by linarith
  have "n - 1 - a = c \<longleftrightarrow> a + c + 1 = n" using an by linarith
  moreover have "b = 7 - d \<longleftrightarrow> b + d = 7" using i k by linarith
  moreover have "a + c + 1 = n" if "i + k + 1 = 8 * n" using that i k by linarith
  ultimately show ?thesis unfolding d [symmetric] using i k by auto
qed

lemma bit_clear_at:
  assumes "k < 8 * length xs"
  shows "bit (bytes_value (clear_at k xs)) i \<longleftrightarrow>
    bit (bytes_value xs) i \<and> i + k + 1 \<noteq> 8 * length xs"
proof (cases "i < 8 * length xs")
  case True
  have "k div 8 < length xs" using assms by (simp add: div_less_iff_less_mult mult.commute)
  with True msb_position [OF assms True] show ?thesis
    by (auto simp: bit_bytes_value clear_at_def nth_list_update bit_simps)
qed (simp add: bit_bytes_value)

lemma bit_set_at:
  assumes "k < 8 * length xs"
  shows "bit (bytes_value (set_at k xs)) i \<longleftrightarrow>
    bit (bytes_value xs) i \<or> i + k + 1 = 8 * length xs"
proof (cases "i < 8 * length xs")
  case True
  have "k div 8 < length xs" using assms by (simp add: div_less_iff_less_mult mult.commute)
  with True msb_position [OF assms True] show ?thesis
    by (auto simp: bit_bytes_value set_at_def nth_list_update bit_simps)
next
  case False
  with assms show ?thesis by (auto simp: bit_bytes_value)
qed

lemma mask_host_bits_Suc:
  "mask_host_bits (Suc m) k lo hi = mask_host_bits m (k + 1) (clear_at k lo) (set_at k hi)"
  by (simp add: Let_def clear_at_def set_at_def)

lemma mask_host_bits_append:
  "k + m \<le> 8 * length lo \<Longrightarrow> length hi = length lo \<Longrightarrow>
     mask_host_bits m k (lo @ z) (hi @ z) =
       (fst (mask_host_bits m k lo hi) @ z, snd (mask_host_bits m k lo hi) @ z)"
proof (induction m arbitrary: k lo hi)
  case (Suc m)
  then have "k div 8 < length lo" by (simp add: div_less_iff_less_mult)
  with Suc.prems have "clear_at k (lo @ z) = clear_at k lo @ z" "set_at k (hi @ z) = set_at k hi @ z"
    by (simp_all add: clear_at_def set_at_def nth_append list_update_append)
  with Suc show ?case by (simp add: mask_host_bits_Suc del: mask_host_bits.simps)
qed simp

lemma mask_host_bits_bits:
  assumes "k + m = 8 * n" and "length lo = n" and "length hi = n"
    and "mask_host_bits m k lo hi = (lo', hi')"
  shows "length lo' = n \<and> length hi' = n \<and>
    (\<forall>i. bit (bytes_value lo') i \<longleftrightarrow> bit (bytes_value lo) i \<and> m \<le> i) \<and>
    (\<forall>i. bit (bytes_value hi') i \<longleftrightarrow> bit (bytes_value hi) i \<or> i < m)"
  using assms
proof (induction m arbitrary: k lo hi)
  case (Suc m)
  then have k: "k < 8 * length lo" "k < 8 * length hi" by simp_all
  have at: "i + k + 1 = 8 * length lo \<longleftrightarrow> i = m" "i + k + 1 = 8 * length hi \<longleftrightarrow> i = m" for i
    using Suc.prems by auto
  have "mask_host_bits m (k + 1) (clear_at k lo) (set_at k hi) = (lo', hi')"
    using Suc.prems(4) by (simp only: mask_host_bits_Suc)
  from Suc.IH [OF _ _ _ this] Suc.prems(1-3)
  have IH: "length lo' = n" "length hi' = n"
    "bit (bytes_value lo') i \<longleftrightarrow> bit (bytes_value (clear_at k lo)) i \<and> m \<le> i"
    "bit (bytes_value hi') i \<longleftrightarrow> bit (bytes_value (set_at k hi)) i \<or> i < m" for i
    by simp_all
  show ?case
    unfolding IH bit_clear_at [OF k(1)] bit_set_at [OF k(2)] at by (auto simp: Suc_le_eq)
qed simp

lemma mask_host_bits_value:
  assumes "k + m = 8 * length bs" and "mask_host_bits m k bs bs = (lo, hi)"
  shows "bytes_value lo = (bytes_value bs div 2 ^ m) * 2 ^ m"
    and "bytes_value hi = (bytes_value bs div 2 ^ m) * 2 ^ m + (2 ^ m - 1)"
    and "length lo = length bs" and "length hi = length bs"
proof -
  note b = mask_host_bits_bits [OF assms(1) refl refl assms(2)]
  show "length lo = length bs" "length hi = length bs" using b by auto
  have "bytes_value lo = push_bit m (drop_bit m (bytes_value bs))"
    by (rule bit_eqI) (use b in \<open>auto simp: bit_simps\<close>)
  then show "bytes_value lo = (bytes_value bs div 2 ^ m) * 2 ^ m"
    by (simp add: push_bit_eq_mult drop_bit_eq_div)
  have "bytes_value hi = push_bit m (drop_bit m (bytes_value bs)) OR mask m"
    by (rule bit_eqI) (use b in \<open>auto simp: bit_simps\<close>)
  also have "\<dots> = push_bit m (drop_bit m (bytes_value bs)) + mask m"
  proof -
    have "push_bit m (drop_bit m (bytes_value bs)) AND mask m = 0"
      by (rule bit_eqI) (auto simp: bit_simps)
    then show ?thesis by (simp add: disjunctive_add_eq_or)
  qed
  finally show "bytes_value hi = (bytes_value bs div 2 ^ m) * 2 ^ m + (2 ^ m - 1)"
    by (simp add: push_bit_eq_mult drop_bit_eq_div mask_eq_exp_minus_1)
qed

lemma between_block_iff:
  fixes v a b :: nat
  shows "(v div 2 ^ m) * 2 ^ m \<le> a \<and> a \<le> (v div 2 ^ m) * 2 ^ m + (2 ^ m - 1) \<longleftrightarrow>
    a div 2 ^ m = v div 2 ^ m"
proof -
  have "a div 2 ^ m = q \<longleftrightarrow> q * 2 ^ m \<le> a \<and> a < q * 2 ^ m + 2 ^ m" for q
    using div_nat_eqI [of "2 ^ m" q a] div_times_less_eq_dividend [of a "2 ^ m"]
      dividend_less_div_times [of "2 ^ m" a] by (auto simp: mult.commute add.commute)
  moreover have "a < c + 2 ^ m \<longleftrightarrow> a \<le> c + (2 ^ m - 1)" for c
    using one_le_power [of "2 :: nat" m] by linarith
  ultimately show ?thesis by simp
qed

lemma FromBytes_value:
  assumes "length bs = (if family = Ipv4 then 4 else 16)"
  shows "Bytes (FromBytes family (bs @ replicate (16 - length bs) 0)) = bs"
    and "ip_family (FromBytes family (bs @ replicate (16 - length bs) 0)) = family"
proof -
  show "Bytes (FromBytes family (bs @ replicate (16 - length bs) 0)) = bs"
  proof (cases family)
    case Ipv4
    with assms obtain a b c d where "bs = [a, b, c, d]"
      by (auto simp: eval_nat_numeral length_Suc_conv)
    with Ipv4 show ?thesis
      by (simp add: FromBytes_def Bytes_def Ip_of_v4_def FromOctets_def Octets_def)
  qed (use assms in \<open>simp add: FromBytes_def Bytes_def FromIpv6_def\<close>)
  show "ip_family (FromBytes family (bs @ replicate (16 - length bs) 0)) = family"
    by (cases family) (simp_all add: FromBytes_def Ip_of_v4_def FromIpv6_def)
qed

lemma Less_value:
  "length (Bytes a) = length (Bytes b) \<Longrightarrow> Less a b \<longleftrightarrow> address_value a < address_value b"
  by (simp add: Less_def address_value_def lex_less_value)

lemma length_Bytes: "ip_ok a \<Longrightarrow> length (Bytes a) = (if ip_family a = Ipv4 then 4 else 16)"
  by (simp add: ip_ok_def Bytes_def)

lemma Ip_TryParse_ok: "aton_ok aton \<Longrightarrow> Ip_TryParse aton t = Some a \<Longrightarrow> ip_ok a"
  by (auto simp: Ip_TryParse_def ip_ok_def Ip_of_v4_def Octets_def FromIpv6_def aton_ok_def
      split: option.splits if_splits)

lemma Ip_TryParse_chars:
  assumes "Ip_TryParse aton t = Some a" and "c \<notin> set ip6_alphabet"
    and "\<not> is_digit c" and "c \<noteq> CHR ''.''"
  shows "c \<notin> set t"
proof (cases "Ipv4_TryParse t")
  case None
  with assms show ?thesis by (auto simp: Ip_TryParse_def list_all_iff split: if_splits)
next
  case (Some a4)
  note this [unfolded Ipv4_TryParse_octets parse_octets_four parse_octet_iff]
  with assms(3,4) show ?thesis
    by (auto simp: list_all_iff)
qed

text \<open>
  C29: a range written \<^verbatim>\<open>address/n\<close> contains exactly the addresses of the same family whose first \<open>n\<close>
  bits agree with the address, whether or not the host bits of the written address are zero.
\<close>

theorem IpRange_cidr:
  assumes "aton_ok aton" and "Ip_TryParse aton t = Some addr" and "n \<le> address_width addr"
    and "ip_ok a"
  shows "\<exists>r. IpRange_TryParse aton (t @ ''/'' @ show_nat n) = Some r \<and>
    (Contains r a \<longleftrightarrow> ip_family a = ip_family addr \<and>
       address_value a div 2 ^ (address_width addr - n) =
       address_value addr div 2 ^ (address_width addr - n))"
proof -
  let ?bs = "Bytes addr" and ?m = "address_width addr - n"
  note len = length_Bytes [OF Ip_TryParse_ok [OF assms(1,2)]]
  have nochar: "CHR ''-'' \<notin> set t" "CHR ''/'' \<notin> set t"
    using Ip_TryParse_chars [OF assms(2)] by (simp_all add: is_digit_def ip6_alphabet_def)
  have nd: "CHR ''-'' \<notin> set (show_nat n)"
    using show_nat_digits [of n] by (auto simp: list_all_iff is_digit_def)
  have small: "n \<le> 2 ^ 32 - 1"
    using assms(3) len by (auto simp: address_width_def split: if_splits)
  obtain lo hi where m: "mask_host_bits ?m n ?bs ?bs = (lo, hi)" by fastforce
  have nm: "n + ?m = 8 * length ?bs" using assms(3) by (simp add: address_width_def)
  note v = mask_host_bits_value [OF nm m]
  let ?z = "replicate (16 - length ?bs) (0 :: byte)"
  let ?r = "\<lparr>m_first = FromBytes (ip_family addr) (lo @ ?z), m_last = FromBytes (ip_family addr) (hi @ ?z)\<rparr>"
  have dash: "find_char (t @ ''/'' @ show_nat n) CHR ''-'' 0 = None"
    using find_char_none [of "CHR ''-''" "t @ ''/'' @ show_nat n" "[]"] nochar nd by simp
  have slash: "find_char (t @ ''/'' @ show_nat n) CHR ''/'' 0 = Some (length t)"
    using find_char_append [of "CHR ''/''" t "[]" "show_nat n"] nochar by simp
  have parse: "IpRange_TryParse aton (t @ ''/'' @ show_nat n) = Some ?r"
    using dash slash small assms(2,3) m nm mask_host_bits_append [of n ?m ?bs ?bs ?z]
      from_chars_show_nat [of n "2 ^ 32 - 1" "[]"]
    by (simp add: IpRange_TryParse_def Let_def address_width_def mult.commute)
  have F: "Bytes (m_first ?r) = lo" "Bytes (m_last ?r) = hi" "ip_family (m_first ?r) = ip_family addr"
    using FromBytes_value [of lo "ip_family addr"] FromBytes_value [of hi "ip_family addr"] v len
    by simp_all
  have "Contains ?r a \<longleftrightarrow> ip_family a = ip_family addr \<and>
      bytes_value lo \<le> address_value a \<and> address_value a \<le> bytes_value hi"
    using F v len length_Bytes [OF assms(4)]
    by (auto simp: Contains_def Less_value address_value_def Less_def lex_less_value not_less)
  also have "\<dots> \<longleftrightarrow> ip_family a = ip_family addr \<and>
      address_value a div 2 ^ ?m = address_value addr div 2 ^ ?m"
    unfolding v address_value_def [of addr] using between_block_iff [of "bytes_value ?bs" ?m] by simp
  finally show ?thesis using parse by blast
qed

text \<open>The hypotheses hold for 100.64.1.2/10 with a parser that reads no IPv6 text at all.\<close>

theorem IpRange_cidr_witness:
  "\<exists>r. IpRange_TryParse (\<lambda>_. None) (''100.64.1.2'' @ ''/'' @ show_nat 10) = Some r \<and>
     Contains r (Ip_of_v4 (FromOctets 100 100 1 1))"
proof -
  let ?a = "Ip_of_v4 (FromOctets 100 64 1 2)" and ?b = "Ip_of_v4 (FromOctets 100 100 1 1)"
  have "Ipv4_TryParse ''100.64.1.2'' = Some (FromOctets 100 64 1 2)"
    using Ipv4_TryParse_ToString [of "FromOctets 100 64 1 2"]
    by (simp add: Ipv4_ToString_def FromOctets_def Octets_def show_nat.simps)
  then have p: "Ip_TryParse (\<lambda>_. None) ''100.64.1.2'' = Some ?a" by (simp add: Ip_TryParse_def)
  have w: "address_width ?a = 32" and f: "ip_family ?a = Ipv4" "ip_family ?b = Ipv4" and k: "ip_ok ?b"
    by (simp_all add: address_width_def Bytes_def Ip_of_v4_def Octets_def ip_ok_def)
  have "address_value ?b div 2 ^ (32 - 10) = address_value ?a div 2 ^ (32 - 10)"
    by (simp add: address_value_def Bytes_def Ip_of_v4_def Octets_def FromOctets_def)
  then show ?thesis
    using IpRange_cidr [OF _ p _ k, of 10, unfolded w f] by (simp add: aton_ok_def)
qed

end
