(* ===== verification/Net_Packet.thy ===== *)
theory Net_Packet
  imports Net_Address
begin

text \<open>
  Packets: \<^verbatim>\<open>src/core/net/packet/Ipv4.cpp\<close>, \<^verbatim>\<open>Ip.cpp\<close> and \<^verbatim>\<open>Tsmp.cpp\<close>.  Every function that indexes an
  untrusted packet reads through the checked accessors of the prelude, so that \<open>Inl Fault\<close> would be
  an out-of-bounds read of the C++.
\<close>

section \<open>Ipv4.cpp\<close>

text \<open>One addition of the checksum loop with its carry fold.\<close>

definition fold_carry :: "u32 \<Rightarrow> u32" where
  "fold_carry acc = (acc AND 0xffff) + drop_bit 16 acc"

fun checksum_loop :: "byte list \<Rightarrow> u32 \<Rightarrow> u32" where
  "checksum_loop [] acc = acc"
| "checksum_loop [a] acc = fold_carry (acc + ucast (be16 a 0))"
| "checksum_loop (a # b # rest) acc = checksum_loop rest (fold_carry (acc + ucast (be16 a b)))"

definition InternetChecksum :: "byte list \<Rightarrow> u16" where
  "InternetChecksum data = ucast (NOT (checksum_loop data 0))"

text \<open>A shift by more than 31 bits is undefined: a prefix length above 32 faults.\<close>

definition PrefixMask :: "byte \<Rightarrow> ('e, u32) res" where
  "PrefixMask prefixLength =
     (if prefixLength = 0 then Inr 0
      else if unat prefixLength \<le> 32 then Inr (push_bit (32 - unat prefixLength) 0xffffffff)
      else Inl Fault)"

record ipv4_prefix =
  pf_network :: u32
  pf_length :: byte

definition Ipv4Prefix_Parse :: "string \<Rightarrow> ('e, ipv4_prefix option) res" where
  "Ipv4Prefix_Parse text =
     (let slash = find_char text CHR ''/'' 0 in
      case Ipv4_TryParse (case slash of None \<Rightarrow> text | Some i \<Rightarrow> take i text) of
        None \<Rightarrow> Inr None
      | Some address \<Rightarrow>
          let len =
            (case slash of
               None \<Rightarrow> Some 32
             | Some i \<Rightarrow>
                 let lengthText = drop (i + 1) text in
                 case from_chars_unsigned (2 ^ 32 - 1) lengthText of
                   None \<Rightarrow> None
                 | Some (v, n) \<Rightarrow> if n \<noteq> length lengthText then None else Some v)
          in case len of
               None \<Rightarrow> Inr None
             | Some v \<Rightarrow>
                 if v > 32 then Inr None
                 else bindE (PrefixMask (word_of_nat v)) (\<lambda>mask.
                   Inr (Some \<lparr>pf_network = address AND mask, pf_length = word_of_nat v\<rparr>)))"

definition Ipv4Prefix_Contains :: "ipv4_prefix \<Rightarrow> u32 \<Rightarrow> ('e, bool) res" where
  "Ipv4Prefix_Contains p address =
     bindE (PrefixMask (pf_length p)) (\<lambda>mask. Inr (address AND mask = pf_network p))"

definition is_ipv4 :: "byte list \<Rightarrow> ('e, bool) res" where
  "is_ipv4 packet =
     (if length packet < 20 then Inr False
      else bindE (at packet 0) (\<lambda>b. Inr (drop_bit 4 b = 4)))"

definition Ipv4Packet_Destination :: "byte list \<Rightarrow> ('e, u32 option) res" where
  "Ipv4Packet_Destination packet =
     bindE (is_ipv4 packet) (\<lambda>ok.
       if ok then bindE (Read32 packet 16) (\<lambda>v. Inr (Some v)) else Inr None)"

definition Ipv4Packet_Source :: "byte list \<Rightarrow> ('e, u32 option) res" where
  "Ipv4Packet_Source packet =
     bindE (is_ipv4 packet) (\<lambda>ok.
       if ok then bindE (Read32 packet 12) (\<lambda>v. Inr (Some v)) else Inr None)"

definition Ipv4Packet_Protocol :: "byte list \<Rightarrow> ('e, byte) res" where
  "Ipv4Packet_Protocol packet =
     bindE (is_ipv4 packet) (\<lambda>ok. if ok then at packet 9 else Inr 0)"

text \<open>Writing several bytes from an offset on, as the element assignments and copies do.\<close>

fun put_all :: "byte list \<Rightarrow> nat \<Rightarrow> byte list \<Rightarrow> ('e, byte list) res" where
  "put_all packet i [] = Inr packet"
| "put_all packet i (b # bs) = bindE (put packet i b) (\<lambda>p. put_all p (i + 1) bs)"

definition WriteIpv4Header :: "byte list \<Rightarrow> u32 \<Rightarrow> u32 \<Rightarrow> byte \<Rightarrow> ('e, byte list) res" where
  "WriteIpv4Header packet source destination protocol =
     bindE (put packet 0 0x45) (\<lambda>p.
     bindE (put p 2 (word_of_nat (length packet div 256))) (\<lambda>p.
     bindE (put p 3 (word_of_nat (length packet))) (\<lambda>p.
     bindE (put p 8 64) (\<lambda>p.
     bindE (put p 9 protocol) (\<lambda>p.
     bindE (put_all p 12 (Append32 source)) (\<lambda>p.
     bindE (put_all p 16 (Append32 destination)) (\<lambda>p.
     bindE (slice p 0 20) (\<lambda>header.
       let ipChecksum = InternetChecksum header in
       put_all p 10 (Append16 ipChecksum)))))))))"

definition Ipv4Packet_Build :: "u32 \<Rightarrow> u32 \<Rightarrow> byte \<Rightarrow> byte list \<Rightarrow> ('e, byte list) res" where
  "Ipv4Packet_Build source destination protocol payload =
     bindE (WriteIpv4Header (replicate (20 + length payload) 0) source destination protocol) (\<lambda>p.
       put_all p 20 payload)"

definition Ipv4UdpDatagram_Build ::
    "u32 \<Rightarrow> u32 \<Rightarrow> u16 \<Rightarrow> u16 \<Rightarrow> byte list \<Rightarrow> ('e, byte list) res" where
  "Ipv4UdpDatagram_Build source destination sourcePort destinationPort payload =
     (let udpLength = 8 + length payload in
      bindE (WriteIpv4Header (replicate (20 + udpLength) 0) source destination 17) (\<lambda>p.
      bindE (put_all p 20 (Append16 sourcePort)) (\<lambda>p.
      bindE (put_all p 22 (Append16 destinationPort)) (\<lambda>p.
      bindE (put p 24 (word_of_nat (udpLength div 256))) (\<lambda>p.
      bindE (put p 25 (word_of_nat udpLength)) (\<lambda>p.
        put_all p 28 payload))))))"

record udp_datagram =
  ud_source :: u32
  ud_destination :: u32
  ud_sourcePort :: u16
  ud_destinationPort :: u16
  ud_payload :: "byte list"

definition Ipv4UdpDatagram_Parse :: "byte list \<Rightarrow> ('e, udp_datagram option) res" where
  "Ipv4UdpDatagram_Parse packet =
     bindE (is_ipv4 packet) (\<lambda>ok. if \<not> ok then Inr None else
     bindE (at packet 9) (\<lambda>protocol. if protocol \<noteq> 17 then Inr None else
     bindE (at packet 0) (\<lambda>b0.
       let ipv4HeaderSize = unat (b0 AND 0x0f) * 4 in
       if ipv4HeaderSize < 20 \<or> length packet < ipv4HeaderSize + 8 then Inr None
       else bindE (Read16 packet (ipv4HeaderSize + 4)) (\<lambda>len.
         let udpLength = unat len in
         if udpLength < 8 \<or> ipv4HeaderSize + udpLength > length packet then Inr None
         else
           bindE (slice packet (ipv4HeaderSize + 8) (udpLength - 8)) (\<lambda>payload.
           bindE (Ipv4Packet_Source packet) (\<lambda>source. case source of None \<Rightarrow> Inl Fault | Some s \<Rightarrow>
           bindE (Ipv4Packet_Destination packet) (\<lambda>destination. case destination of None \<Rightarrow> Inl Fault | Some d \<Rightarrow>
           bindE (Read16 packet ipv4HeaderSize) (\<lambda>sp.
           bindE (Read16 packet (ipv4HeaderSize + 2)) (\<lambda>dp.
             Inr (Some \<lparr>ud_source = s, ud_destination = d, ud_sourcePort = sp,
               ud_destinationPort = dp, ud_payload = payload\<rparr>))))))))))"

definition Ipv4UdpDatagram_ExtractPayload ::
    "byte list \<Rightarrow> u32 \<Rightarrow> u32 \<Rightarrow> u16 \<Rightarrow> u16 \<Rightarrow> ('e, byte list option) res" where
  "Ipv4UdpDatagram_ExtractPayload packet source destination sourcePort destinationPort =
     (if length packet < 28 then Inr None else
      bindE (at packet 9) (\<lambda>protocol. if protocol \<noteq> 17 then Inr None else
      bindE (Read16 packet 24) (\<lambda>len.
      bindE (Read32 packet 12) (\<lambda>s.
      bindE (Read32 packet 16) (\<lambda>d.
      bindE (Read16 packet 20) (\<lambda>sp.
      bindE (Read16 packet 22) (\<lambda>dp.
        if s \<noteq> source \<or> d \<noteq> destination \<or> sp \<noteq> sourcePort \<or> dp \<noteq> destinationPort \<or>
           unat len < 8 \<or> 20 + unat len > length packet
        then Inr None
        else bindE (slice packet 28 (unat len - 8)) (\<lambda>payload. Inr (Some payload)))))))))"

section \<open>Ip.cpp\<close>

record ip_envelope =
  ie_Source :: ip_address
  ie_Destination :: ip_address
  ie_Protocol :: byte
  ie_PayloadOffset :: nat
  ie_Fragmented :: bool
  ie_FirstFragment :: bool
  ie_FragmentProtocol :: "byte option"

definition empty_envelope :: ip_envelope where
  "empty_envelope =
     \<lparr>ie_Source = Ip_of_v4 0, ie_Destination = Ip_of_v4 0, ie_Protocol = 0, ie_PayloadOffset = 0,
      ie_Fragmented = False, ie_FirstFragment = True, ie_FragmentProtocol = None\<rparr>"

definition ReadAddress :: "byte list \<Rightarrow> ip_address" where
  "ReadAddress bytes =
     (if length bytes = 4
      then Ip_of_v4 (FromOctets (bytes ! 0) (bytes ! 1) (bytes ! 2) (bytes ! 3))
      else FromIpv6 (bytes @ replicate (16 - length bytes) 0))"

definition is_extension :: "byte \<Rightarrow> bool" where
  "is_extension p \<longleftrightarrow> p = 0 \<or> p = 43 \<or> p = 44 \<or> p = 60"

text \<open>The loop over IPv6 extension headers, with \<open>extensions\<close> counting the ones already skipped.\<close>

function ipv6_extensions :: "byte list \<Rightarrow> nat \<Rightarrow> ip_envelope \<Rightarrow> ('e, ip_envelope option) res" where
  "ipv6_extensions packet extensions result =
     (if is_extension (ie_Protocol result) then
        if extensions + 1 > 16 \<or> length packet - ie_PayloadOffset result < 8 then Inr None
        else
          let offset = ie_PayloadOffset result; fragment = (ie_Protocol result = 44) in
          bindE (if fragment then Inr 8
                 else bindE (at packet (offset + 1)) (\<lambda>b. Inr ((unat b + 1) * 8))) (\<lambda>len.
            if len > length packet - offset then Inr None
            else bindE (at packet offset) (\<lambda>next.
              let result = result\<lparr>ie_Protocol := next, ie_PayloadOffset := offset + len\<rparr> in
              if fragment then
                bindE (Read16 packet (offset + 2)) (\<lambda>flags.
                  let result = result\<lparr>ie_FragmentProtocol := Some next,
                        ie_FirstFragment := (flags AND 0xfff8 = 0),
                        ie_Fragmented := (flags AND 0xfff9 \<noteq> 0)\<rparr>
                  in if \<not> ie_FirstFragment result then Inr (Some result)
                     else ipv6_extensions packet (extensions + 1) result)
              else ipv6_extensions packet (extensions + 1) result))
      else Inr (Some result))"
  by pat_completeness auto
termination
  by (relation "measure (\<lambda>(packet, extensions, result). 16 - extensions)") auto

declare ipv6_extensions.simps [simp del]

definition ParseIpEnvelope :: "byte list \<Rightarrow> ('e, ip_envelope option) res" where
  "ParseIpEnvelope packet =
     (if packet = [] then Inr None else
      bindE (at packet 0) (\<lambda>b0.
        if drop_bit 4 b0 = 4 then
          if length packet < 20 then Inr None
          else
            let offset = unat (b0 AND 15) * 4 in
            if offset < 20 \<or> offset > length packet then Inr None else
            bindE (Read16 packet 2) (\<lambda>total. if unat total \<noteq> length packet then Inr None else
            bindE (slice packet 12 4) (\<lambda>source.
            bindE (slice packet 16 4) (\<lambda>destination.
            bindE (at packet 9) (\<lambda>protocol.
            bindE (Read16 packet 6) (\<lambda>flags.
              Inr (Some (empty_envelope\<lparr>ie_PayloadOffset := offset, ie_Source := ReadAddress source,
                ie_Destination := ReadAddress destination, ie_Protocol := protocol,
                ie_FirstFragment := (flags AND 0x1fff = 0),
                ie_Fragmented := (flags AND 0x3fff \<noteq> 0)\<rparr>)))))))
        else if drop_bit 4 b0 \<noteq> 6 \<or> length packet < 40 then Inr None
        else bindE (Read16 packet 4) (\<lambda>total.
          if unat total + 40 \<noteq> length packet then Inr None else
          bindE (slice packet 8 16) (\<lambda>source.
          bindE (slice packet 24 16) (\<lambda>destination.
          bindE (at packet 6) (\<lambda>protocol.
            ipv6_extensions packet 0
              (empty_envelope\<lparr>ie_Source := ReadAddress source, ie_Destination := ReadAddress destination,
                 ie_Protocol := protocol, ie_PayloadOffset := 40\<rparr>)))))))"

section \<open>Tsmp.cpp\<close>

definition Tsmp_PayloadOffset :: "byte list \<Rightarrow> ('e, nat option) res" where
  "Tsmp_PayloadOffset packet =
     bindE (is_ipv4 packet) (\<lambda>v4.
     bindE (Ipv4Packet_Protocol packet) (\<lambda>protocol.
       if v4 \<and> protocol = 99 then
         bindE (at packet 6) (\<lambda>b6. bindE (at packet 7) (\<lambda>b7.
           if b6 AND 0x3f \<noteq> 0 \<or> b7 \<noteq> 0 then Inr None
           else bindE (at packet 0) (\<lambda>b0.
             let headerSize = unat (b0 AND 0x0f) * 4 in
             Inr (if headerSize \<ge> 20 \<and> headerSize \<le> length packet then Some headerSize else None))))
       else if length packet \<ge> 40 then
         bindE (at packet 0) (\<lambda>b0. bindE (at packet 6) (\<lambda>b6.
           Inr (if drop_bit 4 b0 = 6 \<and> b6 = 99 then Some 40 else None)))
       else Inr None))"

definition BuildIpv6Response :: "byte list \<Rightarrow> byte list \<Rightarrow> ('e, byte list) res" where
  "BuildIpv6Response request payload =
     bindE (put (replicate (40 + length payload) 0) 0 0x60) (\<lambda>p.
     bindE (put p 4 (word_of_nat (length payload div 256))) (\<lambda>p.
     bindE (put p 5 (word_of_nat (length payload))) (\<lambda>p.
     bindE (put p 6 99) (\<lambda>p.
     bindE (put p 7 64) (\<lambda>p.
     bindE (slice request 24 16) (\<lambda>destination. bindE (put_all p 8 destination) (\<lambda>p.
     bindE (slice request 8 16) (\<lambda>source. bindE (put_all p 24 source) (\<lambda>p.
       put_all p 40 payload)))))))))"

definition BuildPing :: "u32 \<Rightarrow> u32 \<Rightarrow> byte list \<Rightarrow> ('e, byte list) res" where
  "BuildPing source destination token =
     Ipv4Packet_Build source destination 99 (byte_of_char CHR ''p'' # token)"

definition BuildPong :: "byte list \<Rightarrow> u16 \<Rightarrow> ('e, byte list option) res" where
  "BuildPong packet peerApiPort =
     bindE (Tsmp_PayloadOffset packet) (\<lambda>payloadOffset. case payloadOffset of None \<Rightarrow> Inr None | Some off \<Rightarrow>
       if length packet < off + 9 then Inr None else
       bindE (at packet off) (\<lambda>kind. if kind \<noteq> byte_of_char CHR ''p'' then Inr None else
       bindE (slice packet (off + 1) 8) (\<lambda>token.
         let payload = byte_of_char CHR ''o'' # token @ Append16 peerApiPort in
         bindE (at packet 0) (\<lambda>b0.
           if drop_bit 4 b0 = 4 then
             bindE (Ipv4Packet_Source packet) (\<lambda>source.
             bindE (Ipv4Packet_Destination packet) (\<lambda>destination.
               case (source, destination) of
                 (Some s, Some d) \<Rightarrow> bindE (Ipv4Packet_Build d s 99 payload) (\<lambda>p. Inr (Some p))
               | _ \<Rightarrow> Inr None))
           else bindE (BuildIpv6Response packet payload) (\<lambda>p. Inr (Some p))))))"

record tsmp_pong =
  tp_token :: "byte list"
  tp_peerApiPort :: u16

definition ParsePong :: "byte list \<Rightarrow> ('e, tsmp_pong option) res" where
  "ParsePong packet =
     bindE (Tsmp_PayloadOffset packet) (\<lambda>payloadOffset. case payloadOffset of None \<Rightarrow> Inr None | Some off \<Rightarrow>
       if length packet < off + 9 then Inr None else
       bindE (at packet off) (\<lambda>kind. if kind \<noteq> byte_of_char CHR ''o'' then Inr None else
       bindE (slice packet (off + 1) 8) (\<lambda>token.
       bindE (if length packet \<ge> off + 11 then Read16 packet (off + 9) else Inr 0) (\<lambda>port.
         Inr (Some \<lparr>tp_token = token, tp_peerApiPort = port\<rparr>)))))"

section \<open>Writing headers\<close>

lemma put_all_in:
  "i + length bs \<le> length p \<Longrightarrow> put_all p i bs = Inr (take i p @ bs @ drop (i + length bs) p)"
proof (induction bs arbitrary: p i)
  case (Cons b bs)
  then show ?case
    by (simp add: upd_conv_take_nth_drop take_Suc_conv_app_nth drop_Suc add.commute)
qed simp

text \<open>The 20 bytes \<open>WriteIpv4Header\<close> leaves in front of a zeroed packet, checksum field still zero.\<close>

definition ipv4_header0 :: "nat \<Rightarrow> u32 \<Rightarrow> u32 \<Rightarrow> byte \<Rightarrow> byte list \<Rightarrow> byte list" where
  "ipv4_header0 n source destination protocol checksum =
     [0x45, 0, word_of_nat (n div 256), word_of_nat n, 0, 0, 0, 0, 64, protocol] @ checksum @
     Append32 source @ Append32 destination"

definition ipv4_header :: "nat \<Rightarrow> u32 \<Rightarrow> u32 \<Rightarrow> byte \<Rightarrow> byte list" where
  "ipv4_header n source destination protocol =
     ipv4_header0 n source destination protocol
       (Append16 (InternetChecksum (ipv4_header0 n source destination protocol [0, 0])))"

lemma length_ipv4_header [simp]:
  "length cs = 2 \<Longrightarrow> length (ipv4_header0 n s d p cs) = 20" "length (ipv4_header n s d p) = 20"
  by (simp_all add: ipv4_header0_def ipv4_header_def)

lemma list_update_numeral [simp]: "(x # xs)[numeral k := v] = x # xs[pred_numeral k := v]"
  by (simp add: numeral_eq_Suc)

lemma WriteIpv4Header_zero:
  "WriteIpv4Header (replicate (20 + n) 0) s d p = Inr (ipv4_header (20 + n) s d p @ replicate n 0)"
proof -
  have z: "replicate (20 + n) (0 :: byte) =
      [0, 0, 0, 0, 0, 0, 0, 0, 0, 0, 0, 0, 0, 0, 0, 0, 0, 0, 0, 0] @ replicate n 0"
    by (simp add: replicate_add numeral_eq_Suc)
  show ?thesis
    unfolding WriteIpv4Header_def ipv4_header_def z
    by (simp add: put_all_in ipv4_header0_def Let_def)
qed

section \<open>The Internet checksum\<close>

text \<open>The plain sum of the 16-bit words, which the loop computes in ones' complement.\<close>

fun word_sum :: "byte list \<Rightarrow> nat" where
  "word_sum [] = 0"
| "word_sum [a] = unat (be16 a 0)"
| "word_sum (a # b # rest) = unat (be16 a b) + word_sum rest"

lemma unat_fold_carry:
  "unat (fold_carry x) = unat x mod 65536 + unat x div 65536"
proof -
  have a: "unat (x AND 0xffff) = unat x mod 65536"
  proof -
    have "x AND 0xffff = take_bit 16 x" by (simp add: take_bit_eq_mask mask_eq_exp_minus_1)
    then have "unat (x AND 0xffff) = take_bit 16 (unat x)" by (simp only: unsigned_take_bit_eq)
    then show ?thesis by (simp add: take_bit_eq_mod)
  qed
  have b: "unat (drop_bit 16 x) = unat x div 65536"
    unfolding unat_drop_bit_eq by (simp add: drop_bit_eq_div)
  have "unat x div 65536 < 65536"
    using unsigned_less [of x, where 'a = nat] by (simp add: div_less_iff_less_mult)
  then have "unat x mod 65536 + unat x div 65536 < 2 ^ LENGTH(32)"
    using mod_less_divisor [of 65536 "unat x"] by simp
  then show ?thesis by (simp add: fold_carry_def unat_word_ariths a b)
qed

lemma fold_carry_step:
  assumes "unat acc \<le> 65535" and t_def: "t = unat acc + unat (w :: u16)"
  shows "unat (fold_carry (acc + ucast w)) \<le> 65535"
    and "unat (fold_carry (acc + ucast w)) mod 65535 = t mod 65535"
    and "unat (fold_carry (acc + ucast w)) = 0 \<longleftrightarrow> t = 0"
proof -
  have t: "t \<le> 131070" using assms(1) unat_le(2) [of w] unfolding t_def by linarith
  then have "unat (acc + ucast w) = t"
    by (simp add: unat_word_ariths t_def unsigned_ucast_eq take_bit_eq_mod)
  then have eq: "unat (fold_carry (acc + ucast w)) = t mod 65536 + t div 65536"
    by (simp add: unat_fold_carry)
  define q r where "q = t div 65536" and "r = t mod 65536"
  then have qr: "t = 65536 * q + r" "r < 65536" by simp_all
  then have q: "q \<le> 1" using t by linarith
  show "unat (fold_carry (acc + ucast w)) \<le> 65535"
    using t qr q unfolding eq q_def [symmetric] r_def [symmetric] by linarith
  show "unat (fold_carry (acc + ucast w)) = 0 \<longleftrightarrow> t = 0"
    using qr unfolding eq q_def [symmetric] r_def [symmetric] by linarith
  have "t = 65535 * q + (r + q)" using qr by linarith
  then have "t mod 65535 = (r + q) mod 65535" by (simp only: mod_mult_self4)
  then show "unat (fold_carry (acc + ucast w)) mod 65535 = t mod 65535"
    unfolding eq q_def [symmetric] r_def [symmetric] by simp
qed

lemma checksum_loop_sum:
  "unat acc \<le> 65535 \<Longrightarrow>
     unat (checksum_loop xs acc) \<le> 65535 \<and>
     unat (checksum_loop xs acc) mod 65535 = (unat acc + word_sum xs) mod 65535 \<and>
     (unat (checksum_loop xs acc) = 0 \<longleftrightarrow> unat acc + word_sum xs = 0)"
proof (induction xs acc rule: checksum_loop.induct)
  case (2 a acc)
  show ?case
    unfolding checksum_loop.simps word_sum.simps using fold_carry_step [OF 2 refl, of "be16 a 0"] by blast
next
  case (3 a b rest acc)
  define acc' where "acc' = fold_carry (acc + ucast (be16 a b))"
  note f = fold_carry_step [OF 3(2) refl, of "be16 a b", folded acc'_def]
  note IH = 3(1) [folded acc'_def, OF f(1)]
  have "(unat acc' + word_sum rest) mod 65535 = (unat acc + unat (be16 a b) + word_sum rest) mod 65535"
    by (rule mod_add_cong [OF f(2) refl])
  then show ?case
    unfolding checksum_loop.simps word_sum.simps acc'_def [symmetric]
    using IH f(3) by (simp only: add.assoc add_eq_0_iff_both_eq_0) blast
qed simp

lemma unat_NOT_low: "unat (x :: u32) \<le> 65535 \<Longrightarrow> unat (ucast (NOT x) :: u16) = 65535 - unat x"
proof -
  assume x: "unat x \<le> 65535"
  have "ucast (NOT x) = NOT (ucast x :: u16)"
    by (rule bit_word_eqI) (simp add: bit_simps)
  also have "\<dots> = - 1 - ucast x" by (simp add: not_eq_complement)
  finally have "unat (ucast (NOT x) :: u16) = unat (- 1 :: u16) - unat (ucast x :: u16)"
    by (simp add: unat_sub)
  moreover have "unat (ucast x :: u16) = unat x"
    using x by (simp add: unsigned_ucast_eq take_bit_eq_mod)
  ultimately show ?thesis by (simp add: unsigned_minus_1_eq_mask mask_eq_exp_minus_1)
qed

lemma unat_InternetChecksum: "unat (InternetChecksum xs) = 65535 - unat (checksum_loop xs 0)"
  using checksum_loop_sum [of 0 xs] by (simp add: InternetChecksum_def unat_NOT_low)

lemma word_sum_append: "even (length xs) \<Longrightarrow> word_sum (xs @ ys) = word_sum xs + word_sum ys"
  by (induction xs rule: word_sum.induct) auto

lemma word_sum_Append16: "word_sum (Append16 v @ ys) = unat v + word_sum ys"
  by (simp add: Append16_def)

text \<open>Storing the checksum of a message with a zero checksum field makes the whole sum to zero.\<close>

lemma checksum_verifies:
  assumes "even (length pre)" and "word_sum (pre @ [0, 0] @ post) \<noteq> 0"
  shows "InternetChecksum (pre @ Append16 (InternetChecksum (pre @ [0, 0] @ post)) @ post) = 0"
proof -
  let ?S = "word_sum (pre @ [0, 0] @ post)" and ?r = "unat (checksum_loop (pre @ [0, 0] @ post) 0)"
  let ?m = "pre @ Append16 (InternetChecksum (pre @ [0, 0] @ post)) @ post"
  let ?t = "unat (checksum_loop ?m 0)"
  have r: "?r \<le> 65535" "?r mod 65535 = ?S mod 65535" using checksum_loop_sum [of 0] by auto
  have "word_sum ?m = ?S + (65535 - ?r)"
    using assms(1) by (simp add: word_sum_append word_sum_Append16 unat_InternetChecksum be16_def)
  moreover from this have "word_sum ?m mod 65535 = (?r + (65535 - ?r)) mod 65535"
    using mod_add_cong [OF r(2) refl, of "65535 - ?r"] by (simp only:)
  then have "word_sum ?m mod 65535 = 0" using r(1) by (simp only: le_add_diff_inverse mod_self)
  ultimately have "?t mod 65535 = 0" "?t \<noteq> 0" "?t \<le> 65535"
    using checksum_loop_sum [of 0 ?m] assms(2) by auto
  then have "?t = 65535" by (metis le_neq_implies_less mod_less)
  then have "unat (InternetChecksum ?m) = 0" by (simp add: unat_InternetChecksum)
  then show ?thesis by (simp add: unsigned_eq_0_iff)
qed

section \<open>Built packets\<close>

lemma ipv4_header_cells:
  "\<exists>c0 c1. ipv4_header n s d p =
     [0x45, 0, word_of_nat (n div 256), word_of_nat n, 0, 0, 0, 0, 64, p, c0, c1] @ Append32 s @ Append32 d"
  by (simp add: ipv4_header_def ipv4_header0_def Append16_def)

lemma ipv4_header_checksum: "InternetChecksum (ipv4_header n s d p) = 0"
proof -
  let ?pre = "[0x45, 0, word_of_nat (n div 256), word_of_nat n, 0, 0, 0, 0, 64, p] :: byte list"
  have "word_sum (?pre @ [0, 0] @ Append32 s @ Append32 d) \<noteq> 0"
    by (simp add: unat_be16)
  from checksum_verifies [OF _ this] show ?thesis by (simp add: ipv4_header_def ipv4_header0_def)
qed

lemma Ipv4Packet_Build_eq:
  "Ipv4Packet_Build s d p payload = Inr (ipv4_header (20 + length payload) s d p @ payload)"
  by (simp add: Ipv4Packet_Build_def WriteIpv4Header_zero put_all_in)

lemma Ipv4UdpDatagram_Build_eq:
  "Ipv4UdpDatagram_Build s d sp dp payload =
     Inr (ipv4_header (28 + length payload) s d 17 @ Append16 sp @ Append16 dp @
       [word_of_nat ((8 + length payload) div 256), word_of_nat (8 + length payload), 0, 0] @ payload)"
proof -
  obtain c0 c1 where h: "ipv4_header (28 + length payload) s d 17 =
      [0x45, 0, word_of_nat ((28 + length payload) div 256), word_of_nat (28 + length payload),
       0, 0, 0, 0, 64, 17, c0, c1] @ Append32 s @ Append32 d"
    using ipv4_header_cells by blast
  have zeros: "replicate (8 + n) (0 :: byte) = [0, 0, 0, 0, 0, 0, 0, 0] @ replicate n 0" for n
    by (simp add: replicate_add numeral_eq_Suc)
  show ?thesis
    unfolding Ipv4UdpDatagram_Build_def Let_def WriteIpv4Header_zero
    by (simp add: h zeros Append16_def Append32_def put_all_in)
qed

lemma nibble_45 [simp]: "drop_bit 4 (0x45 :: byte) = 4" "unat ((0x45 :: byte) AND 0x0f) = 5"
  by (simp_all add: drop_bit_eq_div)

lemma be16_of_nat: "n < 65536 \<Longrightarrow> unat (be16 (word_of_nat (n div 256)) (word_of_nat n)) = n"
proof -
  assume "n < 65536"
  then have "n div 256 < 256" by (simp add: div_less_iff_less_mult)
  then show ?thesis by (simp add: unat_be16 unat_of_nat)
qed

lemma udp_build_parse:
  assumes "8 + length payload < 65536"
  shows "\<exists>packet. Ipv4UdpDatagram_Build s d sp dp payload = Inr packet \<and>
    InternetChecksum (take 20 packet) = 0 \<and>
    Ipv4UdpDatagram_Parse packet =
      Inr (Some \<lparr>ud_source = s, ud_destination = d, ud_sourcePort = sp, ud_destinationPort = dp,
                 ud_payload = payload\<rparr>) \<and>
    Ipv4UdpDatagram_ExtractPayload packet s d sp dp = Inr (Some payload)"
proof -
  obtain c0 c1 where h: "ipv4_header (28 + length payload) s d 17 =
      [0x45, 0, word_of_nat ((28 + length payload) div 256), word_of_nat (28 + length payload),
       0, 0, 0, 0, 64, 17, c0, c1] @ Append32 s @ Append32 d"
    using ipv4_header_cells by blast
  note cells = h Append16_def Append32_def is_ipv4_def Ipv4Packet_Source_def Ipv4Packet_Destination_def
  let ?p = "ipv4_header (28 + length payload) s d 17 @ Append16 sp @ Append16 dp @
       [word_of_nat ((8 + length payload) div 256), word_of_nat (8 + length payload), 0, 0] @ payload"
  have "Ipv4UdpDatagram_Parse ?p =
      Inr (Some \<lparr>ud_source = s, ud_destination = d, ud_sourcePort = sp, ud_destinationPort = dp,
                 ud_payload = payload\<rparr>)"
    using be16_of_nat [OF assms] by (simp add: Ipv4UdpDatagram_Parse_def Let_def cells)
  moreover have "Ipv4UdpDatagram_ExtractPayload ?p s d sp dp = Inr (Some payload)"
    using be16_of_nat [OF assms] by (simp add: Ipv4UdpDatagram_ExtractPayload_def cells)
  moreover have "InternetChecksum (take 20 ?p) = 0" by (simp add: ipv4_header_checksum)
  ultimately show ?thesis using Ipv4UdpDatagram_Build_eq by blast
qed

text \<open>
  C30: a UDP datagram built by \<open>Ipv4UdpDatagram::Build\<close> carries an IPv4 header whose internet checksum
  verifies, and both \<open>Parse\<close> and \<open>ExtractPayload\<close> give back its addresses, ports and payload, as
  long as the UDP length field can hold the length.
\<close>

theorem udp_round_trip:
  assumes "8 + length payload < 65536"
  shows "\<exists>packet. Ipv4UdpDatagram_Build s d sp dp payload = Inr packet \<and>
    InternetChecksum (take 20 packet) = 0 \<and>
    Ipv4UdpDatagram_Parse packet =
      Inr (Some \<lparr>ud_source = s, ud_destination = d, ud_sourcePort = sp, ud_destinationPort = dp,
                 ud_payload = payload\<rparr>) \<and>
    Ipv4UdpDatagram_ExtractPayload packet s d sp dp = Inr (Some payload)"
  using udp_build_parse [OF assms] .

theorem udp_round_trip_witness:
  "\<exists>packet. Ipv4UdpDatagram_Build 0x0a000001 0x64646464 5353 53 [1, 2, 3] = Inr packet \<and>
    InternetChecksum (take 20 packet) = 0 \<and>
    Ipv4UdpDatagram_ExtractPayload packet 0x0a000001 0x64646464 5353 53 = Inr (Some [1, 2, 3])"
  using udp_round_trip [of "[1, 2, 3]" "0x0a000001" "0x64646464" 5353 53] by auto

text \<open>
  a TSMP ping built for an 8-byte token is answered by a pong that travels back to the
  pinging address, and parsing the pong gives the token and the peer API port.
\<close>

theorem tsmp_ping_pong:
  assumes "length token = 8"
  shows "\<exists>ping pong. BuildPing s d token = Inr ping \<and> BuildPong ping port = Inr (Some pong) \<and>
    Ipv4Packet_Source pong = Inr (Some d) \<and> Ipv4Packet_Destination pong = Inr (Some s) \<and>
    InternetChecksum (take 20 pong) = 0 \<and>
    ParsePong pong = Inr (Some \<lparr>tp_token = token, tp_peerApiPort = port\<rparr>) \<and>
    ParsePong ping = Inr None"
proof -
  obtain a0 a1 where h: "ipv4_header 29 s d 99 =
      [0x45, 0, 0, 29, 0, 0, 0, 0, 64, 99, a0, a1] @ Append32 s @ Append32 d"
    using ipv4_header_cells [of 29 s d 99] by auto
  obtain b0 b1 where k: "ipv4_header 31 d s 99 =
      [0x45, 0, 0, 31, 0, 0, 0, 0, 64, 99, b0, b1] @ Append32 d @ Append32 s"
    using ipv4_header_cells [of 31 d s 99] by auto
  note cells = Append16_def Append32_def is_ipv4_def Ipv4Packet_Source_def Ipv4Packet_Destination_def
    Ipv4Packet_Protocol_def Tsmp_PayloadOffset_def
  let ?ping = "ipv4_header 29 s d 99 @ byte_of_char CHR ''p'' # token"
    and ?pong = "ipv4_header 31 d s 99 @ byte_of_char CHR ''o'' # token @ Append16 port"
  have "BuildPing s d token = Inr ?ping"
    using assms by (simp add: BuildPing_def Ipv4Packet_Build_eq)
  moreover have "BuildPong ?ping port = Inr (Some ?pong)"
    using assms by (simp add: BuildPong_def h cells Ipv4Packet_Build_eq Let_def)
  moreover have "Ipv4Packet_Source ?pong = Inr (Some d)" "Ipv4Packet_Destination ?pong = Inr (Some s)"
    by (simp_all add: k cells)
  moreover have "InternetChecksum (take 20 ?pong) = 0" by (simp add: ipv4_header_checksum)
  moreover have "ParsePong ?pong = Inr (Some \<lparr>tp_token = token, tp_peerApiPort = port\<rparr>)"
    using assms by (simp add: ParsePong_def k cells nth_append)
  moreover have "ParsePong ?ping = Inr None"
    using assms by (simp add: ParsePong_def h cells byte_of_char_def)
  ultimately show ?thesis by blast
qed

theorem tsmp_ping_pong_witness:
  "\<exists>ping pong. BuildPing 1 2 [1, 2, 3, 4, 5, 6, 7, 8] = Inr ping \<and>
     BuildPong ping 443 = Inr (Some pong) \<and>
     ParsePong pong = Inr (Some \<lparr>tp_token = [1, 2, 3, 4, 5, 6, 7, 8], tp_peerApiPort = 443\<rparr>)"
  using tsmp_ping_pong [of "[1, 2, 3, 4, 5, 6, 7, 8]" 1 2 443] by auto

section \<open>Parsing untrusted packets\<close>

text \<open>What the parser promises of an accepted envelope.\<close>

definition envelope_ok :: "byte list \<Rightarrow> ip_envelope \<Rightarrow> bool" where
  "envelope_ok packet e \<longleftrightarrow>
     20 \<le> ie_PayloadOffset e \<and> ie_PayloadOffset e \<le> length packet \<and>
     (\<not> ie_FirstFragment e \<longrightarrow> ie_Fragmented e)"

lemma flags_imp: "x AND m = 0 \<Longrightarrow> m AND n = n \<Longrightarrow> x AND n = (0 :: u16)"
proof -
  assume x: "x AND m = 0" and n: "m AND n = n"
  have "x AND n = (x AND m) AND n" unfolding and.assoc n ..
  then show "x AND n = 0" unfolding x by simp
qed

definition extensions_ok :: "byte list \<Rightarrow> ip_envelope \<Rightarrow> (unit, ip_envelope option) res \<Rightarrow> bool" where
  "extensions_ok packet e m \<longleftrightarrow>
     (\<exists>r. m = Inr r \<and>
       (\<forall>e'. r = Some e' \<longrightarrow> envelope_ok packet e' \<and> ie_Source e' = ie_Source e \<and>
          ie_Destination e' = ie_Destination e \<and>
          (is_extension (ie_Protocol e') \<longrightarrow> \<not> ie_FirstFragment e')))"

lemma ipv6_extensions_total:
  "envelope_ok packet e \<Longrightarrow> extensions_ok packet e (ipv6_extensions packet k e)"
proof (induction "16 - k" arbitrary: k e rule: less_induct)
  case less
  let ?o = "ie_PayloadOffset e"
  note unf = ipv6_extensions.simps [of packet k e]
  consider (exit) "\<not> is_extension (ie_Protocol e)"
    | (short) "is_extension (ie_Protocol e)" "k + 1 > 16 \<or> length packet - ?o < 8"
    | (more) "is_extension (ie_Protocol e)" "k < 16" "?o + 8 \<le> length packet"
    by linarith
  then show ?case
  proof cases
    case exit
    then show ?thesis using less(2) by (subst unf) (auto simp: extensions_ok_def)
  next
    case short
    then show ?thesis by (subst unf) (auto simp: extensions_ok_def)
  next
    case more
    then have b: "\<not> length packet - ?o < 8" by linarith
    have IH: "extensions_ok packet e (ipv6_extensions packet (Suc k) e')"
      if "envelope_ok packet e'" "ie_Source e' = ie_Source e" "ie_Destination e' = ie_Destination e" for e'
      using less(1) [of "Suc k" e'] that more(2) by (simp add: extensions_ok_def)
    let ?flags = "be16 (packet ! (?o + 2)) (packet ! (?o + 2 + 1))" and ?len = "(unat (packet ! (?o + 1)) + 1) * 8"
    show ?thesis
    proof (cases "ie_Protocol e = 44")
      case True
      let ?e = "e\<lparr>ie_Protocol := packet ! ?o, ie_PayloadOffset := ?o + 8,
        ie_FragmentProtocol := Some (packet ! ?o), ie_FirstFragment := (?flags AND 0xfff8 = 0),
        ie_Fragmented := (?flags AND 0xfff9 \<noteq> 0)\<rparr>"
      have "?flags AND 0xfff9 = 0 \<Longrightarrow> ?flags AND 0xfff8 = 0" by (erule flags_imp) simp
      then have ok: "envelope_ok packet ?e" using less(2) more(3) unfolding envelope_ok_def by auto
      have eq: "ipv6_extensions packet k e =
          (if ?flags AND 0xfff8 = 0 then ipv6_extensions packet (Suc k) ?e else Inr (Some ?e))"
        using True more b by (subst unf) (simp add: Let_def)
      show ?thesis
      proof (cases "?flags AND 0xfff8 = 0")
        case True
        then show ?thesis using IH [OF ok] unfolding eq by simp
      next
        case False
        then show ?thesis using ok unfolding eq by (simp add: extensions_ok_def)
      qed
    next
      case False
      let ?e = "e\<lparr>ie_Protocol := packet ! ?o, ie_PayloadOffset := ?o + ?len\<rparr>"
      have eq: "ipv6_extensions packet k e =
          (if ?len > length packet - ?o then Inr None else ipv6_extensions packet (Suc k) ?e)"
        using False more b by (subst unf) (simp add: Let_def)
      show ?thesis
      proof (cases "?len > length packet - ?o")
        case True
        then show ?thesis unfolding eq by (simp add: extensions_ok_def)
      next
        case False
        then have "envelope_ok packet ?e" using less(2) more(3) unfolding envelope_ok_def by auto
        then show ?thesis using IH [of ?e] False unfolding eq by simp
      qed
    qed
  qed
qed

lemma safe_is_ipv4 [simp]: "is_ipv4 packet = Inr (20 \<le> length packet \<and> drop_bit 4 (packet ! 0) = 4)"
  by (simp add: is_ipv4_def at_def)

lemma ParseIpEnvelope_ok:
  "\<exists>r. ParseIpEnvelope packet = (Inr r :: (unit, _) res) \<and> (\<forall>e. r = Some e \<longrightarrow> envelope_ok packet e)"
proof -
  consider (v4) "20 \<le> length packet" "drop_bit 4 (packet ! 0) = 4"
    | (short) "packet = [] \<or> drop_bit 4 (packet ! 0) = 4 \<and> length packet < 20 \<or>
        drop_bit 4 (packet ! 0) \<noteq> 4 \<and> (drop_bit 4 (packet ! 0) \<noteq> 6 \<or> length packet < 40)"
    | (v6) "40 \<le> length packet" "drop_bit 4 (packet ! 0) = 6"
    by fastforce
  then show ?thesis
  proof cases
    case v4
    have "be16 (packet ! 6) (packet ! 7) AND 0x3fff = 0 \<Longrightarrow> be16 (packet ! 6) (packet ! 7) AND 0x1fff = 0"
      by (erule flags_imp) simp
    with v4 show ?thesis
      by (auto simp: ParseIpEnvelope_def Let_def envelope_ok_def empty_envelope_def)
  next
    case short
    then show ?thesis by (auto simp: ParseIpEnvelope_def at_def)
  next
    case v6
    let ?e = "empty_envelope\<lparr>ie_Source := ReadAddress (take 16 (drop 8 packet)),
      ie_Destination := ReadAddress (take 16 (drop 24 packet)), ie_Protocol := packet ! 6, ie_PayloadOffset := 40\<rparr>"
    have "envelope_ok packet ?e" using v6 by (simp add: envelope_ok_def empty_envelope_def)
    from ipv6_extensions_total [OF this, of 0]
    show ?thesis using v6 by (auto simp: ParseIpEnvelope_def extensions_ok_def)
  qed
qed

text \<open>
  \<open>ParseIpEnvelope\<close> is total and memory safe on every byte sequence, and the payload offset of an
  accepted IPv4 or IPv6 packet, extension headers included, lies inside the packet.
\<close>

theorem ParseIpEnvelope_total:
  "case ParseIpEnvelope packet :: (unit, ip_envelope option) res of
     Inl _ \<Rightarrow> False | Inr None \<Rightarrow> True
   | Inr (Some e) \<Rightarrow> 20 \<le> ie_PayloadOffset e \<and> ie_PayloadOffset e \<le> length packet"
  using ParseIpEnvelope_ok [of packet] by (auto simp: envelope_ok_def split: option.split)

lemma Tsmp_PayloadOffset_ok:
  "\<exists>r. Tsmp_PayloadOffset packet = Inr r \<and>
     (\<forall>off. r = Some off \<longrightarrow> off \<le> length packet \<and> 20 \<le> length packet \<and>
        (drop_bit 4 (packet ! 0) \<noteq> 4 \<longrightarrow> 40 \<le> length packet))"
  by (cases "packet = []") (auto simp: Tsmp_PayloadOffset_def Ipv4Packet_Protocol_def Let_def)

lemma Ipv4UdpDatagram_Parse_total: "\<exists>r. Ipv4UdpDatagram_Parse packet = Inr r"
proof (cases "20 \<le> length packet \<and> drop_bit 4 (packet ! 0) = 4")
  case True
  then have "packet \<noteq> []" by auto
  then show ?thesis
    using True by (simp add: Ipv4UdpDatagram_Parse_def Let_def Ipv4Packet_Source_def Ipv4Packet_Destination_def)
qed (auto simp: Ipv4UdpDatagram_Parse_def)

lemma BuildPong_total: "\<exists>r. BuildPong packet port = (Inr r :: ('e, byte list option) res)"
proof -
  obtain r where r: "Tsmp_PayloadOffset packet = (Inr r :: ('e, nat option) res)" and
    b: "\<And>off. r = Some off \<Longrightarrow> off \<le> length packet \<and> 20 \<le> length packet \<and>
      (drop_bit 4 (packet ! 0) \<noteq> 4 \<longrightarrow> 40 \<le> length packet)"
    using Tsmp_PayloadOffset_ok [of packet] by blast
  show ?thesis
  proof (cases r)
    case (Some off)
    then have "packet \<noteq> []" using b [OF Some] by auto
    then show ?thesis
      using Some r b [OF Some]
      by (cases "drop_bit 4 (packet ! 0) = 4") (auto simp: BuildPong_def Let_def
        Ipv4Packet_Build_eq at_def slice_def Ipv4Packet_Source_def Ipv4Packet_Destination_def
        BuildIpv6Response_def put_all_in)
  qed (simp add: BuildPong_def r)
qed

lemma ParsePong_total: "\<exists>r. ParsePong packet = (Inr r :: ('e, tsmp_pong option) res)"
proof -
  obtain r where r: "Tsmp_PayloadOffset packet = (Inr r :: ('e, nat option) res)" using Tsmp_PayloadOffset_ok [of packet] by blast
  show ?thesis by (cases r) (auto simp: ParsePong_def r at_def slice_def)
qed

text \<open>
  C31: the datagram and TSMP parsers never read outside the packet and never throw, whatever bytes
  they are given.
\<close>

theorem packet_parsers_safe:
  "(\<exists>r. Ipv4UdpDatagram_Parse packet = (Inr r :: (unit, _) res)) \<and>
   (\<exists>r. Ipv4UdpDatagram_ExtractPayload packet s d sp dp = (Inr r :: (unit, _) res)) \<and>
   (\<exists>r. BuildPong packet port = (Inr r :: (unit, _) res)) \<and>
   (\<exists>r. ParsePong packet = (Inr r :: (unit, _) res))"
  using Ipv4UdpDatagram_Parse_total BuildPong_total ParsePong_total
  by (auto simp: Ipv4UdpDatagram_ExtractPayload_def)

section \<open>Prefixes\<close>

lemma PrefixMask_in:
  "n \<le> 32 \<Longrightarrow> PrefixMask (word_of_nat n) = Inr (NOT (mask (32 - n)))"
proof -
  assume n: "n \<le> 32"
  then have u: "unat (word_of_nat n :: byte) = n" by (simp add: unat_of_nat)
  show ?thesis
  proof (cases "n = 0")
    case True
    have "NOT (mask 32) = (0 :: u32)" by (rule bit_word_eqI) (simp add: bit_simps)
    then show ?thesis using True by (simp add: PrefixMask_def)
  next
    case False
    then have "(word_of_nat n :: byte) \<noteq> 0" using u by auto
    moreover have "(0xffffffff :: u32) = - 1" by simp
    ultimately show ?thesis using n u unfolding PrefixMask_def by (simp only: push_bit_minus_one) simp
  qed
qed

lemma prefix_eq_iff:
  fixes a x :: u32
  shows "x AND NOT (mask k) = a AND NOT (mask k) \<longleftrightarrow> unat x div 2 ^ k = unat a div 2 ^ k"
proof -
  have "x AND NOT (mask k) = a AND NOT (mask k) \<longleftrightarrow> drop_bit k x = drop_bit k a"
  proof
    have d: "drop_bit k (y AND NOT (mask k)) = drop_bit k y" for y :: u32
      by (rule bit_word_eqI) (auto simp: bit_simps dest: bit_imp_le_length)
    show "drop_bit k x = drop_bit k a" if "x AND NOT (mask k) = a AND NOT (mask k)"
      using arg_cong [OF that, of "drop_bit k"] unfolding d .
    have p: "push_bit k (drop_bit k y) = y AND NOT (mask k)" for y :: u32
      by (rule bit_word_eqI) (auto simp: bit_simps)
    show "x AND NOT (mask k) = a AND NOT (mask k)" if "drop_bit k x = drop_bit k a"
      using arg_cong [OF that, of "push_bit k"] unfolding p .
  qed
  also have "\<dots> \<longleftrightarrow> unat (drop_bit k x) = unat (drop_bit k a)"
    by (auto dest: unsigned_word_eqI)
  finally show ?thesis by (simp only: unat_drop_bit_eq) (simp only: drop_bit_eq_div)
qed

lemma show_nat_no_slash [simp]: "CHR ''/'' \<notin> set (show_nat n)"
  using show_nat_digits [of n] by (auto simp: list_all_iff is_digit_def)

lemma Ipv4_ToString_no_slash [simp]: "CHR ''/'' \<notin> set (Ipv4_ToString a)"
  by (simp add: Ipv4_ToString_def Let_def Octets_def)

text \<open>
  \<open>Ipv4Prefix::Parse\<close> accepts an address followed by a length exactly when the length is at most 32,
  and the prefix it gives contains exactly the addresses that agree with it in that many leading bits.
\<close>

theorem Ipv4Prefix_cidr:
  "case Ipv4Prefix_Parse (Ipv4_ToString a @ ''/'' @ show_nat n) :: (unit, ipv4_prefix option) res of
     Inl _ \<Rightarrow> False
   | Inr None \<Rightarrow> n > 32
   | Inr (Some p) \<Rightarrow> n \<le> 32 \<and> (\<forall>x. Ipv4Prefix_Contains p x =
       (Inr (unat x div 2 ^ (32 - n) = unat a div 2 ^ (32 - n)) :: (unit, bool) res))"
proof -
  have slash: "find_char (Ipv4_ToString a @ CHR ''/'' # show_nat n) CHR ''/'' 0 = Some (length (Ipv4_ToString a))"
    using find_char_append [of "CHR ''/''" "Ipv4_ToString a" "[]"] by simp
  have v: "from_chars_unsigned 4294967295 (show_nat n) =
      (if n > 4294967295 then None else Some (n, length (show_nat n)))"
    using from_chars_digits [OF show_nat_digits] by simp
  show ?thesis
    by (cases "n \<le> 32")
      (simp_all add: Ipv4Prefix_Parse_def slash v Let_def PrefixMask_in Ipv4Prefix_Contains_def prefix_eq_iff)
qed

end
