(* ===== verification/Wireguard_Replay.thy ===== *)
theory Wireguard_Replay
  imports Tailgate_Prelude
begin

text \<open>
  The anti-replay window of a WireGuard session: \<^verbatim>\<open>src/core/wgengine/wireguard/ReplayWindow.cpp\<close>.  The
  window is a ring of 8192 bits in 128 words of 64.  Counters are 64-bit words, so the loop that clears
  the bits skipped by an advance may wrap; it is a \<open>partial_function\<close>, and not returning is \<open>None\<close>.
\<close>

section \<open>ReplayWindow.cpp\<close>

record replay_window =
  m_bitmap :: "u64 list"
  m_highest :: u64
  m_initialized :: bool

definition position :: "u64 \<Rightarrow> nat" where
  "position counter = unat counter mod 8192"

definition IsSet :: "u64 list \<Rightarrow> u64 \<Rightarrow> bool" where
  "IsSet bitmap counter =
     (let b = position counter in (bitmap ! (b div 64)) AND push_bit (b mod 64) 1 \<noteq> 0)"

definition Set :: "u64 list \<Rightarrow> u64 \<Rightarrow> u64 list" where
  "Set bitmap counter =
     (let b = position counter
      in bitmap[b div 64 := (bitmap ! (b div 64)) OR push_bit (b mod 64) 1])"

definition Clear :: "u64 list \<Rightarrow> u64 \<Rightarrow> u64 list" where
  "Clear bitmap counter =
     (let b = position counter
      in bitmap[b div 64 := (bitmap ! (b div 64)) AND NOT (push_bit (b mod 64) 1)])"

text \<open>\<^verbatim>\<open>for (value = m_highest + 1; value <= counter; ++value) Clear(value);\<close>\<close>

partial_function (option) clear_loop :: "u64 \<Rightarrow> u64 \<Rightarrow> u64 list \<Rightarrow> u64 list option" where
  "clear_loop value counter bitmap =
     (if value \<le> counter then clear_loop (value + 1) counter (Clear bitmap value) else Some bitmap)"

definition Accept :: "replay_window \<Rightarrow> u64 \<Rightarrow> (replay_window \<times> bool) option" where
  "Accept w counter =
     (if \<not> m_initialized w then
        Some (\<lparr>m_bitmap = Set (m_bitmap w) counter, m_highest = counter, m_initialized = True\<rparr>, True)
      else if counter > m_highest w then
        (case (if counter - m_highest w \<ge> 8192 then Some (replicate 128 0)
               else clear_loop (m_highest w + 1) counter (m_bitmap w)) of
           None \<Rightarrow> None
         | Some bitmap \<Rightarrow> Some (w\<lparr>m_bitmap := Set bitmap counter, m_highest := counter\<rparr>, True))
      else if m_highest w - counter \<ge> 8192 \<or> IsSet (m_bitmap w) counter then Some (w, False)
      else Some (w\<lparr>m_bitmap := Set (m_bitmap w) counter\<rparr>, True))"

definition Reset :: "replay_window \<Rightarrow> replay_window" where
  "Reset w = \<lparr>m_bitmap = replicate 128 0, m_highest = 0, m_initialized = False\<rparr>"

section \<open>Tunnel.cpp: one window per session\<close>

text \<open>
  \<^verbatim>\<open>PeerReference::ReplayFor\<close> finds the window of a session, identified by its local index and start time,
  or opens one, dropping the oldest of three.  It returns the sessions and the position of the window.
\<close>

record session_replay =
  sr_LocalIndex :: u32
  sr_StartedAt :: u32
  sr_Window :: replay_window

definition session_key :: "session_replay \<Rightarrow> u32 \<times> u32" where
  "session_key s = (sr_LocalIndex s, sr_StartedAt s)"

definition new_session :: "u32 \<times> u32 \<Rightarrow> session_replay" where
  "new_session key =
     \<lparr>sr_LocalIndex = fst key, sr_StartedAt = snd key,
      sr_Window = \<lparr>m_bitmap = replicate 128 0, m_highest = 0, m_initialized = False\<rparr>\<rparr>"

definition ReplayFor :: "session_replay list \<Rightarrow> u32 \<times> u32 \<Rightarrow> session_replay list \<times> nat" where
  "ReplayFor sessions key =
     (case List.find (\<lambda>i. session_key (sessions ! i) = key) [0..<length sessions] of
        Some i \<Rightarrow> (sessions, i)
      | None \<Rightarrow>
          let kept = (if length sessions = 3 then tl sessions else sessions)
          in (kept @ [new_session key], length kept))"

text \<open>The replay check of \<^verbatim>\<open>Tunnel::Receive\<close>: the session's window accepts the authenticated counter.\<close>

fun session_accept ::
    "session_replay list \<Rightarrow> (u32 \<times> u32) \<times> u64 \<Rightarrow> (session_replay list \<times> bool) option" where
  "session_accept sessions (key, counter) =
     (case ReplayFor sessions key of (sessions', i) \<Rightarrow>
        map_option (\<lambda>(w, ok). (sessions'[i := (sessions' ! i)\<lparr>sr_Window := w\<rparr>], ok))
          (Accept (sr_Window (sessions' ! i)) counter))"

section \<open>What the window promises\<close>

text \<open>A counter is accepted when it was never accepted and lags the highest by less than the window.\<close>

definition spec_accept :: "u64 list \<Rightarrow> u64 \<Rightarrow> bool" where
  "spec_accept seen c \<longleftrightarrow> c \<notin> set seen \<and> (\<forall>m\<in>set seen. unat m < unat c + 8192)"

definition spec_step :: "u64 list \<Rightarrow> u64 \<Rightarrow> u64 list \<times> bool" where
  "spec_step seen c = (if spec_accept seen c then (c # seen, True) else (seen, False))"

section \<open>The ring of bits\<close>

definition ring_bit :: "u64 list \<Rightarrow> nat \<Rightarrow> bool" where
  "ring_bit bitmap p = bit (bitmap ! (p div 64)) (p mod 64)"

lemma position_less [simp]: "position c < 8192" "position c div 64 < 128"
  by (simp_all add: position_def div_less_iff_less_mult)

lemma IsSet_ring: "IsSet bm c = ring_bit bm (position c)"
  by (simp add: IsSet_def ring_bit_def Let_def bit_iff_and_push_bit_not_eq_0)

lemma length_Set [simp]: "length (Set bm c) = length bm" "length (Clear bm c) = length bm"
  by (simp_all add: Set_def Clear_def Let_def)

lemma cell_eq_iff: "(p :: nat) div 64 = q div 64 \<Longrightarrow> p mod 64 = q mod 64 \<longleftrightarrow> p = q"
  by (metis div_mult_mod_eq)

lemma ring_bit_Set:
  assumes "length bm = 128" and "p < 8192"
  shows "ring_bit (Set bm c) p \<longleftrightarrow> p = position c \<or> ring_bit bm p"
proof (cases "p div 64 = position c div 64")
  case True
  then show ?thesis
    using assms(1) cell_eq_iff [OF True]
    by (auto simp: ring_bit_def Set_def Let_def bit_simps)
next
  case False
  then show ?thesis by (auto simp: ring_bit_def Set_def Let_def)
qed

lemma ring_bit_Clear:
  assumes "length bm = 128" and "p < 8192"
  shows "ring_bit (Clear bm c) p \<longleftrightarrow> p \<noteq> position c \<and> ring_bit bm p"
proof (cases "p div 64 = position c div 64")
  case True
  then show ?thesis
    using assms(1) cell_eq_iff [OF True]
    by (auto simp: ring_bit_def Clear_def Let_def bit_simps)
next
  case False
  then show ?thesis by (auto simp: ring_bit_def Clear_def Let_def)
qed

lemma ring_bit_zero: "p < 8192 \<Longrightarrow> \<not> ring_bit (replicate 128 0) p"
  by (simp add: ring_bit_def div_less_iff_less_mult)

lemma mod_close:
  fixes a b :: nat
  assumes "a \<le> b" and "b < a + 8192" and "a mod 8192 = b mod 8192"
  shows "a = b"
proof (rule ccontr)
  assume "a \<noteq> b"
  have "8192 dvd b - a" using assms(1,3) by (metis mod_eq_dvd_iff_nat)
  then have "8192 \<le> b - a" using \<open>a \<noteq> b\<close> assms(1) by (intro dvd_imp_le) auto
  then show False using assms by linarith
qed

section \<open>The clearing loop\<close>

lemma not_max_less: "c \<noteq> (- 1 :: u64) \<Longrightarrow> unat c < 18446744073709551615"
proof -
  assume c: "c \<noteq> - 1"
  have m: "unat (- 1 :: u64) = 18446744073709551615"
    by (simp add: unsigned_minus_1_eq_mask mask_eq_exp_minus_1)
  have "unat c \<noteq> unat (- 1 :: u64)" using c unsigned_word_eqI by metis
  moreover have "unat c < 18446744073709551616" using unsigned_less [of c, where 'a = nat] by simp
  ultimately show ?thesis unfolding m by linarith
qed

lemma unat_Suc_not_max: "c \<noteq> (- 1 :: u64) \<Longrightarrow> unat (c + 1) = unat c + 1"
  using not_max_less [of c] by (simp add: unat_word_ariths)

lemma ball_from:
  fixes a b :: nat
  assumes "a \<le> b"
  shows "(\<forall>x. a \<le> x \<and> x \<le> b \<longrightarrow> P x) \<longleftrightarrow> P a \<and> (\<forall>x. a + 1 \<le> x \<and> x \<le> b \<longrightarrow> P x)"
proof -
  have "a \<le> x \<longleftrightarrow> x = a \<or> a + 1 \<le> x" for x by linarith
  then show ?thesis using assms by metis
qed

lemma clear_loop_ends:
  assumes "counter \<noteq> - 1" and "length bm = 128"
  shows "\<exists>bm'. clear_loop value counter bm = Some bm' \<and> length bm' = 128 \<and>
    (\<forall>p<8192. ring_bit bm' p \<longleftrightarrow>
       ring_bit bm p \<and> (\<forall>x. unat value \<le> x \<and> x \<le> unat counter \<longrightarrow> p \<noteq> x mod 8192))"
  using assms(2)
proof (induction "unat counter + 1 - unat value" arbitrary: "value" bm)
  case 0
  then have "\<not> value \<le> counter" by (auto simp: word_le_nat_alt)
  then show ?case using 0 by (subst clear_loop.simps) auto
next
  case (Suc n)
  then have le: "value \<le> counter" by (auto simp: word_le_nat_alt)
  then have "value \<noteq> - 1" using assms(1) word_order.extremum_uniqueI by metis
  then have u: "unat (value + 1) = unat value + 1" by (rule unat_Suc_not_max)
  have n: "n = unat counter + 1 - unat (value + 1)" using Suc(2) u by linarith
  obtain bm' where b: "clear_loop (value + 1) counter (Clear bm value) = Some bm'" "length bm' = 128"
    "\<forall>p<8192. ring_bit bm' p \<longleftrightarrow> ring_bit (Clear bm value) p \<and>
       (\<forall>x. unat (value + 1) \<le> x \<and> x \<le> unat counter \<longrightarrow> p \<noteq> x mod 8192)"
    using Suc(1) [OF n, of "Clear bm value"] Suc(3) by auto
  have "ring_bit bm' p \<longleftrightarrow> ring_bit bm p \<and> (\<forall>x. unat value \<le> x \<and> x \<le> unat counter \<longrightarrow> p \<noteq> x mod 8192)"
    if "p < 8192" for p
  proof -
    have "(\<forall>x. unat value \<le> x \<and> x \<le> unat counter \<longrightarrow> p \<noteq> x mod 8192) \<longleftrightarrow>
        p \<noteq> unat value mod 8192 \<and> (\<forall>x. unat value + 1 \<le> x \<and> x \<le> unat counter \<longrightarrow> p \<noteq> x mod 8192)"
      using le unfolding word_le_nat_alt by (rule ball_from)
    then show ?thesis
      using b(3) that Suc(3) u by (auto simp: ring_bit_Clear position_def)
  qed
  then show ?case using b le by (subst clear_loop.simps) auto
qed

lemma clear_loop_total: "counter \<noteq> - 1 \<Longrightarrow> \<exists>bm'. clear_loop value counter bm = Some bm'"
proof (induction "unat counter + 1 - unat value" arbitrary: "value" bm)
  case 0
  then have "\<not> value \<le> counter" by (auto simp: word_le_nat_alt)
  then show ?case by (subst clear_loop.simps) auto
next
  case (Suc n)
  then have le: "value \<le> counter" by (auto simp: word_le_nat_alt)
  then have "value \<noteq> - 1" using Suc(3) word_order.extremum_uniqueI by metis
  then have "n = unat counter + 1 - unat (value + 1)" using Suc(2) unat_Suc_not_max by simp
  from Suc(1) [OF this Suc(3)] show ?case using le by (subst clear_loop.simps) simp
qed

lemma clear_loop_diverges: "clear_loop value (- 1) bm = None"
proof -
  have "clear_loop value counter bm = Some bm' \<Longrightarrow> counter \<noteq> - 1" for "value" counter bm bm'
    by (erule clear_loop.raw_induct [of "\<lambda>value counter bm bm'. counter \<noteq> - 1", rotated])
      (auto split: if_splits)
  then show ?thesis by (cases "clear_loop value (- 1) bm") auto
qed

section \<open>The window tracks the accepted counters\<close>

definition tracks :: "replay_window \<Rightarrow> u64 list \<Rightarrow> bool" where
  "tracks w seen \<longleftrightarrow> length (m_bitmap w) = 128 \<and>
     (if m_initialized w
      then m_highest w \<in> set seen \<and> (\<forall>c\<in>set seen. unat c \<le> unat (m_highest w)) \<and>
        (\<forall>c. unat c \<le> unat (m_highest w) \<and> unat (m_highest w) < unat c + 8192 \<longrightarrow>
           (ring_bit (m_bitmap w) (position c) \<longleftrightarrow> c \<in> set seen))
      else seen = [] \<and> (\<forall>p<8192. \<not> ring_bit (m_bitmap w) p))"

lemma position_inj:
  "unat c \<le> unat d \<Longrightarrow> unat d < unat c + 8192 \<Longrightarrow> position c = position d \<Longrightarrow> c = d"
  unfolding position_def using mod_close unsigned_word_eqI by metis

lemma tracks_Reset: "tracks (Reset w) []"
  by (simp add: tracks_def Reset_def ring_bit_zero)

lemma Accept_first:
  assumes "tracks w seen" and "\<not> m_initialized w"
  shows "\<exists>w'. Accept w c = Some (w', spec_accept seen c) \<and> tracks w' [c]"
proof -
  have "position d = position c \<longleftrightarrow> d = c" if "unat d \<le> unat c \<and> unat c < unat d + 8192" for d
    using position_inj [of d c] that by auto
  then show ?thesis
    using assms by (auto simp: Accept_def tracks_def spec_accept_def ring_bit_Set)
qed

definition advance :: "replay_window \<Rightarrow> u64 \<Rightarrow> u64 list option" where
  "advance w counter =
     (if counter - m_highest w \<ge> 8192 then Some (replicate 128 0)
      else clear_loop (m_highest w + 1) counter (m_bitmap w))"

lemma advance_bits:
  assumes t: "tracks w seen" "m_initialized w" and c: "counter > m_highest w" "counter \<noteq> - 1"
  shows "\<exists>bm. advance w counter = Some bm \<and> length bm = 128 \<and>
    (\<forall>d. unat d \<le> unat counter \<and> unat counter < unat d + 8192 \<longrightarrow>
       (ring_bit bm (position d) \<longleftrightarrow> d \<in> set seen))"
proof -
  let ?H = "m_highest w"
  have H: "unat ?H < unat counter" "unat (counter - ?H) = unat counter - unat ?H"
    using c(1) by (simp_all add: word_less_nat_alt unat_sub word_le_nat_alt)
  have seen: "unat d \<le> unat ?H" if "d \<in> set seen" for d
    using t that by (auto simp: tracks_def)
  show ?thesis
  proof (cases "counter - ?H \<ge> 8192")
    case True
    then have "unat ?H + 8192 \<le> unat counter" using H by (simp add: word_le_nat_alt)
    then show ?thesis using True seen by (fastforce simp: advance_def ring_bit_zero)
  next
    case False
    then have near: "unat counter < unat ?H + 8192" using H by (simp add: word_le_nat_alt)
    have "?H \<noteq> - 1" using c(1) word_order.extremum_strict by metis
    then have u: "unat (?H + 1) = unat ?H + 1" by (rule unat_Suc_not_max)
    obtain bm where bm: "clear_loop (?H + 1) counter (m_bitmap w) = Some bm" "length bm = 128"
      "\<forall>p<8192. ring_bit bm p \<longleftrightarrow> ring_bit (m_bitmap w) p \<and>
         (\<forall>x. unat ?H + 1 \<le> x \<and> x \<le> unat counter \<longrightarrow> p \<noteq> x mod 8192)"
      using clear_loop_ends [OF c(2), of "m_bitmap w" "?H + 1"] t unfolding tracks_def u by auto
    have "ring_bit bm (position d) \<longleftrightarrow> d \<in> set seen"
      if d: "unat d \<le> unat counter" "unat counter < unat d + 8192" for d
    proof (cases "unat d \<le> unat ?H")
      case True
      have "position d \<noteq> x mod 8192" if "unat ?H + 1 \<le> x" "x \<le> unat counter" for x
        using mod_close [of "unat d" x] d(2) that True unfolding position_def by linarith
      moreover have "ring_bit (m_bitmap w) (position d) \<longleftrightarrow> d \<in> set seen"
        using t True d H unfolding tracks_def by auto
      ultimately show ?thesis using bm(3) by auto
    next
      case False
      then have "\<not> ring_bit bm (position d)" using bm(3) d(1) by (auto simp: position_def intro!: exI [of _ "unat d"])
      then show ?thesis using seen [of d] False by auto
    qed
    then show ?thesis using bm False by (auto simp: advance_def)
  qed
qed

lemma Accept_new:
  assumes t: "tracks w seen" "m_initialized w" and c: "counter > m_highest w" "counter \<noteq> - 1"
  shows "\<exists>w'. Accept w counter = Some (w', True) \<and> spec_accept seen counter \<and> tracks w' (counter # seen)"
proof -
  obtain bm where bm: "advance w counter = Some bm" "length bm = 128"
    "\<forall>d. unat d \<le> unat counter \<and> unat counter < unat d + 8192 \<longrightarrow> (ring_bit bm (position d) \<longleftrightarrow> d \<in> set seen)"
    using advance_bits [OF assms] by blast
  let ?w = "w\<lparr>m_bitmap := Set bm counter, m_highest := counter\<rparr>"
  have seen: "unat d < unat counter" if "d \<in> set seen" for d
    using t that c(1) by (fastforce simp: tracks_def word_less_nat_alt)
  then have "spec_accept seen counter" by (fastforce simp: spec_accept_def)
  moreover have "Accept w counter = Some (?w, True)"
    using t(2) c(1) bm(1) by (auto simp: Accept_def advance_def split: if_splits)
  moreover have "tracks ?w (counter # seen)"
    using t(2) bm seen position_inj [of _ counter] by (auto simp: tracks_def ring_bit_Set less_imp_le)
  ultimately show ?thesis by blast
qed

lemma Accept_old:
  assumes t: "tracks w seen" "m_initialized w" and c: "\<not> counter > m_highest w"
  shows "\<exists>w'. Accept w counter = Some (w', spec_accept seen counter) \<and>
    tracks w' (if spec_accept seen counter then counter # seen else seen)"
proof -
  let ?H = "m_highest w"
  have H: "unat counter \<le> unat ?H" "unat (?H - counter) = unat ?H - unat counter"
    using c by (simp_all add: not_less word_le_nat_alt unat_sub)
  have max: "?H \<in> set seen" "\<And>d. d \<in> set seen \<Longrightarrow> unat d \<le> unat ?H"
    using t by (auto simp: tracks_def)
  have old: "?H - counter \<ge> 8192 \<longleftrightarrow> \<not> unat ?H < unat counter + 8192"
    using H by (auto simp: word_le_nat_alt)
  have spec: "spec_accept seen counter \<longleftrightarrow>
      unat ?H < unat counter + 8192 \<and> \<not> IsSet (m_bitmap w) counter"
    using t H max unfolding tracks_def spec_accept_def IsSet_ring by fastforce
  show ?thesis
  proof (cases "spec_accept seen counter")
    case False
    then show ?thesis using t c old spec by (auto simp: Accept_def)
  next
    case True
    let ?w = "w\<lparr>m_bitmap := Set (m_bitmap w) counter\<rparr>"
    have "position d = position counter \<longleftrightarrow> d = counter"
      if "unat d \<le> unat ?H" "unat ?H < unat d + 8192" for d
      using position_inj [of d counter] position_inj [of counter d] that H True spec by fastforce
    then have "tracks ?w (counter # seen)"
      using t H max by (auto simp: tracks_def ring_bit_Set)
    then show ?thesis using True t c old spec by (auto simp: Accept_def)
  qed
qed

lemma Accept_tracks:
  assumes "tracks w seen" and "counter \<noteq> - 1"
  shows "\<exists>w'. Accept w counter = Some (w', spec_accept seen counter) \<and>
    tracks w' (if spec_accept seen counter then counter # seen else seen)"
proof -
  consider "\<not> m_initialized w" | "m_initialized w" "counter > m_highest w"
    | "m_initialized w" "\<not> counter > m_highest w" by blast
  then show ?thesis
  proof cases
    case 1
    then have "seen = []" using assms(1) by (simp add: tracks_def)
    then show ?thesis using Accept_first [OF assms(1) 1] by (auto simp: spec_accept_def)
  next
    case 2
    then show ?thesis using Accept_new [OF assms(1) 2 assms(2)] by auto
  next
    case 3
    then show ?thesis by (rule Accept_old [OF assms(1)])
  qed
qed

interpretation replay: simulation Accept spec_step tracks "\<lambda>c. c \<noteq> - 1"
proof unfold_locales
  fix w seen and i :: u64
  assume "tracks w seen" "i \<noteq> - 1"
  then show "\<exists>w'. Accept w i = Some (w', snd (spec_step seen i)) \<and> tracks w' (fst (spec_step seen i))"
    using Accept_tracks [of w seen i] by (auto simp: spec_step_def)
qed

lemma spec_run_seen:
  "fst (run_total spec_step seen cs) =
     rev (map fst (filter snd (zip cs (snd (run_total spec_step seen cs))))) @ seen"
  by (induction cs arbitrary: seen) (auto simp: case_prod_beta Let_def spec_step_def)

lemma spec_run_distinct: "distinct seen \<Longrightarrow> distinct (fst (run_total spec_step seen cs))"
  by (induction cs arbitrary: seen) (auto simp: case_prod_beta Let_def spec_step_def spec_accept_def)

text \<open>
  C4: from a reset window, every sequence of counters below the largest 64-bit value is processed, each
  answer is the one of the sliding-window specification (accept a counter that was never accepted and
  lags the highest accepted one by less than 8192), and no counter is accepted twice.
\<close>

theorem replay_window_correct:
  assumes "- 1 \<notin> set cs"
  shows "\<exists>w' answers. run_option Accept (Reset w) cs = Some (w', answers) \<and>
    answers = snd (run_total spec_step [] cs) \<and>
    distinct (map fst (filter snd (zip cs answers)))"
proof -
  have "list_all (\<lambda>c. c \<noteq> - 1) cs" using assms by (auto simp: list_all_iff)
  from replay.run_sim [OF tracks_Reset this]
  obtain w' where "run_option Accept (Reset w) cs = Some (w', snd (run_total spec_step [] cs))" by blast
  moreover have "distinct (map fst (filter snd (zip cs (snd (run_total spec_step [] cs)))))"
    using spec_run_distinct [of "[]" cs] spec_run_seen [of "[]" cs] by simp
  ultimately show ?thesis by blast
qed

theorem replay_window_correct_witness:
  "\<exists>w'. run_option Accept (Reset \<lparr>m_bitmap = [], m_highest = 7, m_initialized = True\<rparr>) [5, 9000, 3, 9000, 900, 4] =
     Some (w', [True, True, False, False, True, False])"
proof -
  have "(- 1 :: u64) \<notin> set [5, 9000, 3, 9000, 900, 4]" by simp
  from replay_window_correct [OF this, of "\<lparr>m_bitmap = [], m_highest = 7, m_initialized = True\<rparr>"] show ?thesis
    by (simp add: spec_step_def spec_accept_def)
qed

text \<open>
  C32: \<open>Accept\<close> fails to return for exactly one counter, the largest 64-bit value, and only when the window
  is initialised less than 8192 below it: there the clearing loop wraps around and never ends.
\<close>

theorem Accept_diverges_iff:
  "Accept w counter = None \<longleftrightarrow>
     m_initialized w \<and> counter = - 1 \<and> m_highest w < counter \<and> counter - m_highest w < 8192"
  using clear_loop_total [of counter "m_highest w + 1" "m_bitmap w"] clear_loop_diverges
  by (cases "counter = - 1") (auto simp: Accept_def not_le split: option.splits)

section \<open>The table of sessions\<close>

definition sessions_ok :: "session_replay list \<Rightarrow> bool" where
  "sessions_ok sessions \<longleftrightarrow> length sessions \<le> 3 \<and> distinct (map session_key sessions)"

lemma ReplayFor_hit:
  assumes "distinct (map session_key sessions)" and "i < length sessions" "session_key (sessions ! i) = key"
  shows "ReplayFor sessions key = (sessions, i)"
proof -
  have "List.find (\<lambda>j. session_key (sessions ! j) = key) [0..<length sessions] = Some i"
    using assms by (auto simp: find_Some_iff distinct_conv_nth intro!: exI [of _ i])
  then show ?thesis by (simp add: ReplayFor_def)
qed

lemma ReplayFor_miss:
  assumes "key \<notin> set (map session_key sessions)"
  shows "ReplayFor sessions key =
    (let kept = (if length sessions = 3 then tl sessions else sessions) in (kept @ [new_session key], length kept))"
proof -
  have "List.find (\<lambda>j. session_key (sessions ! j) = key) [0..<length sessions] = None"
    using assms by (force simp: find_None_iff in_set_conv_nth)
  then show ?thesis by (simp add: ReplayFor_def)
qed

lemma ReplayFor_ok:
  assumes "sessions_ok sessions" and "ReplayFor sessions key = (sessions', i)"
  shows "sessions_ok sessions' \<and> i < length sessions' \<and> session_key (sessions' ! i) = key"
proof (cases "key \<in> set (map session_key sessions)")
  case True
  then obtain j where "j < length sessions" "session_key (sessions ! j) = key" by (auto simp: in_set_conv_nth)
  then show ?thesis using ReplayFor_hit [of sessions j key] assms by (auto simp: sessions_ok_def)
next
  case False
  let ?kept = "if length sessions = 3 then tl sessions else sessions"
  have "set (map session_key (tl sessions)) \<subseteq> set (map session_key sessions)"
    by (cases sessions) auto
  moreover have "distinct (map session_key (tl sessions))"
    using assms(1) distinct_tl [of "map session_key sessions"] by (simp add: sessions_ok_def map_tl)
  moreover have "session_key (new_session key) = key" by (simp add: session_key_def new_session_def)
  ultimately show ?thesis
    using False ReplayFor_miss [OF False] assms by (auto simp: sessions_ok_def Let_def nth_append split: if_splits)
qed

text \<open>The specification over all sessions: every session has its own sliding window.\<close>

definition counters :: "u32 \<times> u32 \<Rightarrow> ((u32 \<times> u32) \<times> u64) list \<Rightarrow> u64 list" where
  "counters key seen = map snd (filter (\<lambda>p. fst p = key) seen)"

fun key_step ::
    "((u32 \<times> u32) \<times> u64) list \<Rightarrow> (u32 \<times> u32) \<times> u64 \<Rightarrow> ((u32 \<times> u32) \<times> u64) list \<times> bool" where
  "key_step seen (key, c) =
     (if spec_accept (counters key seen) c then ((key, c) # seen, True) else (seen, False))"

definition tracks_sessions ::
    "(u32 \<times> u32) set \<Rightarrow> session_replay list \<Rightarrow> ((u32 \<times> u32) \<times> u64) list \<Rightarrow> bool" where
  "tracks_sessions K sessions seen \<longleftrightarrow>
     finite K \<and> card K \<le> 3 \<and> sessions_ok sessions \<and> session_key ` set sessions \<subseteq> K \<and>
     (\<forall>s\<in>set sessions. tracks (sr_Window s) (counters (session_key s) seen)) \<and>
     (\<forall>key. key \<notin> session_key ` set sessions \<longrightarrow> counters key seen = [])"

lemma ReplayFor_tracks:
  assumes r: "tracks_sessions K sessions seen" and key: "key \<in> K"
  shows "\<exists>sessions' i. ReplayFor sessions key = (sessions', i) \<and> tracks_sessions K sessions' seen \<and>
    i < length sessions' \<and> session_key (sessions' ! i) = key"
proof (cases "key \<in> set (map session_key sessions)")
  case True
  then obtain i where "i < length sessions" "session_key (sessions ! i) = key" by (auto simp: in_set_conv_nth)
  then show ?thesis using ReplayFor_hit [of sessions i key] r by (auto simp: tracks_sessions_def sessions_ok_def)
next
  case False
  have d: "distinct (map session_key sessions)" and K: "finite K" "card K \<le> 3" "session_key ` set sessions \<subseteq> K"
    using r by (auto simp: tracks_sessions_def sessions_ok_def)
  have "length sessions = card (session_key ` set sessions)"
    using d by (metis distinct_card length_map set_map)
  also have "\<dots> < card K" using K False key by (intro psubset_card_mono) auto
  finally have small: "length sessions < 3" using K(2) by linarith
  then have eq: "ReplayFor sessions key = (sessions @ [new_session key], length sessions)"
    using ReplayFor_miss [OF False] by simp
  have "tracks (sr_Window (new_session key)) []"
    using tracks_Reset by (simp add: Reset_def new_session_def)
  moreover have "session_key (new_session key) = key" by (simp add: session_key_def new_session_def)
  moreover have "counters key seen = []" using r False unfolding tracks_sessions_def set_map by blast
  ultimately show ?thesis
    using r False key small by (auto simp: eq tracks_sessions_def sessions_ok_def)
qed

lemma session_accept_sim:
  assumes r: "tracks_sessions K sessions seen" and key: "key \<in> K" and c: "c \<noteq> - 1"
  shows "\<exists>sessions'. session_accept sessions (key, c) = Some (sessions', snd (key_step seen (key, c))) \<and>
    tracks_sessions K sessions' (fst (key_step seen (key, c)))"
proof -
  obtain ss i where f: "ReplayFor sessions key = (ss, i)" "tracks_sessions K ss seen"
    "i < length ss" "session_key (ss ! i) = key"
    using ReplayFor_tracks [OF r key] by blast
  let ?old = "counters key seen"
  have "tracks (sr_Window (ss ! i)) ?old" using f by (auto simp: tracks_sessions_def)
  from Accept_tracks [OF this c] obtain w where
    w: "Accept (sr_Window (ss ! i)) c = Some (w, spec_accept ?old c)"
      "tracks w (if spec_accept ?old c then c # ?old else ?old)" by blast
  let ?ss = "ss[i := (ss ! i)\<lparr>sr_Window := w\<rparr>]" and ?seen = "fst (key_step seen (key, c))"
  have keys: "map session_key ?ss = map session_key ss"
    using f(3) by (simp add: map_update session_key_def list_update_same_conv)
  have new: "counters k ?seen = (if k = key \<and> spec_accept ?old c then c # ?old else counters k seen)" for k
    by (auto simp: counters_def)
  have "tracks (sr_Window s) (counters (session_key s) ?seen)" if s: "s \<in> set ?ss" for s
  proof -
    obtain j where j: "j < length ss" "s = ?ss ! j"
      using s unfolding in_set_conv_nth length_list_update by blast
    show ?thesis
    proof (cases "j = i")
      case True
      then have "sr_Window s = w" "session_key s = key"
        using j f(3,4) by (auto simp: session_key_def)
      then show ?thesis using w(2) unfolding new by (auto split: if_splits)
    next
      case False
      then have "session_key s \<noteq> key"
        using j f(2,3,4) by (auto simp: tracks_sessions_def sessions_ok_def distinct_conv_nth)
      then show ?thesis using False j f(2) unfolding new by (auto simp: tracks_sessions_def)
    qed
  qed
  moreover have "counters k ?seen = []" if "k \<notin> session_key ` set ?ss" for k
  proof -
    have "k \<notin> set (map session_key ss)" using that unfolding keys [symmetric] set_map .
    moreover have "key \<in> set (map session_key ss)" using f(3,4) by auto
    moreover from calculation have "counters k seen = []"
      using f(2) unfolding tracks_sessions_def set_map by blast
    ultimately show ?thesis unfolding new by auto
  qed
  moreover have "session_key ` set ?ss = session_key ` set ss" using keys by (metis set_map)
  ultimately have "tracks_sessions K ?ss ?seen"
    using f(2) keys by (simp add: tracks_sessions_def sessions_ok_def)
  moreover have "session_accept sessions (key, c) = Some (?ss, snd (key_step seen (key, c)))"
    by (simp add: f(1) w(1))
  ultimately show ?thesis by blast
qed

interpretation sessions: simulation session_accept key_step "tracks_sessions K" "\<lambda>(key, c). key \<in> K \<and> c \<noteq> - 1" for K
proof unfold_locales
  fix ss seen and i :: "(u32 \<times> u32) \<times> u64"
  assume "tracks_sessions K ss seen" "case i of (key, c) \<Rightarrow> key \<in> K \<and> c \<noteq> - 1"
  then show "\<exists>ss'. session_accept ss i = Some (ss', snd (key_step seen i)) \<and>
      tracks_sessions K ss' (fst (key_step seen i))"
    using session_accept_sim [of K ss seen "fst i" "snd i"] by (cases i) simp
qed

lemma key_run_seen:
  "fst (run_total key_step seen ps) =
     rev (map fst (filter snd (zip ps (snd (run_total key_step seen ps))))) @ seen"
proof (induction ps arbitrary: seen)
  case (Cons p ps)
  then show ?case by (cases p) (auto simp: case_prod_beta Let_def)
qed simp

lemma key_run_distinct: "distinct seen \<Longrightarrow> distinct (fst (run_total key_step seen ps))"
proof (induction ps arbitrary: seen)
  case (Cons p ps)
  have "(key, c) \<notin> set seen" if "spec_accept (counters key seen) c" for key c
    using that by (force simp: spec_accept_def counters_def)
  with Cons show ?case by (cases p) (auto simp: case_prod_beta Let_def)
qed simp

text \<open>
  C13: a peer that uses at most three sessions never gets a packet accepted twice, however the packets
  of its sessions interleave: the window of a session is neither dropped nor disturbed by the others.
\<close>

theorem sessions_no_replay:
  assumes "card (set (map fst packets)) \<le> 3" and "- 1 \<notin> set (map snd packets)"
  shows "\<exists>table answers. run_option session_accept [] packets = Some (table, answers) \<and>
    answers = snd (run_total key_step [] packets) \<and> length table \<le> 3 \<and>
    distinct (map fst (filter snd (zip packets answers)))"
proof -
  let ?K = "set (map fst packets)"
  have "tracks_sessions ?K [] []"
    using assms(1) by (simp add: tracks_sessions_def sessions_ok_def counters_def)
  moreover have "list_all (\<lambda>(key, c). key \<in> ?K \<and> c \<noteq> - 1) packets"
    using assms(2) by (force simp: list_all_iff)
  ultimately obtain table where
    "run_option session_accept [] packets = Some (table, snd (run_total key_step [] packets))"
    "tracks_sessions ?K table (fst (run_total key_step [] packets))"
    using sessions.run_sim by blast
  moreover have "distinct (map fst (filter snd (zip packets (snd (run_total key_step [] packets)))))"
    using key_run_distinct [of "[]" packets] key_run_seen [of "[]" packets] by simp
  ultimately show ?thesis by (auto simp: tracks_sessions_def sessions_ok_def)
qed

theorem sessions_no_replay_witness:
  "\<exists>table. run_option session_accept [] [((1, 0), 5), ((2, 0), 5), ((1, 0), 5)] =
     Some (table, [True, True, False])"
proof -
  let ?p = "[((1, 0), 5), ((2, 0), 5), ((1, 0), 5)] :: ((u32 \<times> u32) \<times> u64) list"
  have "snd (run_total key_step [] ?p) = [True, True, False]" by code_simp
  moreover have "card (set (map fst ?p)) \<le> 3" by (rule order_trans [OF card_length]) simp
  moreover have "- 1 \<notin> set (map snd ?p)" by simp
  ultimately show ?thesis using sessions_no_replay [of ?p] by (metis (no_types))
qed

end
