(* ===== verification/Relay_Frame.thy ===== *)
theory Relay_Frame
  imports Tailgate_Text
begin

text \<open>
  Frames of the relay protocol: the class \<^verbatim>\<open>Frame\<close> and the function \<^verbatim>\<open>NextFrame\<close> of
  \<^verbatim>\<open>src/core/hosted/Protocol.cpp\<close>.  A frame is the magic \<^verbatim>\<open>TGR1\<close>, a type, zero flags, a length and the
  payload.  \<open>NextFrame\<close> reads the buffer through the checked accessors.
\<close>

section \<open>Errors\<close>

datatype packet_framing_error =
    InvalidCapacity | InvalidFragment | OverlappingFragment | WindowExceeded | NestedFragment | MixedFraming

datatype relay_error =
    PacketFramingError packet_framing_error
  | runtime_error string
  | invalid_argument string
  | length_error string

section \<open>Protocol.cpp: frames\<close>

text \<open>\<^verbatim>\<open>MessageType\<close> is an enumeration over 16 bits; a value is its wire code.\<close>

type_synonym message_type = u16

definition Authenticate :: message_type where "Authenticate = 1"
definition NetworkMapAck :: message_type where "NetworkMapAck = 26"
definition Fragment :: message_type where "Fragment = 23"

text \<open>The enumerators with their codes.\<close>

definition MessageTypes :: "(string \<times> u16) list" where
  "MessageTypes =
     [(''Authenticate'', 1), (''Authenticated'', 2), (''Rejected'', 3), (''NetworkMap'', 4),
      (''ClientPacket'', 5), (''ServerPacket'', 6), (''Status'', 7), (''Ping'', 8), (''Pong'', 9),
      (''Heartbeat'', 10), (''Shutdown'', 11), (''Error'', 12), (''ServerChallenge'', 13),
      (''DerpChallenge'', 14), (''DerpResponse'', 15), (''TailnetDnsQuery'', 16),
      (''TailnetDnsResponse'', 17), (''PeerEndpoint'', 18), (''DataPathReady'', 19),
      (''ServerEndpointCandidates'', 20), (''PumpSchedule'', 21), (''Pump'', 22), (''Fragment'', 23),
      (''Delegation'', 24), (''DelegationReply'', 25), (''NetworkMapAck'', 26)]"

definition IsKnownType :: "u16 \<Rightarrow> bool" where
  "IsKnownType v \<longleftrightarrow> v \<ge> Authenticate \<and> v \<le> NetworkMapAck"

definition Magic :: "byte list" where
  "Magic = map byte_of_char ''TGR1''"

definition HeaderSize :: nat where "HeaderSize = 12"
definition MaximumPayloadSize :: nat where "MaximumPayloadSize = 1024 * 1024"
definition MaximumEncodedSize :: nat where "MaximumEncodedSize = HeaderSize + MaximumPayloadSize"

record frame =
  fr_type :: message_type
  fr_payload :: "byte list"

definition EncodedSize :: "frame \<Rightarrow> (relay_error, nat) res" where
  "EncodedSize f =
     (if length (fr_payload f) > MaximumPayloadSize \<or> length (fr_payload f) > 2 ^ 32 - 1
      then Inl (Throw (runtime_error ''Relay frame payload is too large.''))
      else if \<not> IsKnownType (fr_type f)
      then Inl (Throw (runtime_error ''Relay frame has an unknown message type.''))
      else Inr (HeaderSize + length (fr_payload f)))"

definition AppendTo :: "frame \<Rightarrow> byte list \<Rightarrow> byte list" where
  "AppendTo f output =
     output @ Magic @ Append16 (fr_type f) @ Append16 0 @
     Append32 (word_of_nat (length (fr_payload f))) @ fr_payload f"

definition Encode :: "frame \<Rightarrow> (relay_error, byte list) res" where
  "Encode f = bindE (EncodedSize f) (\<lambda>_. Inr (AppendTo f []))"

text \<open>\<open>EncodeAll\<close> checks the whole batch against the largest vector before it appends the frames.\<close>

definition vector_max_size :: nat where "vector_max_size = 2 ^ 63 - 1"

fun batch_size :: "frame list \<Rightarrow> nat \<Rightarrow> (relay_error, nat) res" where
  "batch_size [] sofar = Inr sofar"
| "batch_size (f # fs) sofar =
     bindE (EncodedSize f) (\<lambda>frameSize.
       if frameSize > vector_max_size - sofar
       then Inl (Throw (length_error ''Relay frame batch is too large.''))
       else batch_size fs (sofar + frameSize))"

definition EncodeAll :: "frame list \<Rightarrow> (relay_error, byte list) res" where
  "EncodeAll frames = bindE (batch_size frames 0) (\<lambda>_. Inr (foldl (\<lambda>output f. AppendTo f output) [] frames))"

definition NextFrame :: "byte list \<Rightarrow> nat \<Rightarrow> (relay_error, (frame \<times> nat) option) res" where
  "NextFrame buffer offset =
     (if offset > length buffer then Inl Fault else
      let available = length buffer - offset in
      if available < HeaderSize then Inr None else
      bindE (slice buffer offset 4) (\<lambda>magic.
      if magic \<noteq> Magic then Inl (Throw (runtime_error ''Relay frame has invalid magic.'')) else
      bindE (Read16 buffer (offset + 4)) (\<lambda>type.
      if \<not> IsKnownType type then Inl (Throw (runtime_error ''Relay frame has an unknown message type.'')) else
      bindE (Read16 buffer (offset + 6)) (\<lambda>flags.
      if flags \<noteq> 0 then Inl (Throw (runtime_error ''Relay frame uses unsupported flags.'')) else
      bindE (Read32 buffer (offset + 8)) (\<lambda>payloadSize.
      if unat payloadSize > MaximumPayloadSize
      then Inl (Throw (runtime_error ''Relay frame payload exceeds the limit.''))
      else if available < HeaderSize + unat payloadSize then Inr None
      else bindE (slice buffer (offset + HeaderSize) (unat payloadSize)) (\<lambda>payload.
        Inr (Some (\<lparr>fr_type = type, fr_payload = payload\<rparr>, offset + HeaderSize + unat payloadSize))))))))"

section \<open>Encoding and decoding\<close>

text \<open>The range check accepts exactly the enumerators.\<close>

lemma IsKnownType_iff: "IsKnownType v \<longleftrightarrow> v \<in> snd ` set MessageTypes"
proof -
  have "snd ` set MessageTypes = word_of_nat ` {1..<27}"
    unfolding MessageTypes_def by (simp add: atLeastLessThan_nat_numeral) (auto simp: insert_commute)
  moreover have "IsKnownType v \<longleftrightarrow> 1 \<le> unat v \<and> unat v < 27"
    by (simp add: IsKnownType_def Authenticate_def NetworkMapAck_def word_le_nat_alt) linarith
  moreover have "1 \<le> unat v \<and> unat v < 27 \<longleftrightarrow> v \<in> word_of_nat ` {1..<27}"
    by (force simp: unat_of_nat image_iff intro!: bexI [of _ "unat v"])
  ultimately show ?thesis by simp
qed

definition frame_ok :: "frame \<Rightarrow> bool" where
  "frame_ok f \<longleftrightarrow> IsKnownType (fr_type f) \<and> length (fr_payload f) \<le> MaximumPayloadSize"

lemmas frame_sizes = HeaderSize_def MaximumPayloadSize_def MaximumEncodedSize_def

lemma length_Magic [simp]: "length Magic = 4" by (simp add: Magic_def)

lemma EncodedSize_ok: "frame_ok f \<Longrightarrow> EncodedSize f = Inr (HeaderSize + length (fr_payload f))"
  by (simp add: frame_ok_def EncodedSize_def MaximumPayloadSize_def)

lemma EncodedSize_Inr: "EncodedSize f = Inr n \<longleftrightarrow> frame_ok f \<and> n = HeaderSize + length (fr_payload f)"
  by (auto simp: frame_ok_def EncodedSize_def MaximumPayloadSize_def)

definition encoding :: "frame \<Rightarrow> byte list" where
  "encoding f = AppendTo f []"

lemma AppendTo_encoding: "AppendTo f out = out @ encoding f"
  by (simp add: encoding_def AppendTo_def)

lemma Encode_Inr: "Encode f = Inr w \<longleftrightarrow> frame_ok f \<and> w = encoding f"
  by (auto simp: Encode_def bindE_eq_Inr_iff EncodedSize_Inr encoding_def)

lemma length_encoding [simp]: "length (encoding f) = HeaderSize + length (fr_payload f)"
  by (simp add: encoding_def AppendTo_def HeaderSize_def)

lemma unat_u32_of_nat: "n \<le> MaximumPayloadSize \<Longrightarrow> unat (word_of_nat n :: u32) = n"
  by (simp add: MaximumPayloadSize_def unat_of_nat)

text \<open>A complete frame at the offset is decoded, whatever follows it.\<close>

lemma NextFrame_encoding:
  assumes "frame_ok f" and "length pre = offset"
  shows "NextFrame (pre @ encoding f @ rest) offset = Inr (Some (f, offset + length (encoding f)))"
proof -
  let ?n = "word_of_nat (length (fr_payload f)) :: u32"
  let ?b = "pre @ encoding f @ rest"
  have n: "unat ?n = length (fr_payload f)" using assms(1) by (simp add: frame_ok_def unat_u32_of_nat)
  have b: "?b = pre @ Magic @ Append16 (fr_type f) @ Append16 0 @ Append32 ?n @ fr_payload f @ rest"
    by (simp add: encoding_def AppendTo_def)
  have "slice ?b offset 4 = (Inr Magic :: (relay_error, _) res)" using assms(2) unfolding b by simp
  moreover have "Read16 ?b (offset + 4) = (Inr (fr_type f) :: (relay_error, _) res)"
    using Read16_Append16 [of "pre @ Magic" "offset + 4"] assms(2) unfolding b by simp
  moreover have "Read16 ?b (offset + 6) = (Inr 0 :: (relay_error, _) res)"
    using Read16_Append16 [of "pre @ Magic @ Append16 (fr_type f)" "offset + 6"] assms(2) unfolding b by simp
  moreover have "Read32 ?b (offset + 8) = (Inr ?n :: (relay_error, _) res)"
    using Read32_Append32 [of "pre @ Magic @ Append16 (fr_type f) @ Append16 0" "offset + 8"] assms(2)
    unfolding b by simp
  moreover have "slice ?b (offset + HeaderSize) (unat ?n) = (Inr (fr_payload f) :: (relay_error, _) res)"
    using assms(2) unfolding b n by (simp add: HeaderSize_def)
  moreover have "length ?b - offset = HeaderSize + length (fr_payload f) + length rest" using assms(2) by simp
  ultimately show ?thesis
    using assms n by (simp add: NextFrame_def frame_ok_def)
qed

text \<open>The decoder stays inside the buffer, makes progress, and only accepts encodings.\<close>

lemma NextFrame_eq:
  assumes "offset + 12 \<le> length buffer" and x: "x = drop offset buffer"
    and n: "n = unat (be32 (x ! 8) (x ! 9) (x ! 10) (x ! 11))"
  shows "NextFrame buffer offset =
    (if take 4 x \<noteq> Magic then Inl (Throw (runtime_error ''Relay frame has invalid magic.''))
     else if \<not> IsKnownType (be16 (x ! 4) (x ! 5))
     then Inl (Throw (runtime_error ''Relay frame has an unknown message type.''))
     else if be16 (x ! 6) (x ! 7) \<noteq> 0
     then Inl (Throw (runtime_error ''Relay frame uses unsupported flags.''))
     else if n > MaximumPayloadSize
     then Inl (Throw (runtime_error ''Relay frame payload exceeds the limit.''))
     else if length x < 12 + n then Inr None
     else Inr (Some (\<lparr>fr_type = be16 (x ! 4) (x ! 5), fr_payload = take n (drop 12 x)\<rparr>, offset + 12 + n)))"
proof -
  have nth: "x ! k = buffer ! (offset + k)" for k using assms(1) x by simp
  have reads: "slice buffer offset 4 = (Inr (take 4 x) :: (relay_error, _) res)"
    "Read16 buffer (offset + 4) = (Inr (be16 (x ! 4) (x ! 5)) :: (relay_error, _) res)"
    "Read16 buffer (offset + 6) = (Inr (be16 (x ! 6) (x ! 7)) :: (relay_error, _) res)"
    "Read32 buffer (offset + 8) = (Inr (be32 (x ! 8) (x ! 9) (x ! 10) (x ! 11)) :: (relay_error, _) res)"
    using assms(1) unfolding nth by (simp_all add: x add.commute)
  have "slice buffer (offset + 12) n = (Inr (take n (drop 12 x)) :: (relay_error, _) res)"
    if "\<not> length x < 12 + n"
    using that assms(1) x by (simp add: slice_def add.commute)
  moreover have "\<not> length buffer < offset" "\<not> length buffer - offset < 12" "length buffer - offset = length x"
    using assms(1) x by auto
  ultimately show ?thesis
    by (simp only: NextFrame_def Let_def reads bindE_simps HeaderSize_def n [symmetric]) simp
qed

lemma NextFrame_short:
  "offset \<le> length buffer \<Longrightarrow> length buffer < offset + 12 \<Longrightarrow> NextFrame buffer offset = Inr None"
  by (auto simp: NextFrame_def HeaderSize_def Let_def)

lemma NextFrame_beyond: "length buffer < offset \<Longrightarrow> NextFrame buffer offset = Inl Fault"
  by (simp add: NextFrame_def)

lemma twelve_cells:
  assumes "12 \<le> length x"
  shows "x = take 4 x @ [x ! 4, x ! 5] @ [x ! 6, x ! 7] @ [x ! 8, x ! 9, x ! 10, x ! 11] @ drop 12 x"
proof -
  have d: "drop i x = x ! i # drop (i + 1) x" if "i < 12" for i
    using that assms by (simp add: Cons_nth_drop_Suc)
  have "drop 4 x = [x ! 4, x ! 5, x ! 6, x ! 7, x ! 8, x ! 9, x ! 10, x ! 11] @ drop 12 x"
    using d [of 4] d [of 5] d [of 6] d [of 7] d [of 8] d [of 9] d [of 10] d [of 11] by simp
  then show ?thesis using append_take_drop_id [of 4 x] by simp
qed

lemma NextFrame_Some:
  assumes "NextFrame buffer offset = Inr (Some (f, offset'))"
  shows "frame_ok f \<and> offset' = offset + length (encoding f) \<and> offset' \<le> length buffer \<and>
    take (length (encoding f)) (drop offset buffer) = encoding f"
proof -
  have len: "offset + 12 \<le> length buffer"
    using assms NextFrame_short [of offset buffer] NextFrame_beyond [of buffer offset]
    by (cases "length buffer < offset"; cases "length buffer < offset + 12") auto
  define x where "x = drop offset buffer"
  define w where "w = be32 (x ! 8) (x ! 9) (x ! 10) (x ! 11)"
  have l: "12 \<le> length x" using len by (simp add: x_def)
  note eq = NextFrame_eq [OF len x_def, of "unat w", unfolded w_def, OF refl, folded w_def]
  have c: "take 4 x = Magic" "IsKnownType (be16 (x ! 4) (x ! 5))" "be16 (x ! 6) (x ! 7) = 0"
    "unat w \<le> MaximumPayloadSize" "12 + unat w \<le> length x"
    "f = \<lparr>fr_type = be16 (x ! 4) (x ! 5), fr_payload = take (unat w) (drop 12 x)\<rparr>" "offset' = offset + 12 + unat w"
    using assms unfolding eq by (simp_all split: if_splits)
  have lf: "length (fr_payload f) = unat w" using c(5,6) by simp
  have "[x ! 6, x ! 7] = Append16 0" using Append_be(1) [of "x ! 6" "x ! 7"] c(3) by simp
  moreover have "[x ! 4, x ! 5] = Append16 (fr_type f)" using c(6) by simp
  moreover have "[x ! 8, x ! 9, x ! 10, x ! 11] = Append32 (word_of_nat (length (fr_payload f)))"
    unfolding lf by (simp add: w_def)
  moreover have "drop 12 x = fr_payload f @ drop (12 + unat w) x"
    using c(6) by (simp add: add.commute flip: drop_drop)
  ultimately have "x = encoding f @ drop (12 + unat w) x"
    using twelve_cells [OF l] c(1) by (simp add: encoding_def AppendTo_def)
  moreover have "length (encoding f) = 12 + unat w" using lf by (simp add: HeaderSize_def)
  ultimately have "take (length (encoding f)) x = encoding f" by (metis append_eq_conv_conj)
  then show ?thesis
    using c lf len unfolding x_def [symmetric] frame_ok_def by (simp add: HeaderSize_def x_def)
qed

lemma NextFrame_progress:
  "NextFrame buffer offset = Inr (Some (f, offset')) \<Longrightarrow>
     offset < offset' \<and> offset' \<le> length buffer"
  by (drule NextFrame_Some) (auto simp: HeaderSize_def)

lemma NextFrame_safe: "offset \<le> length buffer \<Longrightarrow> NextFrame buffer offset \<noteq> Inl Fault"
  using NextFrame_short [of offset buffer] NextFrame_eq [OF _ refl refl, of offset buffer]
  by (cases "offset + 12 \<le> length buffer") (auto split: if_splits)

interpretation frames: message_stream encoding frame_ok NextFrame
proof unfold_locales
  show "frame_ok f \<Longrightarrow> NextFrame (pre @ encoding f @ rest) (length pre) =
      Inr (Some (f, length pre + length (encoding f)))" for f pre rest
    by (rule NextFrame_encoding) simp_all
  show "NextFrame buffer offset = Inr (Some (f, offset')) \<Longrightarrow>
      frame_ok f \<and> offset' = offset + length (encoding f) \<and> offset' \<le> length buffer \<and>
      take (length (encoding f)) (drop offset buffer) = encoding f" for buffer offset f offset'
    by (rule NextFrame_Some)
  show "encoding f \<noteq> []" for f
    unfolding length_greater_0_conv [symmetric] length_encoding by (simp add: HeaderSize_def)
qed

lemma batch_size_Inr: "batch_size fs n = Inr m \<Longrightarrow> list_all frame_ok fs"
  by (induction fs arbitrary: n) (auto simp: bindE_eq_Inr_iff EncodedSize_Inr split: if_splits)

lemma foldl_AppendTo: "foldl (\<lambda>output f. AppendTo f output) out fs = out @ concat (map encoding fs)"
  by (induction fs arbitrary: out) (simp_all add: AppendTo_encoding)

lemma EncodeAll_Inr: "EncodeAll fs = Inr w \<Longrightarrow> list_all frame_ok fs \<and> w = concat (map encoding fs)"
  by (auto simp: EncodeAll_def bindE_eq_Inr_iff foldl_AppendTo dest: batch_size_Inr)

text \<open>
  a batch of frames encoded by \<open>Frame::EncodeAll\<close> is decoded by successive calls of \<open>NextFrame\<close> to
  exactly those frames, and the decoder stops at the end of the batch.
\<close>

theorem EncodeAll_NextFrame:
  assumes "EncodeAll fs = Inr w"
  shows "take_messages NextFrame (Suc (length fs)) w 0 = Inr (fs, length w)"
proof -
  have fs: "list_all frame_ok fs" and w: "w = concat (map encoding fs)"
    using EncodeAll_Inr [OF assms] by auto
  have gen: "take_messages NextFrame (Suc (length fs)) (pre @ concat (map encoding fs)) (length pre) =
      Inr (fs, length pre + length (concat (map encoding fs)))" for pre
    using fs
  proof (induction fs arbitrary: pre)
    case Nil
    then show ?case by (simp add: NextFrame_short)
  next
    case (Cons f fs)
    then show ?case
      using frames.parse_enc [of f pre "concat (map encoding fs)"] Cons.IH [of "pre @ encoding f"] by simp
  qed
  show ?thesis using gen [of "[]"] unfolding w by simp
qed

theorem EncodeAll_NextFrame_witness:
  "\<exists>w. EncodeAll [\<lparr>fr_type = 8, fr_payload = [1, 2]\<rparr>, \<lparr>fr_type = 9, fr_payload = []\<rparr>] = Inr w \<and>
     take_messages NextFrame 3 w 0 =
       Inr ([\<lparr>fr_type = 8, fr_payload = [1, 2]\<rparr>, \<lparr>fr_type = 9, fr_payload = []\<rparr>], length w)"
proof -
  let ?fs = "[\<lparr>fr_type = 8, fr_payload = [1, 2]\<rparr>, \<lparr>fr_type = 9, fr_payload = []\<rparr>]"
  obtain w where w: "EncodeAll ?fs = Inr w"
    by (simp add: EncodeAll_def EncodedSize_def IsKnownType_def Authenticate_def NetworkMapAck_def
        frame_sizes vector_max_size_def)
  have "Suc (length ?fs) = 3" by simp
  with EncodeAll_NextFrame [OF w] w show ?thesis by metis
qed

end
