(* ===== verification/Relay_Codec.thy ===== *)
theory Relay_Codec
  imports Relay_Frame Net_Address
begin

text \<open>
  The binary message bodies of the relay protocol: the peer packet, peer endpoint, endpoint candidate and
  DERP authentication codecs of \<^verbatim>\<open>ProtocolCodec\<close> in \<^verbatim>\<open>src/core/hosted/Protocol.cpp\<close>.  A \<^verbatim>\<open>Bytes32\<close> is a list
  of 32 bytes.
\<close>

section \<open>Protocol.cpp: messages\<close>

type_synonym key32 = "byte list"

record derp_route =
  dr_token :: u64
  dr_region :: u16

record peer_packet =
  pp_peer :: key32
  pp_payload :: "byte list"
  pp_control :: bool
  pp_disco :: bool
  pp_endpointAddress :: u32
  pp_endpointPort :: u16
  pp_derpRoute :: "derp_route option"

record peer_endpoint =
  pe_peer :: key32
  pe_endpoint :: endpoint

record derp_challenge =
  dc_requestId :: u64
  dc_serverKey :: key32

record derp_response =
  ds_requestId :: u64
  ds_clientInfo :: "byte list"

definition packet_flags :: "bool \<Rightarrow> bool \<Rightarrow> bool \<Rightarrow> bool \<Rightarrow> byte" where
  "packet_flags control disco hasEndpoint hasDerpRoute =
     (if control then 1 else 0) OR (if disco then 2 else 0) OR (if hasEndpoint then 4 else 0) OR
     (if hasDerpRoute then 8 else 0)"

definition EncodePeerPacket :: "peer_packet \<Rightarrow> (relay_error, byte list) res" where
  "EncodePeerPacket p =
     (if pp_payload p = [] then Inl (Throw (invalid_argument ''Relay peer packet has no payload.'')) else
      let hasEndpoint = (pp_endpointAddress p \<noteq> 0 \<and> pp_endpointPort p \<noteq> 0);
          hasDerpRoute = (pp_derpRoute p \<noteq> None) in
      if hasEndpoint \<and> hasDerpRoute
      then Inl (Throw (invalid_argument ''Relay peer packet has conflicting routes.''))
      else if (case pp_derpRoute p of None \<Rightarrow> False | Some r \<Rightarrow> dr_token r = 0 \<or> dr_region r = 0)
      then Inl (Throw (invalid_argument ''Relay peer packet has an invalid DERP route.''))
      else Inr (pp_peer p @ [packet_flags (pp_control p) (pp_disco p) hasEndpoint hasDerpRoute] @
        (if hasEndpoint then Append32 (pp_endpointAddress p) @ Append16 (pp_endpointPort p)
         else case pp_derpRoute p of None \<Rightarrow> []
              | Some r \<Rightarrow> Append64 (dr_token r) @ Append16 (dr_region r)) @
        pp_payload p))"

definition DecodePeerPacket :: "byte list \<Rightarrow> (relay_error, peer_packet) res" where
  "DecodePeerPacket payload =
     (if length payload \<le> 33 then Inl (Throw (runtime_error ''Relay peer packet is truncated.'')) else
      bindE (slice payload 0 32) (\<lambda>peer. bindE (at payload 32) (\<lambda>flags.
      if flags AND NOT 15 \<noteq> 0 then Inl (Throw (runtime_error ''Relay peer packet has unknown flags.''))
      else if flags AND 4 \<noteq> 0 \<and> flags AND 8 \<noteq> 0
      then Inl (Throw (runtime_error ''Relay peer packet has conflicting routes.'')) else
      let control = (flags AND 1 \<noteq> 0); disco = (flags AND 2 \<noteq> 0) in
      if flags AND 4 \<noteq> 0 then
        if length payload \<le> 33 + 6
        then Inl (Throw (runtime_error ''Relay peer packet endpoint is truncated.'')) else
        bindE (Read32 payload 33) (\<lambda>address. bindE (Read16 payload (33 + 4)) (\<lambda>port.
          Inr \<lparr>pp_peer = peer, pp_payload = drop 39 payload, pp_control = control, pp_disco = disco,
            pp_endpointAddress = address, pp_endpointPort = port, pp_derpRoute = None\<rparr>))
      else if flags AND 8 \<noteq> 0 then
        if length payload \<le> 33 + 10
        then Inl (Throw (runtime_error ''Relay peer packet DERP route is truncated.'')) else
        bindE (Read64 payload 33) (\<lambda>token. bindE (Read16 payload (33 + 8)) (\<lambda>region.
          if token = 0 \<or> region = 0
          then Inl (Throw (runtime_error ''Relay peer packet has an invalid DERP route.''))
          else Inr \<lparr>pp_peer = peer, pp_payload = drop 43 payload, pp_control = control, pp_disco = disco,
            pp_endpointAddress = 0, pp_endpointPort = 0,
            pp_derpRoute = Some \<lparr>dr_token = token, dr_region = region\<rparr>\<rparr>))
      else Inr \<lparr>pp_peer = peer, pp_payload = drop 33 payload, pp_control = control, pp_disco = disco,
            pp_endpointAddress = 0, pp_endpointPort = 0, pp_derpRoute = None\<rparr>)))"

definition EncodePeerEndpoint :: "peer_endpoint \<Rightarrow> (relay_error, byte list) res" where
  "EncodePeerEndpoint e =
     (if ep_address (pe_endpoint e) = 0 \<or> ep_port (pe_endpoint e) = 0
      then Inl (Throw (invalid_argument ''Relay peer endpoint is unspecified.''))
      else Inr (pe_peer e @ Append32 (ep_address (pe_endpoint e)) @ Append16 (ep_port (pe_endpoint e))))"

definition DecodePeerEndpoint :: "byte list \<Rightarrow> (relay_error, peer_endpoint) res" where
  "DecodePeerEndpoint payload =
     (if length payload \<noteq> 38 then Inl (Throw (runtime_error ''Relay peer endpoint has an invalid size.'')) else
      bindE (slice payload 0 32) (\<lambda>peer.
      bindE (Read32 payload 32) (\<lambda>address. bindE (Read16 payload (32 + 4)) (\<lambda>port.
        if address = 0 \<or> port = 0 then Inl (Throw (runtime_error ''Relay peer endpoint is unspecified.''))
        else Inr \<lparr>pe_peer = peer, pe_endpoint = \<lparr>ep_address = address, ep_port = port\<rparr>\<rparr>))))"

fun encode_candidates :: "endpoint list \<Rightarrow> (relay_error, byte list) res" where
  "encode_candidates [] = Inr []"
| "encode_candidates (e # es) =
     (if ep_address e = 0 \<or> ep_port e = 0
      then Inl (Throw (invalid_argument ''Relay server endpoint candidate is unspecified.''))
      else bindE (encode_candidates es) (\<lambda>bytes. Inr (Append32 (ep_address e) @ Append16 (ep_port e) @ bytes)))"

definition EncodeServerEndpointCandidates :: "endpoint list \<Rightarrow> (relay_error, byte list) res" where
  "EncodeServerEndpointCandidates es =
     (if es = [] then Inl (Throw (invalid_argument ''Relay server has no endpoint candidates.''))
      else if length es > 16 then Inl (Throw (invalid_argument ''Relay server has too many endpoint candidates.''))
      else encode_candidates es)"

text \<open>The loop over offsets 0, 6, 12, ... of the payload.\<close>

function decode_candidates :: "byte list \<Rightarrow> nat \<Rightarrow> (relay_error, endpoint list) res" where
  "decode_candidates payload offset =
     (if offset < length payload then
        bindE (Read32 payload offset) (\<lambda>address. bindE (Read16 payload (offset + 4)) (\<lambda>port.
          if address = 0 \<or> port = 0
          then Inl (Throw (runtime_error ''Relay server endpoint candidate is unspecified.''))
          else bindE (decode_candidates payload (offset + 6)) (\<lambda>es.
            Inr (\<lparr>ep_address = address, ep_port = port\<rparr> # es))))
      else Inr [])"
  by pat_completeness auto
termination
  by (relation "measure (\<lambda>(payload, offset). length payload - offset)") auto

declare decode_candidates.simps [simp del]

definition DecodeServerEndpointCandidates :: "byte list \<Rightarrow> (relay_error, endpoint list) res" where
  "DecodeServerEndpointCandidates payload =
     (if payload = [] \<or> length payload mod 6 \<noteq> 0 \<or> length payload div 6 > 16
      then Inl (Throw (runtime_error ''Relay server endpoint candidates have an invalid size.''))
      else decode_candidates payload 0)"

definition EncodeDerpChallenge :: "derp_challenge \<Rightarrow> (relay_error, byte list) res" where
  "EncodeDerpChallenge c = Inr (Append64 (dc_requestId c) @ dc_serverKey c)"

definition DecodeDerpChallenge :: "byte list \<Rightarrow> (relay_error, derp_challenge) res" where
  "DecodeDerpChallenge payload =
     (if length payload \<noteq> 8 + 32 then Inl (Throw (runtime_error ''Relay DERP challenge has an invalid size.''))
      else bindE (Read64 payload 0) (\<lambda>requestId.
        Inr \<lparr>dc_requestId = requestId, dc_serverKey = drop 8 payload\<rparr>))"

definition EncodeDerpResponse :: "derp_response \<Rightarrow> (relay_error, byte list) res" where
  "EncodeDerpResponse r =
     (if ds_clientInfo r = []
      then Inl (Throw (invalid_argument ''Relay DERP response has no ClientInfo envelope.''))
      else Inr (Append64 (ds_requestId r) @ ds_clientInfo r))"

definition DecodeDerpResponse :: "byte list \<Rightarrow> (relay_error, derp_response) res" where
  "DecodeDerpResponse payload =
     (if length payload \<le> 8 then Inl (Throw (runtime_error ''Relay DERP response is truncated.''))
      else bindE (Read64 payload 0) (\<lambda>requestId.
        Inr \<lparr>ds_requestId = requestId, ds_clientInfo = drop 8 payload\<rparr>))"

section \<open>Round trips\<close>

definition peer_packet_ok :: "peer_packet \<Rightarrow> bool" where
  "peer_packet_ok p \<longleftrightarrow> length (pp_peer p) = 32"

text \<open>The wire has no place for an endpoint whose address or port is zero.\<close>

definition peer_packet_norm :: "peer_packet \<Rightarrow> peer_packet" where
  "peer_packet_norm p =
     (if pp_endpointAddress p \<noteq> 0 \<and> pp_endpointPort p \<noteq> 0 then p
      else p\<lparr>pp_endpointAddress := 0, pp_endpointPort := 0\<rparr>)"

lemma packet_flags_bits:
  "packet_flags a b c d AND NOT 15 = 0"
  "packet_flags a b c d AND 1 \<noteq> 0 \<longleftrightarrow> a" "packet_flags a b c d AND 2 \<noteq> 0 \<longleftrightarrow> b"
  "packet_flags a b c d AND 4 \<noteq> 0 \<longleftrightarrow> c" "packet_flags a b c d AND 8 \<noteq> 0 \<longleftrightarrow> d"
  by (cases a; cases b; cases c; cases d; simp add: packet_flags_def)+

lemma DecodePeerPacket_header:
  assumes "length peer = 32" and "body \<noteq> []"
  shows "DecodePeerPacket (peer @ [packet_flags a b c d] @ body) =
    (let payload = peer @ [packet_flags a b c d] @ body in
     if c \<and> d then Inl (Throw (runtime_error ''Relay peer packet has conflicting routes.''))
     else if c then
       if length body \<le> 6 then Inl (Throw (runtime_error ''Relay peer packet endpoint is truncated.'')) else
       bindE (Read32 payload 33) (\<lambda>address. bindE (Read16 payload (33 + 4)) (\<lambda>port.
         Inr \<lparr>pp_peer = peer, pp_payload = drop 6 body, pp_control = a, pp_disco = b,
           pp_endpointAddress = address, pp_endpointPort = port, pp_derpRoute = None\<rparr>))
     else if d then
       if length body \<le> 10 then Inl (Throw (runtime_error ''Relay peer packet DERP route is truncated.'')) else
       bindE (Read64 payload 33) (\<lambda>token. bindE (Read16 payload (33 + 8)) (\<lambda>region.
         if token = 0 \<or> region = 0
         then Inl (Throw (runtime_error ''Relay peer packet has an invalid DERP route.''))
         else Inr \<lparr>pp_peer = peer, pp_payload = drop 10 body, pp_control = a, pp_disco = b,
           pp_endpointAddress = 0, pp_endpointPort = 0,
           pp_derpRoute = Some \<lparr>dr_token = token, dr_region = region\<rparr>\<rparr>))
     else Inr \<lparr>pp_peer = peer, pp_payload = body, pp_control = a, pp_disco = b,
         pp_endpointAddress = 0, pp_endpointPort = 0, pp_derpRoute = None\<rparr>)"
proof -
  let ?p = "peer @ [packet_flags a b c d] @ body"
  have "slice ?p 0 32 = (Inr peer :: (relay_error, _) res)"
    "at ?p 32 = (Inr (packet_flags a b c d) :: (relay_error, _) res)"
    "drop 33 ?p = body" "drop 39 ?p = drop 6 body" "drop 43 ?p = drop 10 body"
    "length ?p = 33 + length body" "length ?p > 33"
    using assms by (simp_all add: nth_append)
  then show ?thesis
    unfolding DecodePeerPacket_def Let_def
    by (simp only: bindE_simps packet_flags_bits if_False not_le not_less simp_thms) auto
qed

lemma peer_packet_round_trip:
  assumes "peer_packet_ok p" and "EncodePeerPacket p = Inr w"
  shows "DecodePeerPacket w = Inr (peer_packet_norm p)"
proof -
  define h where "h \<longleftrightarrow> pp_endpointAddress p \<noteq> 0 \<and> pp_endpointPort p \<noteq> 0"
  let ?r = "pp_derpRoute p"
  let ?f = "packet_flags (pp_control p) (pp_disco p) h (?r \<noteq> None)"
  let ?route = "if h then Append32 (pp_endpointAddress p) @ Append16 (pp_endpointPort p)
    else case ?r of None \<Rightarrow> [] | Some r \<Rightarrow> Append64 (dr_token r) @ Append16 (dr_region r)"
  have e: "pp_payload p \<noteq> []" "\<not> (h \<and> ?r \<noteq> None)"
    "\<And>r. ?r = Some r \<Longrightarrow> dr_token r \<noteq> 0 \<and> dr_region r \<noteq> 0" "w = pp_peer p @ [?f] @ ?route @ pp_payload p"
    using assms(2) unfolding EncodePeerPacket_def Let_def h_def [symmetric] by (auto split: if_splits)
  have peer: "length (pp_peer p) = 32" using assms(1) by (simp add: peer_packet_ok_def)
  have body: "?route @ pp_payload p \<noteq> []" using e(1) by simp
  note dec = DecodePeerPacket_header [OF peer body, of "pp_control p" "pp_disco p" h "?r \<noteq> None"]
  have rd32: "Read32 (pp_peer p @ [x] @ Append32 v @ post) 33 = (Inr v :: (relay_error, _) res)" for x v post
    using Read32_Append32 [of "pp_peer p @ [x]" 33 v post] peer by simp
  have rd64: "Read64 (pp_peer p @ [x] @ Append64 v @ post) 33 = (Inr v :: (relay_error, _) res)" for x v post
    using Read64_Append64 [of "pp_peer p @ [x]" 33 v post] peer by simp
  have rd16: "Read16 (pp_peer p @ [x] @ Append32 u @ Append16 v @ post) 37 = (Inr v :: (relay_error, _) res)"
    "Read16 (pp_peer p @ [x] @ Append64 t @ Append16 v @ post) 41 = (Inr v :: (relay_error, _) res)" for x u t v post
    using Read16_Append16 [of "pp_peer p @ [x] @ Append32 u" 37 v post]
      Read16_Append16 [of "pp_peer p @ [x] @ Append64 t" 41 v post] peer by simp_all
  consider (endpoint) "h" "?r = None" | (derp) r where "\<not> h" "?r = Some r" | (none) "\<not> h" "?r = None"
    using e(2) by fastforce
  then show ?thesis
  proof cases
    case endpoint
    then show ?thesis
      using dec rd32 [of _ "pp_endpointAddress p" "Append16 (pp_endpointPort p) @ pp_payload p"] rd16(1) e(1)
      unfolding e(4) peer_packet_norm_def Let_def h_def [symmetric] by (cases p) simp
  next
    case derp
    then show ?thesis
      using dec rd64 [of _ "dr_token r" "Append16 (dr_region r) @ pp_payload p"] rd16(2) e(1) e(3)
      unfolding e(4) peer_packet_norm_def Let_def h_def [symmetric] by (cases p; cases r) simp
  next
    case none
    then show ?thesis
      using dec unfolding e(4) peer_packet_norm_def Let_def h_def [symmetric] by (cases p) simp
  qed
qed

interpretation peer_packet: codec EncodePeerPacket DecodePeerPacket peer_packet_ok peer_packet_norm
  by unfold_locales (rule peer_packet_round_trip)

text \<open>
  a peer packet that \<open>EncodePeerPacket\<close> accepts is decoded to the same packet, up to an endpoint
  with a zero address or port, which the wire format leaves out; and two packets with the same encoding
  agree up to that.
\<close>

theorem PeerPacket_codec:
  assumes "length (pp_peer p) = 32" and "EncodePeerPacket p = Inr w"
  shows "DecodePeerPacket w = Inr (peer_packet_norm p) \<and>
    (\<forall>q. length (pp_peer q) = 32 \<and> EncodePeerPacket q = Inr w \<longrightarrow> peer_packet_norm q = peer_packet_norm p)"
  using assms peer_packet.dec_enc peer_packet.enc_determines unfolding peer_packet_ok_def by blast

theorem PeerPacket_codec_witness:
  "\<exists>w. EncodePeerPacket \<lparr>pp_peer = replicate 32 7, pp_payload = [1, 2], pp_control = True, pp_disco = False,
      pp_endpointAddress = 0, pp_endpointPort = 41641, pp_derpRoute = Some \<lparr>dr_token = 5, dr_region = 9\<rparr>\<rparr> = Inr w \<and>
    DecodePeerPacket w = Inr \<lparr>pp_peer = replicate 32 7, pp_payload = [1, 2], pp_control = True, pp_disco = False,
      pp_endpointAddress = 0, pp_endpointPort = 0, pp_derpRoute = Some \<lparr>dr_token = 5, dr_region = 9\<rparr>\<rparr>"
proof -
  let ?p = "\<lparr>pp_peer = replicate 32 7, pp_payload = [1, 2], pp_control = True, pp_disco = False,
      pp_endpointAddress = 0, pp_endpointPort = 41641, pp_derpRoute = Some \<lparr>dr_token = 5, dr_region = 9\<rparr>\<rparr> :: peer_packet"
  obtain w where w: "EncodePeerPacket ?p = Inr w" by (simp add: EncodePeerPacket_def)
  from PeerPacket_codec [OF _ w] w show ?thesis by (simp add: peer_packet_norm_def)
qed

section \<open>Strict codecs\<close>

text \<open>A six-byte endpoint in a message.\<close>

lemma Append32_read: "i + 3 < length w \<Longrightarrow> Append32 (be32 (w ! i) (w ! (i + 1)) (w ! (i + 2)) (w ! (i + 3))) = take 4 (drop i w)"
  by (rule nth_equalityI) (auto simp: nth_Cons' numeral_eq_Suc less_Suc_eq)

lemma Append16_read: "i + 1 < length w \<Longrightarrow> Append16 (be16 (w ! i) (w ! (i + 1))) = take 2 (drop i w)"
  by (rule nth_equalityI) (auto simp: nth_Cons' numeral_eq_Suc less_Suc_eq)

lemma endpoint_bytes:
  "i + 6 \<le> length w \<Longrightarrow>
     Append32 (be32 (w ! i) (w ! (i + 1)) (w ! (i + 2)) (w ! (i + 3))) @ Append16 (be16 (w ! (i + 4)) (w ! (i + 4 + 1))) =
       take 6 (drop i w)"
  using Append32_read [of i w] Append16_read [of "i + 4" w] take_add [of 4 2 "drop i w"] by (simp add: add.commute)

interpretation peer_endpoint: strict_codec EncodePeerEndpoint DecodePeerEndpoint "\<lambda>e. length (pe_peer e) = 32" "\<lambda>e. e"
proof unfold_locales
  fix e w
  assume a: "length (pe_peer e) = 32" "EncodePeerEndpoint e = Inr w"
  then have w: "w = pe_peer e @ Append32 (ep_address (pe_endpoint e)) @ Append16 (ep_port (pe_endpoint e))"
    and nz: "ep_address (pe_endpoint e) \<noteq> 0" "ep_port (pe_endpoint e) \<noteq> 0"
    by (auto simp: EncodePeerEndpoint_def split: if_splits)
  have "Read32 w 32 = (Inr (ep_address (pe_endpoint e)) :: (relay_error, _) res)"
    "Read16 w 36 = (Inr (ep_port (pe_endpoint e)) :: (relay_error, _) res)"
    using Read32_Append32 [of "pe_peer e" 32]
      Read16_Append16 [of "pe_peer e @ Append32 (ep_address (pe_endpoint e))" 36 _ "[]"] a(1) unfolding w by simp_all
  then show "DecodePeerEndpoint w = Inr e"
    using a(1) nz by (simp add: DecodePeerEndpoint_def) (simp add: w)
next
  fix w e
  assume d: "DecodePeerEndpoint w = Inr e"
  then have len: "length w = 38" by (auto simp: DecodePeerEndpoint_def split: if_splits)
  let ?a = "be32 (w ! 32) (w ! (32 + 1)) (w ! (32 + 2)) (w ! (32 + 3))" and ?p = "be16 (w ! 36) (w ! (36 + 1))"
  have e: "e = \<lparr>pe_peer = take 32 w, pe_endpoint = \<lparr>ep_address = ?a, ep_port = ?p\<rparr>\<rparr>" "?a \<noteq> 0" "?p \<noteq> 0"
    using d len by (auto simp: DecodePeerEndpoint_def split: if_splits)
  moreover have "w = take 32 w @ Append32 ?a @ Append16 ?p"
    using endpoint_bytes [of 32 w] len by simp
  ultimately show "length (pe_peer e) = 32 \<and> EncodePeerEndpoint e = Inr w"
    using len by (simp add: EncodePeerEndpoint_def)
qed simp

interpretation derp_challenge: strict_codec EncodeDerpChallenge DecodeDerpChallenge "\<lambda>c. length (dc_serverKey c) = 32" "\<lambda>c. c"
proof unfold_locales
  fix c w
  assume "length (dc_serverKey c) = 32" "EncodeDerpChallenge c = Inr w"
  then show "DecodeDerpChallenge w = Inr c" by (auto simp: EncodeDerpChallenge_def DecodeDerpChallenge_def)
next
  fix w c
  assume "DecodeDerpChallenge w = Inr c"
  then have "length w = 40" "c = \<lparr>dc_requestId = be64 (take 8 w), dc_serverKey = drop 8 w\<rparr>"
    by (auto simp: DecodeDerpChallenge_def split: if_splits)
  then show "length (dc_serverKey c) = 32 \<and> EncodeDerpChallenge c = Inr w"
    by (simp add: EncodeDerpChallenge_def)
qed simp

interpretation derp_response: strict_codec EncodeDerpResponse DecodeDerpResponse "\<lambda>_. True" "\<lambda>r. r"
proof unfold_locales
  fix r w
  assume "EncodeDerpResponse r = Inr w"
  then show "DecodeDerpResponse w = Inr r" by (auto simp: EncodeDerpResponse_def DecodeDerpResponse_def split: if_splits)
next
  fix w r
  assume "DecodeDerpResponse w = Inr r"
  then have "8 < length w" "r = \<lparr>ds_requestId = be64 (take 8 w), ds_clientInfo = drop 8 w\<rparr>"
    by (auto simp: DecodeDerpResponse_def split: if_splits)
  then show "True \<and> EncodeDerpResponse r = Inr w" by (simp add: EncodeDerpResponse_def)
qed simp

lemma decode_candidates_encode:
  "encode_candidates es = Inr w \<Longrightarrow> decode_candidates (pre @ w) (length pre) = Inr es"
proof (induction es arbitrary: pre w)
  case Nil
  then show ?case by (simp add: decode_candidates.simps)
next
  case (Cons e es)
  then obtain v where v: "encode_candidates es = Inr v" "w = Append32 (ep_address e) @ Append16 (ep_port e) @ v"
    "ep_address e \<noteq> 0" "ep_port e \<noteq> 0"
    by (auto simp: bindE_eq_Inr_iff split: if_splits)
  let ?w = "pre @ w"
  have "Read32 ?w (length pre) = (Inr (ep_address e) :: (relay_error, _) res)"
    "Read16 ?w (length pre + 4) = (Inr (ep_port e) :: (relay_error, _) res)"
    using Read32_Append32 [of pre "length pre"] Read16_Append16 [of "pre @ Append32 (ep_address e)" "length pre + 4"]
    unfolding v(2) by simp_all
  moreover have "decode_candidates ?w (length pre + 6) = Inr es"
    using Cons.IH [OF v(1), of "pre @ Append32 (ep_address e) @ Append16 (ep_port e)"] unfolding v(2) by simp
  moreover have "length pre < length ?w" unfolding v(2) by simp
  ultimately show ?case using v(3,4) by (subst decode_candidates.simps) simp
qed

lemma encode_candidates_decode:
  "decode_candidates w i = Inr es \<Longrightarrow> length w = i + 6 * k \<Longrightarrow> encode_candidates es = Inr (drop i w) \<and> length es = k"
proof (induction k arbitrary: i es)
  case 0
  then show ?case by (subst (asm) decode_candidates.simps) auto
next
  case (Suc k)
  let ?a = "be32 (w ! i) (w ! (i + 1)) (w ! (i + 2)) (w ! (i + 3))" and ?p = "be16 (w ! (i + 4)) (w ! (i + 4 + 1))"
  have six: "i + 6 \<le> length w" using Suc.prems(2) by simp
  obtain fs where fs: "decode_candidates w (i + 6) = Inr fs" "?a \<noteq> 0" "?p \<noteq> 0"
    "es = \<lparr>ep_address = ?a, ep_port = ?p\<rparr> # fs"
    using Suc.prems(1) six by (subst (asm) decode_candidates.simps) (auto simp: bindE_eq_Inr_iff split: if_splits)
  have "encode_candidates fs = Inr (drop (i + 6) w)" "length fs = k"
    using Suc.IH [OF fs(1)] Suc.prems(2) by auto
  moreover have "take 6 (drop i w) @ drop (i + 6) w = drop i w"
    using append_take_drop_id [of 6 "drop i w"] by (simp add: add.commute)
  then have "Append32 ?a @ Append16 ?p @ drop (i + 6) w = drop i w"
    unfolding endpoint_bytes [OF six, symmetric] append_assoc .
  ultimately show ?case using fs(2,3) unfolding fs(4) by (simp del: Append_be)
qed

lemma encode_candidates_length: "encode_candidates es = Inr w \<Longrightarrow> length w = 6 * length es"
  by (induction es arbitrary: w) (auto simp: bindE_eq_Inr_iff split: if_splits)

interpretation candidates: strict_codec EncodeServerEndpointCandidates DecodeServerEndpointCandidates "\<lambda>_. True" "\<lambda>e. e"
proof unfold_locales
  fix es w
  assume "EncodeServerEndpointCandidates es = Inr w"
  then have "encode_candidates es = Inr w" "es \<noteq> []" "length es \<le> 16"
    by (auto simp: EncodeServerEndpointCandidates_def split: if_splits)
  moreover from this have "length w = 6 * length es" using encode_candidates_length by blast
  ultimately show "DecodeServerEndpointCandidates w = Inr es"
    using decode_candidates_encode [of es w "[]"] by (auto simp: DecodeServerEndpointCandidates_def)
next
  fix w es
  assume d: "DecodeServerEndpointCandidates w = Inr es"
  then have "decode_candidates w 0 = Inr es" "w \<noteq> []" "length w = 0 + 6 * (length w div 6)" "length w div 6 \<le> 16"
    by (auto simp: DecodeServerEndpointCandidates_def split: if_splits)
  with encode_candidates_decode [of w 0 es "length w div 6"]
  show "True \<and> EncodeServerEndpointCandidates es = Inr w"
    by (auto simp: EncodeServerEndpointCandidates_def)
qed simp

text \<open>
  C37: the fixed-layout messages of the relay are canonical: for peer endpoints, endpoint candidates, DERP
  challenges and DERP responses, the decoder accepts exactly the byte strings the encoder produces and
  gives back the message.
\<close>

theorem relay_codecs_canonical:
  "(DecodePeerEndpoint w = Inr e \<longleftrightarrow> length (pe_peer e) = 32 \<and> EncodePeerEndpoint e = Inr w) \<and>
   (DecodeServerEndpointCandidates w = Inr es \<longleftrightarrow> EncodeServerEndpointCandidates es = Inr w) \<and>
   (DecodeDerpChallenge w = Inr c \<longleftrightarrow> length (dc_serverKey c) = 32 \<and> EncodeDerpChallenge c = Inr w) \<and>
   (DecodeDerpResponse w = Inr r \<longleftrightarrow> EncodeDerpResponse r = Inr w)"
  using peer_endpoint.dec_iff_enc candidates.dec_iff_enc derp_challenge.dec_iff_enc derp_response.dec_iff_enc
  by auto

end
