(* ===== verification/Byte_Stream.thy ===== *)
theory Byte_Stream
  imports Relay_Frame
begin

text \<open>
  The interface \<^verbatim>\<open>ByteStream\<close> of \<^verbatim>\<open>include/tailgate/base/ByteStream.h\<close>.

  A stream is a script of what the transport does: \<open>st_input\<close> holds the chunks that arrive (\<open>None\<close>: nothing
  available yet, \<open>Some []\<close>: closed), \<open>st_writes\<close> how many bytes each write may take (\<open>None\<close>: would block,
  \<open>Some 0\<close>: closed), \<open>st_written\<close> collects what was written.  At the end of either script the stream
  blocks.  A read returns at most the requested number of bytes of the next chunk and leaves the rest,
  so a read of zero bytes returns the empty vector.
\<close>

section \<open>ByteStream.h\<close>

record byte_stream =
  st_input :: "byte list option list"
  st_writes :: "nat option list"
  st_written :: "byte list"

definition TryReadSome :: "nat \<Rightarrow> byte_stream \<Rightarrow> byte_stream \<times> byte list option" where
  "TryReadSome maxBytes s =
     (case st_input s of
        [] \<Rightarrow> (s, None)
      | None # rest \<Rightarrow> (s\<lparr>st_input := rest\<rparr>, None)
      | Some chunk # rest \<Rightarrow>
          if chunk = [] then (s, Some [])
          else if length chunk \<le> maxBytes then (s\<lparr>st_input := rest\<rparr>, Some chunk)
          else (s\<lparr>st_input := Some (drop maxBytes chunk) # rest\<rparr>, Some (take maxBytes chunk)))"

definition TryWriteSome :: "byte list \<Rightarrow> byte_stream \<Rightarrow> byte_stream \<times> nat option" where
  "TryWriteSome data s =
     (case st_writes s of
        [] \<Rightarrow> (s, None)
      | None # rest \<Rightarrow> (s\<lparr>st_writes := rest\<rparr>, None)
      | Some n # rest \<Rightarrow>
          (s\<lparr>st_writes := rest, st_written := st_written s @ take n data\<rparr>, Some (min n (length data))))"

section \<open>ByteStream.h: blocking reads and writes\<close>

definition ReadSome :: "nat \<Rightarrow> byte_stream \<Rightarrow> (relay_error, byte_stream \<times> byte list) res" where
  "ReadSome maxBytes s =
     (case TryReadSome maxBytes s of
        (s', None) \<Rightarrow> Inl (Throw (runtime_error ''Stream would block.''))
      | (s', Some part) \<Rightarrow> Inr (s', part))"

function read_exact :: "nat \<Rightarrow> byte list \<Rightarrow> byte_stream \<Rightarrow> (relay_error, byte_stream \<times> byte list) res" where
  "read_exact byteCount result s =
     (if length result < byteCount then
        bindE (ReadSome (byteCount - length result) s) (\<lambda>(s', part).
          if part = [] then Inl (Throw (runtime_error ''Stream closed before enough bytes were read.''))
          else read_exact byteCount (result @ part) s')
      else Inr (s, result))"
  by pat_completeness auto
termination
  by (relation "measure (\<lambda>(n, result, _). n - length result)") (auto simp flip: length_greater_0_conv)

declare read_exact.simps [simp del]

definition ReadExact :: "nat \<Rightarrow> byte_stream \<Rightarrow> (relay_error, byte_stream \<times> byte list) res" where
  "ReadExact byteCount s = read_exact byteCount [] s"

function write_all :: "byte list \<Rightarrow> nat \<Rightarrow> byte_stream \<Rightarrow> (relay_error, byte_stream) res" where
  "write_all data offset s =
     (if offset < length data then
        (case TryWriteSome (drop offset data) s of
           (s', None) \<Rightarrow> Inl (Throw (runtime_error ''Stream would block.''))
         | (s', Some written) \<Rightarrow>
             if written = 0 then Inl (Throw (runtime_error ''Stream closed during write.''))
             else write_all data (offset + written) s')
      else Inr s)"
  by pat_completeness auto
termination
  by (relation "measure (\<lambda>(data, offset, _). length data - offset)") auto

declare write_all.simps [simp del]

definition WriteAll :: "byte list \<Rightarrow> byte_stream \<Rightarrow> (relay_error, byte_stream) res" where
  "WriteAll data s = write_all data 0 s"

section \<open>The bytes that arrive\<close>

definition chunk_bytes :: "byte list option list \<Rightarrow> byte list" where
  "chunk_bytes script = concat (map (\<lambda>c. case c of None \<Rightarrow> [] | Some b \<Rightarrow> b) script)"

lemma TryReadSome_bytes:
  "TryReadSome n s = (s', r) \<Longrightarrow>
     chunk_bytes (st_input s) = (case r of None \<Rightarrow> [] | Some d \<Rightarrow> d) @ chunk_bytes (st_input s') \<and>
     st_writes s' = st_writes s \<and> st_written s' = st_written s"
  by (auto simp: TryReadSome_def chunk_bytes_def split: list.splits option.splits if_splits)

lemma TryReadSome_shrinks:
  "TryReadSome n s = (s', Some input) \<Longrightarrow> input \<noteq> [] \<Longrightarrow> length (chunk_bytes (st_input s')) < length (chunk_bytes (st_input s))"
  by (drule TryReadSome_bytes) simp

lemma ReadSome_shrinks:
  "ReadSome n s = Inr (s', input) \<Longrightarrow> input \<noteq> [] \<Longrightarrow> length (chunk_bytes (st_input s')) < length (chunk_bytes (st_input s))"
  by (auto simp: ReadSome_def split: prod.splits option.splits intro: TryReadSome_shrinks)

end
