(* ===== verification/Derp_Client.thy ===== *)
theory Derp_Client
  imports Relay_Codec Byte_Stream
begin

text \<open>
  The DERP wire protocol of \<^verbatim>\<open>src/core/derp/Client.cpp\<close> over the \<^verbatim>\<open>ByteStream\<close> interface of
  \<^verbatim>\<open>include/tailgate/base/ByteStream.h\<close>.
\<close>

section \<open>Client.cpp\<close>

record derp_packet =
  dp_Source :: key32
  dp_Payload :: "byte list"

record derp_frame =
  df_Type :: byte
  df_Payload :: "byte list"

record derp_client =
  cl_Stream :: byte_stream
  cl_ReceiveBuffer :: "byte list"
  cl_SendBuffer :: "byte list"
  cl_SendOffset :: nat

definition SendPacketFrame :: byte where "SendPacketFrame = 4"
definition ReceivePacketFrame :: byte where "ReceivePacketFrame = 5"
definition PreferredFrame :: byte where "PreferredFrame = 7"
definition PingFrame :: byte where "PingFrame = 18"
definition PongFrame :: byte where "PongFrame = 19"
definition MaximumFrameSize :: nat where "MaximumFrameSize = 1048576"
definition FrameHeaderSize :: nat where "FrameHeaderSize = 5"
definition MaximumReceiveBatchFrames :: nat where "MaximumReceiveBatchFrames = 256"

definition derp_size :: "byte list \<Rightarrow> (relay_error, nat) res" where
  "derp_size buffer = bindE (Read32 buffer 1) (\<lambda>size. Inr (unat size))"

definition HasPendingOutput :: "derp_client \<Rightarrow> bool" where
  "HasPendingOutput c \<longleftrightarrow> cl_SendOffset c < length (cl_SendBuffer c)"

function Flush :: "derp_client \<Rightarrow> (relay_error, derp_client) res" where
  "Flush c =
     (if cl_SendOffset c < length (cl_SendBuffer c) then
        (case TryWriteSome (drop (cl_SendOffset c) (cl_SendBuffer c)) (cl_Stream c) of
           (s, None) \<Rightarrow> Inr (c\<lparr>cl_Stream := s\<rparr>)
         | (s, Some written) \<Rightarrow>
             if written = 0 then Inl (Throw (runtime_error ''DERP stream closed during write.''))
             else Flush (c\<lparr>cl_Stream := s, cl_SendOffset := cl_SendOffset c + written\<rparr>))
      else Inr (c\<lparr>cl_SendBuffer := [], cl_SendOffset := 0\<rparr>))"
  by pat_completeness auto
termination
  by (relation "measure (\<lambda>c. length (cl_SendBuffer c) - cl_SendOffset c)")
    (auto simp: TryWriteSome_def split: list.splits option.splits)

declare Flush.simps [simp del]

definition WriteFrame :: "byte \<Rightarrow> byte list \<Rightarrow> byte list \<Rightarrow> derp_client \<Rightarrow> (relay_error, derp_client) res" where
  "WriteFrame type payload pre c =
     (if length pre > MaximumFrameSize \<or> length payload > MaximumFrameSize - length pre
      then Inl (Throw (runtime_error ''DERP frame is too large.'')) else
      let size = word_of_nat (length pre + length payload) :: u32;
          header = type # Append32 size in
      Flush (c\<lparr>cl_SendBuffer := cl_SendBuffer c @ header @ pre @ payload\<rparr>))"

definition Client_Send :: "key32 \<Rightarrow> byte list \<Rightarrow> derp_client \<Rightarrow> (relay_error, derp_client) res" where
  "Client_Send destination packet = WriteFrame SendPacketFrame packet destination"

definition SendPing :: "byte list \<Rightarrow> derp_client \<Rightarrow> (relay_error, derp_client) res" where
  "SendPing payload = WriteFrame PingFrame payload []"

definition SetPreferred :: "bool \<Rightarrow> derp_client \<Rightarrow> (relay_error, derp_client) res" where
  "SetPreferred preferred = WriteFrame PreferredFrame [if preferred then 1 else 0] []"

text \<open>\<open>buffered\<close> is \<^verbatim>\<open>HasBufferedInput\<close> of the stream.\<close>

definition HasBufferedInput :: "(byte_stream \<Rightarrow> bool) \<Rightarrow> derp_client \<Rightarrow> (relay_error, bool) res" where
  "HasBufferedInput buffered c =
     (if length (cl_ReceiveBuffer c) \<ge> FrameHeaderSize then
        bindE (derp_size (cl_ReceiveBuffer c)) (\<lambda>size.
          Inr (length (cl_ReceiveBuffer c) \<ge> FrameHeaderSize + size \<or> buffered (cl_Stream c)))
      else Inr (buffered (cl_Stream c)))"

text \<open>The packet a received frame carries.\<close>

definition frame_packet :: "byte \<Rightarrow> byte list \<Rightarrow> derp_packet option" where
  "frame_packet type payload =
     (if type = ReceivePacketFrame \<and> length payload \<ge> 32
      then Some \<lparr>dp_Source = take 32 payload, dp_Payload = drop 32 payload\<rparr> else None)"

text \<open>
  \<^verbatim>\<open>ReceiveAvailable\<close>: at most one read, at most one frame.  A frame that is answered or ignored returns
  nothing.
\<close>

definition hasCompleteFrame :: "byte list \<Rightarrow> (relay_error, bool) res" where
  "hasCompleteFrame buffer =
     (if length buffer < FrameHeaderSize then Inr False
      else bindE (derp_size buffer) (\<lambda>size. Inr (length buffer \<ge> FrameHeaderSize + size)))"

definition receive_frame :: "derp_client \<Rightarrow> (relay_error, derp_client \<times> derp_packet option) res" where
  "receive_frame c =
     (let buffer = cl_ReceiveBuffer c in
      if length buffer < FrameHeaderSize then Inr (c, None) else
      bindE (derp_size buffer) (\<lambda>size.
      if size > MaximumFrameSize then Inl (Throw (runtime_error ''DERP frame exceeds the protocol limit.''))
      else if length buffer < FrameHeaderSize + size then Inr (c, None) else
      bindE (at buffer 0) (\<lambda>type. bindE (slice buffer FrameHeaderSize size) (\<lambda>payload.
        let c' = c\<lparr>cl_ReceiveBuffer := drop (FrameHeaderSize + size) buffer\<rparr> in
        if type = PingFrame then bindE (WriteFrame PongFrame payload [] c') (\<lambda>c''. Inr (c'', None))
        else Inr (c', frame_packet type payload)))))"

definition ReceiveAvailable :: "derp_client \<Rightarrow> (relay_error, derp_client \<times> derp_packet option) res" where
  "ReceiveAvailable c =
     bindE (hasCompleteFrame (cl_ReceiveBuffer c)) (\<lambda>complete.
     if complete then receive_frame c else
     (case TryReadSome MaximumFrameSize (cl_Stream c) of
        (s, None) \<Rightarrow> Inr (c\<lparr>cl_Stream := s\<rparr>, None)
      | (s, Some data) \<Rightarrow>
          if data = [] then Inl (Throw (runtime_error ''DERP stream closed.''))
          else receive_frame (c\<lparr>cl_Stream := s, cl_ReceiveBuffer := cl_ReceiveBuffer c @ data\<rparr>)))"

text \<open>
  One iteration of the loop of \<^verbatim>\<open>ReceiveAvailableBatch\<close>: a complete frame is taken from the buffer, otherwise
  the stream is read; \<open>BatchStop\<close> is the \<^verbatim>\<open>break\<close>.
\<close>

datatype batch = BatchFrame "derp_packet option" | BatchRead | BatchStop

text \<open>The room left in the receive buffer; the subtraction of \<^verbatim>\<open>size_t\<close> values wraps around.\<close>

definition batch_room :: "byte list \<Rightarrow> nat" where
  "batch_room buffer = (if length buffer \<le> MaximumFrameSize then MaximumFrameSize - length buffer
     else 2 ^ 64 + MaximumFrameSize - length buffer)"

definition batch_read :: "derp_client \<Rightarrow> (relay_error, derp_client \<times> batch) res" where
  "batch_read c =
     (case TryReadSome (batch_room (cl_ReceiveBuffer c)) (cl_Stream c) of
        (s, None) \<Rightarrow> Inr (c\<lparr>cl_Stream := s\<rparr>, BatchStop)
      | (s, Some data) \<Rightarrow>
          if data = [] then Inl (Throw (runtime_error ''DERP stream closed.''))
          else Inr (c\<lparr>cl_Stream := s, cl_ReceiveBuffer := cl_ReceiveBuffer c @ data\<rparr>, BatchRead))"

definition batch_round :: "derp_client \<Rightarrow> (relay_error, derp_client \<times> batch) res" where
  "batch_round c =
     (let buffer = cl_ReceiveBuffer c in
      if length buffer \<ge> FrameHeaderSize then
        bindE (derp_size buffer) (\<lambda>size.
        if size > MaximumFrameSize then Inl (Throw (runtime_error ''DERP frame exceeds the protocol limit.''))
        else if length buffer \<ge> FrameHeaderSize + size then
          bindE (at buffer 0) (\<lambda>type. bindE (slice buffer FrameHeaderSize size) (\<lambda>payload.
            let c' = c\<lparr>cl_ReceiveBuffer := drop (FrameHeaderSize + size) buffer\<rparr> in
            if type = PingFrame then bindE (WriteFrame PongFrame payload [] c') (\<lambda>c''. Inr (c'', BatchFrame None))
            else Inr (c', BatchFrame (frame_packet type payload))))
        else batch_read c)
      else batch_read c)"

primrec receive_batch :: "nat \<Rightarrow> derp_client \<Rightarrow> (relay_error, derp_client \<times> derp_packet list) res" where
  "receive_batch 0 c = Inr (c, [])"
| "receive_batch (Suc n) c =
     bindE (batch_round c) (\<lambda>(c', b). case b of
       BatchStop \<Rightarrow> Inr (c', [])
     | BatchRead \<Rightarrow> receive_batch n c'
     | BatchFrame p \<Rightarrow> bindE (receive_batch n c') (\<lambda>(c'', ps). Inr (c'', (case p of None \<Rightarrow> ps | Some q \<Rightarrow> q # ps))))"

definition ReceiveAvailableBatch :: "derp_client \<Rightarrow> (relay_error, derp_client \<times> derp_packet list) res" where
  "ReceiveAvailableBatch = receive_batch MaximumReceiveBatchFrames"

section \<open>Sending: nothing is lost, duplicated or reordered\<close>

text \<open>What the client has handed to the stream so far followed by what it still holds.\<close>

definition sent :: "derp_client \<Rightarrow> byte list" where
  "sent c = st_written (cl_Stream c) @ drop (cl_SendOffset c) (cl_SendBuffer c)"

definition derp_encoding :: "derp_frame \<Rightarrow> byte list" where
  "derp_encoding f = df_Type f # Append32 (word_of_nat (length (df_Payload f))) @ df_Payload f"

definition client_ok :: "derp_client \<Rightarrow> bool" where
  "client_ok c \<longleftrightarrow> cl_SendOffset c \<le> length (cl_SendBuffer c)"

lemma Flush_sent:
  "Flush c = Inr c' \<Longrightarrow> client_ok c \<Longrightarrow>
     sent c' = sent c \<and> client_ok c' \<and> cl_ReceiveBuffer c' = cl_ReceiveBuffer c \<and>
     st_input (cl_Stream c') = st_input (cl_Stream c)"
proof (induction c rule: Flush.induct)
  case (1 c)
  let ?rest = "drop (cl_SendOffset c) (cl_SendBuffer c)"
  show ?case
  proof (cases "cl_SendOffset c < length (cl_SendBuffer c)")
    case False
    then show ?thesis using 1(2,3) by (subst (asm) Flush.simps) (auto simp: sent_def client_ok_def)
  next
    case True
    obtain s w where w: "TryWriteSome ?rest (cl_Stream c) = (s, w)" by fastforce
    have s: "st_input s = st_input (cl_Stream c)" "w = None \<Longrightarrow> st_written s = st_written (cl_Stream c)"
      "\<And>n. w = Some n \<Longrightarrow> n \<le> length ?rest \<and> st_written s = st_written (cl_Stream c) @ take n ?rest"
      using w by (auto simp: TryWriteSome_def min_def split: list.splits option.splits if_splits)
    show ?thesis
    proof (cases w)
      case None
      then show ?thesis using 1(2,3) True w s by (subst (asm) Flush.simps) (auto simp: sent_def client_ok_def)
    next
      case (Some n)
      let ?c = "c\<lparr>cl_Stream := s, cl_SendOffset := cl_SendOffset c + n\<rparr>"
      have n: "n \<noteq> 0" "Flush ?c = Inr c'"
        using 1(2) True w Some by (subst (asm) Flush.simps, simp split: if_splits)+
      have "sent ?c = sent c" "client_ok ?c"
        using s(3) [OF Some] append_take_drop_id [of n ?rest] 1(3)
        by (auto simp: sent_def client_ok_def add.commute)
      then show ?thesis using 1(1) [OF True w [symmetric] Some n] s(1) by simp
    qed
  qed
qed

lemma WriteFrame_sent:
  assumes "WriteFrame type payload pre c = Inr c'" and "client_ok c"
  shows "sent c' = sent c @ derp_encoding \<lparr>df_Type = type, df_Payload = pre @ payload\<rparr> \<and> client_ok c' \<and>
    cl_ReceiveBuffer c' = cl_ReceiveBuffer c \<and> st_input (cl_Stream c') = st_input (cl_Stream c)"
  using assms Flush_sent [of _ c'] unfolding WriteFrame_def Let_def
  by (force simp: sent_def client_ok_def derp_encoding_def split: if_splits)

lemma Flush_Inr:
  "Some 0 \<notin> set (st_writes (cl_Stream c)) \<Longrightarrow>
     \<exists>c'. Flush c = Inr c' \<and> Some 0 \<notin> set (st_writes (cl_Stream c'))"
proof (induction c rule: Flush.induct)
  case (1 c)
  let ?rest = "drop (cl_SendOffset c) (cl_SendBuffer c)"
  show ?case
  proof (cases "cl_SendOffset c < length (cl_SendBuffer c)")
    case False
    then show ?thesis using 1(2) by (subst Flush.simps) auto
  next
    case True
    obtain s w where w: "TryWriteSome ?rest (cl_Stream c) = (s, w)" by fastforce
    have s: "Some 0 \<notin> set (st_writes s)" "w \<noteq> Some 0"
      using w True 1(2) by (auto simp: TryWriteSome_def split: list.splits option.splits)
    show ?thesis
    proof (cases w)
      case None
      then show ?thesis using True w s by (subst Flush.simps) simp
    next
      case (Some n)
      then have "Flush c = Flush (c\<lparr>cl_Stream := s, cl_SendOffset := cl_SendOffset c + n\<rparr>)"
        using True w s by (subst Flush.simps) simp
      then show ?thesis using 1(1) [OF True w [symmetric] Some] s Some by simp
    qed
  qed
qed

lemma Flush_safe: "safe (Flush c)"
proof (induction c rule: Flush.induct)
  case (1 c)
  then show ?case by (subst Flush.simps) (auto split: prod.splits option.splits)
qed

lemma WriteFrame_safe: "safe (WriteFrame type payload pre c)"
  by (simp add: WriteFrame_def Let_def Flush_safe)

section \<open>Receiving: the frames of the stream, however it is cut\<close>

definition derp_frame_ok :: "derp_frame \<Rightarrow> bool" where
  "derp_frame_ok f \<longleftrightarrow> length (df_Payload f) \<le> MaximumFrameSize"

definition derp_parse :: "byte list \<Rightarrow> nat \<Rightarrow> (relay_error, (derp_frame \<times> nat) option) res" where
  "derp_parse buffer offset =
     (let b = drop offset buffer in
      if length b < FrameHeaderSize then Inr None else
      bindE (derp_size b) (\<lambda>size.
      if size > MaximumFrameSize then Inl (Throw (runtime_error ''DERP frame exceeds the protocol limit.''))
      else if length b < FrameHeaderSize + size then Inr None
      else Inr (Some (\<lparr>df_Type = hd b, df_Payload = take size (drop FrameHeaderSize b)\<rparr>, offset + FrameHeaderSize + size))))"

lemma batch_round_parse:
  "batch_round c = bindE (derp_parse (cl_ReceiveBuffer c) 0) (\<lambda>r. case r of
     None \<Rightarrow> batch_read c
   | Some (f, n) \<Rightarrow>
       let c' = c\<lparr>cl_ReceiveBuffer := drop n (cl_ReceiveBuffer c)\<rparr> in
       if df_Type f = PingFrame then bindE (WriteFrame PongFrame (df_Payload f) [] c') (\<lambda>c''. Inr (c'', BatchFrame None))
       else Inr (c', BatchFrame (frame_packet (df_Type f) (df_Payload f))))"
  by (cases "derp_size (cl_ReceiveBuffer c)")
    (auto simp: batch_round_def derp_parse_def Let_def slice_def at_def hd_conv_nth FrameHeaderSize_def)

lemma derp_header: "length (df_Payload f) \<le> MaximumFrameSize \<Longrightarrow>
  derp_size (derp_encoding f @ rest) = Inr (length (df_Payload f))"
  by (simp add: derp_size_def derp_encoding_def Read32_def at_def Append32_def MaximumFrameSize_def
      be32_Append32 [unfolded Append32_def] unat_of_nat)

lemma length_derp_encoding [simp]: "length (derp_encoding f) = FrameHeaderSize + length (df_Payload f)"
  by (simp add: derp_encoding_def FrameHeaderSize_def)

interpretation derp_stream: message_stream derp_encoding derp_frame_ok derp_parse
proof unfold_locales
  fix f pre rest
  assume "derp_frame_ok f"
  then show "derp_parse (pre @ derp_encoding f @ rest) (length pre) = Inr (Some (f, length pre + length (derp_encoding f)))"
    using derp_header [of f rest]
    by (cases f) (auto simp: derp_parse_def derp_frame_ok_def Let_def, auto simp: derp_encoding_def FrameHeaderSize_def)
next
  fix buffer offset f offset'
  assume p: "derp_parse buffer offset = Inr (Some (f, offset'))"
  define b where "b = drop offset buffer"
  let ?n = "be32 (b ! 1) (b ! 2) (b ! 3) (b ! 4)"
  have five: "5 \<le> length b" using p by (auto simp: derp_parse_def b_def Let_def FrameHeaderSize_def split: if_splits)
  then have "derp_size b = Inr (unat ?n)" by (simp add: derp_size_def eval_nat_numeral)
  then have n: "unat ?n \<le> MaximumFrameSize" "5 + unat ?n \<le> length b" "offset' = offset + 5 + unat ?n"
    "f = \<lparr>df_Type = hd b, df_Payload = take (unat ?n) (drop 5 b)\<rparr>"
    using p five unfolding derp_parse_def Let_def b_def [symmetric] FrameHeaderSize_def by (auto split: if_splits)
  have "take 5 b = [b ! 0, b ! 1, b ! 2, b ! 3, b ! 4]"
    using five by (auto intro!: nth_equalityI simp: less_Suc_eq numeral_eq_Suc)
  moreover have "derp_encoding f = hd b # Append32 ?n @ take (unat ?n) (drop 5 b)"
    using n five by (simp add: derp_encoding_def min_absorb2)
  moreover have "hd b = b ! 0" using five by (intro hd_conv_nth) auto
  ultimately have "derp_encoding f = take (5 + unat ?n) b"
    by (simp add: take_add)
  moreover have "length (derp_encoding f) = 5 + unat ?n" using n(2,4) by (simp add: FrameHeaderSize_def)
  ultimately show "derp_frame_ok f \<and> offset' = offset + length (derp_encoding f) \<and> offset' \<le> length buffer \<and>
      take (length (derp_encoding f)) (drop offset buffer) = derp_encoding f"
    using n five unfolding b_def [symmetric] by (auto simp: derp_frame_ok_def b_def)
qed (simp add: derp_encoding_def)

text \<open>The bytes that have arrived, or will, and are not yet consumed.\<close>

definition unconsumed :: "derp_client \<Rightarrow> byte list" where
  "unconsumed c = cl_ReceiveBuffer c @ chunk_bytes (st_input (cl_Stream c))"

definition frame_packets :: "derp_frame list \<Rightarrow> derp_packet list" where
  "frame_packets fs = List.map_filter (\<lambda>f. frame_packet (df_Type f) (df_Payload f)) fs"

definition pongs :: "derp_frame list \<Rightarrow> derp_frame list" where
  "pongs fs = map (\<lambda>f. f\<lparr>df_Type := PongFrame\<rparr>) (filter (\<lambda>f. df_Type f = PingFrame) fs)"

lemma frame_packets_simps [simp]:
  "frame_packets [] = []"
  "frame_packets (f # fs) =
     (case frame_packet (df_Type f) (df_Payload f) of None \<Rightarrow> frame_packets fs | Some p \<Rightarrow> p # frame_packets fs)"
  by (simp_all add: frame_packets_def List.map_filter_def split: option.splits)

lemma pongs_simps [simp]:
  "pongs [] = []"
  "pongs (f # fs) = (if df_Type f = PingFrame then f\<lparr>df_Type := PongFrame\<rparr> # pongs fs else pongs fs)"
  by (simp_all add: pongs_def)

lemma frame_packet_ping [simp]: "frame_packet PingFrame payload = None"
  by (simp add: frame_packet_def PingFrame_def ReceivePacketFrame_def)

text \<open>What one iteration does: it consumes exactly one frame, or moves bytes from the stream to the buffer.\<close>

lemma batch_round_cases [consumes 2, case_names Frame Read Stop]:
  assumes "batch_round c = Inr (c', b)" and "client_ok c"
  obtains (Frame) f where "b = BatchFrame (frame_packet (df_Type f) (df_Payload f))" "derp_frame_ok f"
      "cl_ReceiveBuffer c = derp_encoding f @ cl_ReceiveBuffer c'"
      "st_input (cl_Stream c') = st_input (cl_Stream c)"
      "sent c' = sent c @ concat (map derp_encoding (pongs [f]))" "client_ok c'"
  | (Read) data where "b = BatchRead" "data \<noteq> []" "cl_ReceiveBuffer c' = cl_ReceiveBuffer c @ data"
      "chunk_bytes (st_input (cl_Stream c)) = data @ chunk_bytes (st_input (cl_Stream c'))"
      "sent c' = sent c" "client_ok c'"
  | (Stop) "b = BatchStop" "cl_ReceiveBuffer c' = cl_ReceiveBuffer c"
      "chunk_bytes (st_input (cl_Stream c)) = chunk_bytes (st_input (cl_Stream c'))"
      "sent c' = sent c" "client_ok c'"
proof -
  obtain r where r: "derp_parse (cl_ReceiveBuffer c) 0 = Inr r"
    using assms(1) unfolding batch_round_parse by (auto simp: bindE_eq_Inr_iff)
  show thesis
  proof (cases r)
    case None
    then have "batch_read c = Inr (c', b)" using assms(1) r unfolding batch_round_parse by simp
    then show thesis
      using Read Stop assms(2) TryReadSome_bytes [of "batch_room (cl_ReceiveBuffer c)" "cl_Stream c"]
      by (auto simp: batch_read_def sent_def client_ok_def split: prod.splits option.splits if_splits)
  next
    case (Some fn)
    obtain f n where fn: "fn = (f, n)" by fastforce
    let ?c = "c\<lparr>cl_ReceiveBuffer := drop n (cl_ReceiveBuffer c)\<rparr>"
    have f: "derp_frame_ok f" "n = length (derp_encoding f)" "take n (cl_ReceiveBuffer c) = derp_encoding f"
      using derp_stream.parse_Some [of "cl_ReceiveBuffer c" 0 f n] r Some fn by auto
    have buf: "cl_ReceiveBuffer c = derp_encoding f @ drop n (cl_ReceiveBuffer c)"
      using append_take_drop_id [of n "cl_ReceiveBuffer c"] f(3) by simp
    have c: "client_ok ?c" "sent ?c = sent c" using assms(2) by (simp_all add: client_ok_def sent_def)
    show thesis
    proof (cases "df_Type f = PingFrame")
      case True
      then have "WriteFrame PongFrame (df_Payload f) [] ?c = Inr c'" "b = BatchFrame None"
        using assms(1) r Some fn unfolding batch_round_parse by (auto simp: bindE_eq_Inr_iff Let_def)
      with WriteFrame_sent [OF this(1) c(1)] show thesis
        using Frame [of f] f(1) buf c True by (cases f) simp
    next
      case False
      then have "c' = ?c" "b = BatchFrame (frame_packet (df_Type f) (df_Payload f))"
        using assms(1) r Some fn unfolding batch_round_parse by (auto simp: Let_def)
      then show thesis using Frame [of f] f(1) buf c False by simp
    qed
  qed
qed

lemma receive_batch_sound:
  "receive_batch n c = Inr (c', ps) \<Longrightarrow> client_ok c \<Longrightarrow>
     \<exists>fs. list_all derp_frame_ok fs \<and> unconsumed c = concat (map derp_encoding fs) @ unconsumed c' \<and>
       ps = frame_packets fs \<and> sent c' = sent c @ concat (map derp_encoding (pongs fs)) \<and> client_ok c'"
proof (induction n arbitrary: c ps)
  case 0
  then show ?case by (intro exI [of _ "[]"]) simp
next
  case (Suc n)
  obtain c1 b where b: "batch_round c = Inr (c1, b)" using Suc.prems(1) by (auto simp: bindE_eq_Inr_iff)
  from b Suc.prems(2) show ?case
  proof (cases rule: batch_round_cases)
    case (Frame f)
    then obtain qs where qs: "receive_batch n c1 = Inr (c', qs)"
      "ps = (case frame_packet (df_Type f) (df_Payload f) of None \<Rightarrow> qs | Some q \<Rightarrow> q # qs)"
      using Suc.prems(1) b by (auto simp: bindE_eq_Inr_iff)
    with Suc.IH [OF qs(1) Frame(6)] obtain fs where "list_all derp_frame_ok fs"
      "unconsumed c1 = concat (map derp_encoding fs) @ unconsumed c'" "qs = frame_packets fs"
      "sent c' = sent c1 @ concat (map derp_encoding (pongs fs))" "client_ok c'" by blast
    then show ?thesis using Frame qs(2)
      by (intro exI [of _ "f # fs"]) (auto simp: unconsumed_def)
  next
    case (Read data)
    then have "receive_batch n c1 = Inr (c', ps)" using Suc.prems(1) b by simp
    with Suc.IH [OF this Read(6)] show ?thesis using Read by (simp add: unconsumed_def)
  next
    case Stop
    then show ?thesis using Suc.prems(1) b by (intro exI [of _ "[]"]) (simp add: unconsumed_def)
  qed
qed

text \<open>A transport that delivers every byte and takes every write, in pieces of any size.\<close>

definition stream_ok :: "derp_client \<Rightarrow> bool" where
  "stream_ok c \<longleftrightarrow> client_ok c \<and> Some 0 \<notin> set (st_writes (cl_Stream c)) \<and>
     None \<notin> set (st_input (cl_Stream c)) \<and> Some [] \<notin> set (st_input (cl_Stream c))"

definition small_frame :: "derp_frame \<Rightarrow> bool" where
  "small_frame f \<longleftrightarrow> FrameHeaderSize + length (df_Payload f) \<le> MaximumFrameSize"

lemma small_frame_ok: "small_frame f \<Longrightarrow> derp_frame_ok f"
  by (simp add: small_frame_def derp_frame_ok_def)

lemma derp_parse_partial:
  assumes "derp_frame_ok f" and "buffer @ rest = derp_encoding f @ after" and "length buffer < length (derp_encoding f)"
  shows "derp_parse buffer 0 = Inr None"
proof (cases "length buffer < FrameHeaderSize")
  case False
  have "Read32 buffer 1 = (Read32 (buffer @ rest) 1 :: (relay_error, _) res)"
    using False by (simp add: Read32_def at_def nth_append FrameHeaderSize_def)
  then have "derp_size buffer = derp_size (derp_encoding f @ after)"
    unfolding derp_size_def assms(2) by simp
  then show ?thesis
    using assms(1,3) False derp_header [of f after] by (simp add: derp_parse_def derp_frame_ok_def)
qed (simp add: derp_parse_def)

lemma batch_round_progress:
  assumes "stream_ok c" and "unconsumed c = concat (map derp_encoding (f # fs))" and "small_frame f"
  shows "\<exists>c' b. batch_round c = Inr (c', b) \<and> b \<noteq> BatchStop \<and> stream_ok c'"
proof (cases "length (derp_encoding f) \<le> length (cl_ReceiveBuffer c)")
  case True
  let ?B = "cl_ReceiveBuffer c" and ?n = "length (derp_encoding f)"
  have "take ?n (unconsumed c) = derp_encoding f" using assms(2) by simp
  then have "take ?n ?B = derp_encoding f" using True by (simp add: unconsumed_def)
  then have "?B = derp_encoding f @ drop ?n ?B" by (metis append_take_drop_id)
  then have p: "derp_parse ?B 0 = Inr (Some (f, ?n))"
    using derp_stream.parse_enc [OF small_frame_ok [OF assms(3)], of "[]" "drop ?n ?B"] by simp
  let ?c = "c\<lparr>cl_ReceiveBuffer := drop ?n ?B\<rparr>"
  have ok: "stream_ok ?c" using assms(1) by (simp add: stream_ok_def client_ok_def)
  have "\<exists>c'. WriteFrame PongFrame (df_Payload f) [] ?c = Inr c' \<and> stream_ok c'"
  proof -
    have w: "WriteFrame PongFrame (df_Payload f) [] ?c =
        Flush (?c\<lparr>cl_SendBuffer := cl_SendBuffer c @ (PongFrame # Append32 (word_of_nat (length (df_Payload f)))) @ [] @ df_Payload f\<rparr>)"
      using small_frame_ok [OF assms(3)] by (simp add: WriteFrame_def derp_frame_ok_def)
    then obtain c' where "WriteFrame PongFrame (df_Payload f) [] ?c = Inr c'" "Some 0 \<notin> set (st_writes (cl_Stream c'))"
      using Flush_Inr [of "?c\<lparr>cl_SendBuffer := _\<rparr>"] ok unfolding stream_ok_def by force
    then show ?thesis using WriteFrame_sent [of PongFrame "df_Payload f" "[]" ?c c'] ok
      by (auto simp: stream_ok_def)
  qed
  then show ?thesis using ok unfolding batch_round_parse p by (auto simp: Let_def)
next
  case False
  let ?B = "cl_ReceiveBuffer c" and ?I = "st_input (cl_Stream c)"
  have p: "derp_parse ?B 0 = Inr None"
    using assms(2) False small_frame_ok [OF assms(3)] unfolding unconsumed_def
    by (intro derp_parse_partial [where rest = "chunk_bytes ?I"]) auto
  have "?I \<noteq> []"
  proof
    assume "?I = []"
    then have "?B = concat (map derp_encoding (f # fs))" using assms(2) by (simp add: unconsumed_def chunk_bytes_def)
    then show False using False by simp
  qed
  then obtain ch rest where I: "?I = Some ch # rest" "ch \<noteq> []"
    using assms(1) by (cases ?I; cases "hd ?I") (auto simp: stream_ok_def)
  have space: "0 < MaximumFrameSize - length ?B" using False assms(3) by (simp add: small_frame_def)
  have "batch_round c = batch_read c" unfolding batch_round_parse p by simp
  moreover have "\<exists>c' b. batch_read c = Inr (c', b) \<and> b \<noteq> BatchStop \<and> stream_ok c'"
    using I space assms(1) by (auto simp: batch_read_def batch_room_def TryReadSome_def stream_ok_def client_ok_def)
  ultimately show ?thesis by simp
qed

definition work :: "derp_client \<Rightarrow> nat" where
  "work c = length (cl_ReceiveBuffer c) + 2 * length (chunk_bytes (st_input (cl_Stream c)))"

lemma work_0: "work c = 0 \<longleftrightarrow> unconsumed c = []"
  by (simp add: work_def unconsumed_def)

lemma receive_batch_progress:
  "stream_ok c \<Longrightarrow> unconsumed c = concat (map derp_encoding fs) \<Longrightarrow> list_all small_frame fs \<Longrightarrow>
     \<exists>c' gs hs. receive_batch n c = Inr (c', frame_packets gs) \<and> fs = gs @ hs \<and> stream_ok c' \<and>
       unconsumed c' = concat (map derp_encoding hs) \<and> work c' \<le> work c - n"
proof (induction n arbitrary: c fs)
  case 0
  then show ?case by (intro exI [of _ c] exI [of _ "[]"] exI [of _ fs]) simp
next
  case (Suc n)
  show ?case
  proof (cases fs)
    case Nil
    then have e: "cl_ReceiveBuffer c = []" "chunk_bytes (st_input (cl_Stream c)) = []"
      using Suc.prems(2) by (simp_all add: unconsumed_def)
    then have "st_input (cl_Stream c) = []"
      using Suc.prems(1) by (cases "st_input (cl_Stream c)"; cases "hd (st_input (cl_Stream c))")
        (auto simp: chunk_bytes_def stream_ok_def)
    then have "batch_round c = Inr (c, BatchStop)"
      using e(1) by (simp add: batch_round_def FrameHeaderSize_def batch_read_def batch_room_def TryReadSome_def)
    then show ?thesis using Nil e Suc.prems(1) by (simp add: unconsumed_def work_def)
  next
    case (Cons f fs')
    then have small: "small_frame f" "list_all small_frame fs'" using Suc.prems(3) by auto
    obtain c1 b where b: "batch_round c = Inr (c1, b)" "b \<noteq> BatchStop" "stream_ok c1"
      using batch_round_progress [OF Suc.prems(1) _ small(1)] Suc.prems(2) Cons by blast
    have "client_ok c" using Suc.prems(1) by (simp add: stream_ok_def)
    with b(1) show ?thesis
    proof (cases rule: batch_round_cases)
      case (Frame g)
      have "derp_encoding g @ unconsumed c1 = derp_encoding f @ concat (map derp_encoding fs')"
        using Suc.prems(2) Cons Frame(3,4) by (simp add: unconsumed_def)
      then have g: "g = f" "unconsumed c1 = concat (map derp_encoding fs')"
        using derp_stream.parse_enc [OF Frame(2), of "[]" "unconsumed c1"]
          derp_stream.parse_enc [OF small_frame_ok [OF small(1)], of "[]" "concat (map derp_encoding fs')"]
        by auto
      have less: "work c1 \<le> work c - 1" using Frame(3,4) by (simp add: work_def FrameHeaderSize_def)
      obtain c' gs hs where "receive_batch n c1 = Inr (c', frame_packets gs)" "fs' = gs @ hs" "stream_ok c'"
        "unconsumed c' = concat (map derp_encoding hs)" "work c' \<le> work c1 - n"
        using Suc.IH [OF b(3) g(2) small(2)] by blast
      then show ?thesis using b(1) Frame(1) Cons g(1) less
        by (intro exI [of _ c'] exI [of _ "f # gs"] exI [of _ hs]) simp
    next
      case (Read data)
      then have r: "unconsumed c1 = concat (map derp_encoding fs)" "work c1 \<le> work c - 1"
        using Suc.prems(2) by (cases data; simp add: unconsumed_def work_def)+
      obtain c' gs hs where "receive_batch n c1 = Inr (c', frame_packets gs)" "fs = gs @ hs" "stream_ok c'"
        "unconsumed c' = concat (map derp_encoding hs)" "work c' \<le> work c1 - n"
        using Suc.IH [OF b(3) r(1) Suc.prems(3)] by blast
      then show ?thesis using b(1) Read(1) r(2)
        by (intro exI [of _ c'] exI [of _ gs] exI [of _ hs]) simp
    qed (use b(2) in simp)
  qed
qed

lemma receive_batch_unfold:
  "0 < n \<Longrightarrow> receive_batch n c = bindE (batch_round c) (\<lambda>(c', b). case b of
       BatchStop \<Rightarrow> Inr (c', [])
     | BatchRead \<Rightarrow> receive_batch (n - 1) c'
     | BatchFrame p \<Rightarrow> bindE (receive_batch (n - 1) c') (\<lambda>(c'', ps). Inr (c'', (case p of None \<Rightarrow> ps | Some q \<Rightarrow> q # ps))))"
  by (cases n) simp_all

lemmas batch_round_eval = batch_round_def batch_read_def batch_room_def TryReadSome_def FrameHeaderSize_def derp_size_def
  Read32_def at_def be32_def MaximumFrameSize_def slice_def

text \<open>Successive calls of \<open>ReceiveAvailableBatch\<close>.\<close>

primrec receive_calls :: "nat \<Rightarrow> derp_client \<Rightarrow> (relay_error, derp_client \<times> derp_packet list) res" where
  "receive_calls 0 c = Inr (c, [])"
| "receive_calls (Suc k) c =
     bindE (ReceiveAvailableBatch c) (\<lambda>(c', ps). bindE (receive_calls k c') (\<lambda>(c'', qs). Inr (c'', ps @ qs)))"

lemma frame_packets_append [simp]: "frame_packets (fs @ gs) = frame_packets fs @ frame_packets gs"
  by (induction fs) (auto split: option.splits)

lemma receive_calls_progress:
  "stream_ok c \<Longrightarrow> unconsumed c = concat (map derp_encoding fs) \<Longrightarrow> list_all small_frame fs \<Longrightarrow> work c \<le> 256 * k \<Longrightarrow>
     \<exists>c'. receive_calls k c = Inr (c', frame_packets fs) \<and> unconsumed c' = []"
proof (induction k arbitrary: c fs)
  case 0
  then have "unconsumed c = []" using work_0 by simp
  moreover from this have "fs = []" using 0(2) by (cases fs) (auto simp: derp_encoding_def)
  ultimately show ?case by simp
next
  case (Suc k)
  obtain c1 gs hs where 1: "receive_batch 256 c = Inr (c1, frame_packets gs)" "fs = gs @ hs" "stream_ok c1"
    "unconsumed c1 = concat (map derp_encoding hs)" "work c1 \<le> work c - 256"
    using receive_batch_progress [OF Suc.prems(1-3), of 256] by blast
  have "work c1 \<le> 256 * k" using 1(5) Suc.prems(4) by simp
  then obtain c' where "receive_calls k c1 = Inr (c', frame_packets hs)" "unconsumed c' = []"
    using Suc.IH [OF 1(3,4)] 1(2) Suc.prems(3) by auto
  then show ?case using 1(1,2) by (simp add: ReceiveAvailableBatch_def MaximumReceiveBatchFrames_def del: receive_batch.simps)
qed

lemma derp_size_safe: "FrameHeaderSize \<le> length b \<Longrightarrow> safe (derp_size b)"
  by (simp add: derp_size_def Read32_def FrameHeaderSize_def at_def)

lemma batch_round_safe: "safe (batch_round c)"
proof -
  have "safe (derp_parse b 0)" for b
    using derp_size_safe [of b] by (auto simp: derp_parse_def intro: safe_bindE)
  then show ?thesis unfolding batch_round_parse
    by (intro safe_bindE) (auto simp: batch_read_def Let_def intro: safe_bindE WriteFrame_safe split: option.splits prod.splits)
qed

lemma receive_batch_safe: "safe (receive_batch n c)"
  by (induction n arbitrary: c) (auto intro!: safe_bindE batch_round_safe split: batch.split)

lemma HasBufferedInput_Inr: "\<exists>b. HasBufferedInput buffered c = Inr b"
  by (simp add: HasBufferedInput_def derp_size_def Read32_def FrameHeaderSize_def at_def)

lemma HasBufferedInput_safe: "safe (HasBufferedInput buffered c)"
  using HasBufferedInput_Inr [of buffered c] by auto

lemma receive_batch_client_ok: "receive_batch n c = Inr (c', ps) \<Longrightarrow> client_ok c \<Longrightarrow> client_ok c'"
  using receive_batch_sound by blast

definition new_client :: "byte_stream \<Rightarrow> derp_client" where
  "new_client s = \<lparr>cl_Stream = s, cl_ReceiveBuffer = [], cl_SendBuffer = [], cl_SendOffset = 0\<rparr>"

text \<open>
  whatever a stream delivers, a successful \<open>ReceiveAvailableBatch\<close> consumes whole frames only, in order
  and without gaps, returns exactly the packets they carry, answers exactly the pings among them, and keeps
  everything already queued for sending.
\<close>

theorem ReceiveAvailableBatch_sound:
  assumes "client_ok c" and "ReceiveAvailableBatch c = Inr (c', ps)"
  shows "\<exists>fs. list_all derp_frame_ok fs \<and> unconsumed c = concat (map derp_encoding fs) @ unconsumed c' \<and>
    ps = frame_packets fs \<and> sent c' = sent c @ concat (map derp_encoding (pongs fs)) \<and> client_ok c'"
  using receive_batch_sound assms unfolding ReceiveAvailableBatch_def by blast

theorem ReceiveAvailableBatch_sound_witness:
  "\<exists>c' fs. ReceiveAvailableBatch (new_client \<lparr>st_input = [Some [18, 0, 0], Some [0, 1, 7, 6]], st_writes = [Some 4], st_written = []\<rparr>)
       = Inr (c', []) \<and> sent c' = concat (map derp_encoding (pongs fs)) \<and> frame_packets fs = []"
proof -
  let ?c = "new_client \<lparr>st_input = [Some [18, 0, 0], Some [0, 1, 7, 6]], st_writes = [Some 4], st_written = []\<rparr>"
  have ok: "client_ok ?c" "sent ?c = []" by (simp_all add: client_ok_def sent_def new_client_def)
  let ?s = "\<lambda>i w. \<lparr>st_input = i, st_writes = w, st_written = []\<rparr>"
  let ?d = "\<lambda>st b. \<lparr>cl_Stream = st, cl_ReceiveBuffer = b, cl_SendBuffer = [], cl_SendOffset = 0\<rparr>"
  let ?e = "\<lparr>cl_Stream = \<lparr>st_input = [], st_writes = [], st_written = [19, 0, 0, 0]\<rparr>, cl_ReceiveBuffer = [6],
    cl_SendBuffer = [19, 0, 0, 0, 1, 7], cl_SendOffset = 4\<rparr>"
  have 1: "batch_round ?c = Inr (?d (?s [Some [0, 1, 7, 6]] [Some 4]) [18, 0, 0], BatchRead)"
    by (simp add: new_client_def batch_round_eval)
  have 2: "batch_round (?d (?s [Some [0, 1, 7, 6]] [Some 4]) [18, 0, 0]) =
      Inr (?d (?s [] [Some 4]) [18, 0, 0, 0, 1, 7, 6], BatchRead)"
    by (simp add: batch_round_eval)
  have "WriteFrame PongFrame [7] [] (?d (?s [] [Some 4]) [6]) = Inr ?e"
    by (simp add: WriteFrame_def MaximumFrameSize_def PongFrame_def Append32_def)
      (subst Flush.simps, simp add: TryWriteSome_def, subst Flush.simps, simp add: TryWriteSome_def)
  then have 3: "batch_round (?d (?s [] [Some 4]) [18, 0, 0, 0, 1, 7, 6]) = Inr (?e, BatchFrame None)"
    by (simp add: batch_round_eval PingFrame_def)
  have 4: "batch_round ?e = Inr (?e, BatchStop)"
    by (simp add: batch_round_eval)
  have r: "ReceiveAvailableBatch ?c = Inr (?e, [])"
    unfolding ReceiveAvailableBatch_def MaximumReceiveBatchFrames_def
    by (subst receive_batch_unfold, simp, simp only: 1 bindE_simps prod.case batch.case,
        subst receive_batch_unfold, simp, simp only: 2 bindE_simps prod.case batch.case,
        subst receive_batch_unfold, simp, simp only: 3 bindE_simps prod.case batch.case,
        subst receive_batch_unfold, simp, simp add: 4)
  from ReceiveAvailableBatch_sound [OF ok(1) r] ok(2) r show ?thesis by auto
qed

text \<open>
  C8: enough calls of \<open>ReceiveAvailableBatch\<close> deliver every packet of a stream of frames, once and in order,
  however the transport cuts it into non-empty chunks and however little it takes per write, as long as a write takes
  something or would block, provided each frame with its header fits \<open>MaximumFrameSize\<close>, 1 MiB.  One call per
  128 bytes is enough.
\<close>

theorem derp_stream_delivered:
  assumes "concat chunks = concat (map derp_encoding fs)" and "[] \<notin> set chunks" and "list_all small_frame fs"
    and "Some 0 \<notin> set writes" and "length (concat chunks) \<le> 128 * k"
  shows "\<exists>c'. receive_calls k (new_client \<lparr>st_input = map Some chunks, st_writes = writes, st_written = []\<rparr>) =
    Inr (c', frame_packets fs)"
proof -
  let ?c = "new_client \<lparr>st_input = map Some chunks, st_writes = writes, st_written = []\<rparr>"
  have "chunk_bytes (map Some chunks) = concat chunks" by (simp add: chunk_bytes_def comp_def)
  then have "stream_ok ?c" "unconsumed ?c = concat (map derp_encoding fs)" "work ?c \<le> 256 * k"
    using assms by (auto simp: stream_ok_def client_ok_def new_client_def unconsumed_def work_def)
  then show ?thesis using receive_calls_progress [of ?c fs k] assms(3) by blast
qed

theorem derp_stream_delivered_witness:
  "\<exists>c'. receive_calls 1 (new_client \<lparr>st_input = map Some [[5, 0, 0], 0 # 33 # replicate 32 9 @ [1]], st_writes = [], st_written = []\<rparr>) =
    Inr (c', [\<lparr>dp_Source = replicate 32 9, dp_Payload = [1]\<rparr>])"
proof -
  let ?f = "\<lparr>df_Type = 5, df_Payload = replicate 32 9 @ [1]\<rparr> :: derp_frame"
  let ?chunks = "[[5, 0, 0], 0 # 33 # replicate 32 9 @ [1]] :: byte list list"
  have "\<exists>c'. receive_calls 1 (new_client \<lparr>st_input = map Some ?chunks, st_writes = [], st_written = []\<rparr>) =
      Inr (c', frame_packets [?f])"
    by (rule derp_stream_delivered)
      (simp_all add: derp_encoding_def Append32_def small_frame_def FrameHeaderSize_def MaximumFrameSize_def)
  then show ?thesis by (simp add: frame_packet_def ReceivePacketFrame_def)
qed

text \<open>
  every call that writes frames appends exactly their encodings to what the stream has taken and the
  client still holds; partial writes lose, repeat or reorder nothing.
\<close>

theorem derp_output_fifo:
  "client_ok c \<Longrightarrow>
    (Client_Send destination packet c = Inr c1 \<longrightarrow>
      sent c1 = sent c @ derp_encoding \<lparr>df_Type = SendPacketFrame, df_Payload = destination @ packet\<rparr> \<and> client_ok c1) \<and>
    (SendPing payload c = Inr c2 \<longrightarrow>
      sent c2 = sent c @ derp_encoding \<lparr>df_Type = PingFrame, df_Payload = payload\<rparr> \<and> client_ok c2) \<and>
    (Flush c = Inr c3 \<longrightarrow> sent c3 = sent c \<and> client_ok c3 \<and>
      (\<not> HasPendingOutput c3 \<longrightarrow> st_written (cl_Stream c3) = sent c))"
  using WriteFrame_sent [of SendPacketFrame packet destination c c1] WriteFrame_sent [of PingFrame payload "[]" c c2]
    Flush_sent [of c c3]
  by (auto simp: Client_Send_def SendPing_def HasPendingOutput_def sent_def)

theorem derp_output_fifo_witness:
  "\<exists>c1. Client_Send (replicate 32 3) [8, 9] (new_client \<lparr>st_input = [], st_writes = [Some 2, None], st_written = []\<rparr>) = Inr c1 \<and>
    sent c1 = 4 # 0 # 0 # 0 # 34 # replicate 32 3 @ [8, 9] \<and> st_written (cl_Stream c1) = [4, 0]"
proof -
  let ?c = "new_client \<lparr>st_input = [], st_writes = [Some 2, None], st_written = []\<rparr>"
  have ok: "client_ok ?c" "sent ?c = []" by (simp_all add: client_ok_def sent_def new_client_def)
  obtain c1 where c1: "Client_Send (replicate 32 3) [8, 9] ?c = Inr c1" "st_written (cl_Stream c1) = [4, 0]"
    by (simp add: Client_Send_def WriteFrame_def MaximumFrameSize_def new_client_def SendPacketFrame_def Append32_def)
      (subst (asm) Flush.simps, simp add: TryWriteSome_def, subst (asm) Flush.simps, simp add: TryWriteSome_def)
  from derp_output_fifo [OF ok(1), of "replicate 32 3" "[8, 9]" c1] c1 ok(2) show ?thesis
    by (simp add: derp_encoding_def SendPacketFrame_def Append32_def)
qed

text \<open>
  C40: \<open>MaximumFrameSize\<close> bounds the payload everywhere, but the batch reader asks the stream for at most
  \<open>MaximumFrameSize\<close> bytes of frame and header together.  A frame whose payload is within the limit but
  larger than \<open>MaximumFrameSize - FrameHeaderSize\<close> fills the buffer before it is complete; the next read asks
  for zero bytes, and its empty answer is taken for the end of the stream.
\<close>

theorem derp_batch_limit:
  assumes "derp_frame_ok f" and "\<not> small_frame f"
  shows "ReceiveAvailableBatch (new_client \<lparr>st_input = [Some (derp_encoding f)], st_writes = writes, st_written = []\<rparr>) =
    Inl (Throw (runtime_error ''DERP stream closed.''))"
proof -
  let ?e = "derp_encoding f" and ?s = "\<lparr>st_input = [Some (derp_encoding f)], st_writes = writes, st_written = []\<rparr>"
  let ?c1 = "(new_client ?s)\<lparr>cl_Stream := ?s\<lparr>st_input := [Some (drop MaximumFrameSize ?e)]\<rparr>,
    cl_ReceiveBuffer := take MaximumFrameSize ?e\<rparr>"
  have len: "MaximumFrameSize < length ?e" using assms(2) by (simp add: small_frame_def)
  then have ne: "?e \<noteq> []" "drop MaximumFrameSize ?e \<noteq> []" "take MaximumFrameSize ?e \<noteq> []"
    by (auto simp: MaximumFrameSize_def derp_encoding_def)
  have "batch_round (new_client ?s) = Inr (?c1, BatchRead)"
    using len ne unfolding batch_round_def by (simp add: new_client_def FrameHeaderSize_def batch_read_def batch_room_def TryReadSome_def)
  moreover have "derp_parse (cl_ReceiveBuffer ?c1) 0 = Inr None"
    using assms(1) len by (intro derp_parse_partial [where rest = "drop MaximumFrameSize ?e" and after = "[]"]) auto
  then have "batch_round ?c1 = Inl (Throw (runtime_error ''DERP stream closed.''))"
    using len ne unfolding batch_round_parse by (simp add: batch_read_def batch_room_def TryReadSome_def min_absorb2)
  ultimately show ?thesis
    unfolding ReceiveAvailableBatch_def MaximumReceiveBatchFrames_def
    by (subst receive_batch_unfold, simp, simp only: bindE_simps prod.case batch.case)
      (subst receive_batch_unfold, simp, simp only: bindE_simps)
qed

theorem derp_batch_limit_witness:
  "\<exists>f. length (df_Payload f) = 1048576 \<and>
     ReceiveAvailableBatch (new_client \<lparr>st_input = [Some (derp_encoding f)], st_writes = [], st_written = []\<rparr>) =
       Inl (Throw (runtime_error ''DERP stream closed.''))"
proof -
  let ?f = "\<lparr>df_Type = 5, df_Payload = replicate 1048576 0\<rparr> :: derp_frame"
  have "derp_frame_ok ?f" "\<not> small_frame ?f"
    by (simp_all add: derp_frame_ok_def small_frame_def MaximumFrameSize_def FrameHeaderSize_def)
  from derp_batch_limit [OF this] show ?thesis by (intro exI [of _ ?f]) simp
qed

end
