(* ===== verification/Derp_Handshake.thy ===== *)
theory Derp_Handshake
  imports Derp_Client
begin

text \<open>
  How a DERP client gets onto a stream: the HTTP upgrade, greeting and authentication of \<^verbatim>\<open>DerpClient::Connect\<close> in
  \<^verbatim>\<open>src/core/derp/Client.cpp\<close>, with the blocking receiver \<^verbatim>\<open>Receive\<close>.

  libsodium is not part of the sources: the random nonce, \<^verbatim>\<open>crypto_box_easy\<close> and \<^verbatim>\<open>crypto_box_open_easy\<close> are
  fields of the record \<open>derp_auth\<close>, with the optional authenticator and the keys of the client.
\<close>

section \<open>Client.cpp: the handshake\<close>

definition ServerKeyFrame :: byte where "ServerKeyFrame = 1"
definition ClientInfoFrame :: byte where "ClientInfoFrame = 2"
definition ServerInfoFrame :: byte where "ServerInfoFrame = 3"
definition KeepAliveFrame :: byte where "KeepAliveFrame = 6"
definition MaximumHttpHeaderSize :: nat where "MaximumHttpHeaderSize = 8192"
definition ServerGreetingSize :: nat where "ServerGreetingSize = 40"
definition DerpMagic :: "byte list" where "DerpMagic = [68, 69, 82, 80, 240, 159, 148, 145]"
definition crypto_box_NONCEBYTES :: nat where "crypto_box_NONCEBYTES = 24"
definition crypto_box_MACBYTES :: nat where "crypto_box_MACBYTES = 16"

text \<open>
  \<open>da_box message nonce receiver sender\<close> is \<open>None\<close> where \<^verbatim>\<open>crypto_box_easy\<close> fails; \<open>da_open box nonce sender receiver\<close>
  tells whether \<^verbatim>\<open>crypto_box_open_easy\<close> accepts the box.
\<close>

record derp_auth =
  da_authenticator :: "(key32 \<Rightarrow> (relay_error, byte list) res) option"
  da_PrivateKey :: key32
  da_PublicKey :: key32
  da_nonce :: "byte list"
  da_box :: "byte list \<Rightarrow> byte list \<Rightarrow> key32 \<Rightarrow> key32 \<Rightarrow> byte list option"
  da_open :: "byte list \<Rightarrow> byte list \<Rightarrow> key32 \<Rightarrow> key32 \<Rightarrow> bool"

definition ReadFrame :: "derp_client \<Rightarrow> (relay_error, derp_client \<times> derp_frame) res" where
  "ReadFrame c =
     bindE (ReadExact FrameHeaderSize (cl_Stream c)) (\<lambda>(s, header).
     bindE (derp_size header) (\<lambda>size.
     if size > MaximumFrameSize then Inl (Throw (runtime_error ''DERP frame exceeds the protocol limit.'')) else
     bindE (at header 0) (\<lambda>type.
     bindE (ReadExact size s) (\<lambda>(s', payload). Inr (c\<lparr>cl_Stream := s'\<rparr>, \<lparr>df_Type = type, df_Payload = payload\<rparr>)))))"

definition client_info :: "byte list" where
  "client_info = string_bytes
     ([CHR ''{'', CHR 0x22] @ ''version'' @ [CHR 0x22] @ '':2,'' @ [CHR 0x22] @ ''CanAckPings'' @ [CHR 0x22] @ '':true,'' @
      [CHR 0x22] @ ''IsProber'' @ [CHR 0x22] @ '':false}'')"

definition BuildClientInfo :: "derp_auth \<Rightarrow> key32 \<Rightarrow> (relay_error, byte list) res" where
  "BuildClientInfo a serverKey =
     (case da_box a client_info (da_nonce a) serverKey (da_PrivateKey a) of
        None \<Rightarrow> Inl (Throw (runtime_error ''DERP client authentication encryption failed.''))
      | Some ciphertext \<Rightarrow> Inr (da_PublicKey a @ da_nonce a @ ciphertext))"

definition crlf :: string where "crlf = [CHR 0x0D, CHR 0x0A]"

definition upgrade_request :: "string \<Rightarrow> string" where
  "upgrade_request hostname =
     ''GET /derp HTTP/1.1'' @ crlf @ ''Host: '' @ hostname @ crlf @ ''Connection: Upgrade'' @ crlf @ ''Upgrade: DERP'' @ crlf @ crlf"

function read_headers :: "string \<Rightarrow> byte_stream \<Rightarrow> (relay_error, byte_stream \<times> string) res" where
  "read_headers response s =
     (if find_sub response (crlf @ crlf) 0 = None then
        bindE (ReadExact 1 s) (\<lambda>(s', bytes). bindE (at bytes 0) (\<lambda>b.
          let response' = response @ [char_of_byte b] in
          if length response' > MaximumHttpHeaderSize
          then Inl (Throw (runtime_error ''DERP HTTP response headers are too large.''))
          else read_headers response' s'))
      else Inr (s, response))"
  by pat_completeness auto
termination
  by (relation "measure (\<lambda>(response, _). MaximumHttpHeaderSize - length response)") auto

declare read_headers.simps [simp del]

text \<open>The key of the server is returned with the client.\<close>

definition Client_Connect :: "derp_auth \<Rightarrow> string \<Rightarrow> derp_client \<Rightarrow> (relay_error, derp_client \<times> key32) res" where
  "Client_Connect a hostname c =
     bindE (WriteAll (string_bytes (upgrade_request hostname)) (cl_Stream c)) (\<lambda>s.
     bindE (read_headers [] s) (\<lambda>(s', response).
     if \<not> prefix ''HTTP/1.1 101'' response then Inl (Throw (runtime_error ''DERP HTTP upgrade was rejected.'')) else
     bindE (ReadFrame (c\<lparr>cl_Stream := s'\<rparr>)) (\<lambda>(c1, greeting).
     if df_Type greeting \<noteq> ServerKeyFrame \<or> length (df_Payload greeting) < ServerGreetingSize \<or>
        take 8 (df_Payload greeting) \<noteq> DerpMagic
     then Inl (Throw (runtime_error ''Invalid DERP server greeting.'')) else
     bindE (slice (df_Payload greeting) 8 32) (\<lambda>serverKey.
     bindE (case da_authenticator a of Some authenticate \<Rightarrow> authenticate serverKey | None \<Rightarrow> BuildClientInfo a serverKey) (\<lambda>payload.
     if length payload < 32 + crypto_box_NONCEBYTES + crypto_box_MACBYTES
     then Inl (Throw (runtime_error ''DERP authenticator returned an invalid ClientInfo envelope.'')) else
     bindE (WriteFrame ClientInfoFrame payload [] c1) (\<lambda>c2.
     bindE (ReadFrame c2) (\<lambda>(c3, serverInfo).
     if df_Type serverInfo \<noteq> ServerInfoFrame \<or> length (df_Payload serverInfo) < crypto_box_NONCEBYTES + crypto_box_MACBYTES
     then Inl (Throw (runtime_error ''DERP server did not authenticate the client.''))
     else if da_authenticator a = None \<and> \<not> da_open a (drop crypto_box_NONCEBYTES (df_Payload serverInfo))
         (take crypto_box_NONCEBYTES (df_Payload serverInfo)) serverKey (da_PrivateKey a)
     then Inl (Throw (runtime_error ''DERP server authentication failed.''))
     else Inr (c3, serverKey))))))))"

section \<open>Blocking reads take exactly what they ask for\<close>

definition flowing :: "byte_stream \<Rightarrow> bool" where
  "flowing s \<longleftrightarrow> None \<notin> set (st_input s) \<and> Some [] \<notin> set (st_input s)"

lemma ReadSome_cases:
  assumes "ReadSome n s = Inr (s', part)"
  shows "chunk_bytes (st_input s) = part @ chunk_bytes (st_input s') \<and> length part \<le> n \<and>
    st_writes s' = st_writes s \<and> st_written s' = st_written s \<and> (flowing s \<longrightarrow> flowing s')"
  using assms
  by (auto simp: ReadSome_def TryReadSome_def chunk_bytes_def flowing_def split: list.splits option.splits if_splits)

lemma ReadSome_flowing:
  "flowing s \<Longrightarrow> 0 < n \<Longrightarrow> chunk_bytes (st_input s) \<noteq> [] \<Longrightarrow> \<exists>s' part. ReadSome n s = Inr (s', part) \<and> part \<noteq> []"
  by (cases "st_input s") (auto simp: ReadSome_def TryReadSome_def chunk_bytes_def flowing_def split: option.splits)

text \<open>What a successful read leaves: the bytes after those it returned, and nothing else changed.\<close>

definition reads :: "nat \<Rightarrow> byte_stream \<Rightarrow> byte_stream \<Rightarrow> byte list \<Rightarrow> bool" where
  "reads n s s' result \<longleftrightarrow> length result = n \<and> chunk_bytes (st_input s) = result @ chunk_bytes (st_input s') \<and>
     st_writes s' = st_writes s \<and> st_written s' = st_written s \<and> (flowing s \<longrightarrow> flowing s')"

lemma read_exact_unfold:
  "length result < n \<Longrightarrow> read_exact n result s = bindE (ReadSome (n - length result) s) (\<lambda>(s', part).
     if part = [] then Inl (Throw (runtime_error ''Stream closed before enough bytes were read.''))
     else read_exact n (result @ part) s')"
  "\<not> length result < n \<Longrightarrow> read_exact n result s = Inr (s, result)"
  by (subst read_exact.simps, simp)+

lemma read_exact_reads:
  "read_exact n result s = Inr (s', result') \<Longrightarrow> length result \<le> n \<Longrightarrow>
     \<exists>part. result' = result @ part \<and> reads (n - length result) s s' part"
proof (induction n result s rule: read_exact.induct)
  case (1 n result s)
  show ?case
  proof (cases "length result < n")
    case True
    then obtain s1 part where r: "ReadSome (n - length result) s = Inr (s1, part)" "part \<noteq> []"
      "read_exact n (result @ part) s1 = Inr (s', result')"
      using 1(2) by (auto simp: read_exact_unfold(1) bindE_eq_Inr_iff split: if_splits)
    note c = ReadSome_cases [OF r(1)]
    obtain more_part where "result' = (result @ part) @ more_part" "reads (n - length (result @ part)) s1 s' more_part"
      using 1(1) [OF True r(1) refl r(2,3)] c True by fastforce
    then show ?thesis using c True by (intro exI [of _ "part @ more_part"]) (auto simp: reads_def)
  next
    case False
    then show ?thesis using 1(2,3) by (auto simp: read_exact_unfold(2) reads_def)
  qed
qed

lemma ReadExact_reads: "ReadExact n s = Inr (s', result) \<Longrightarrow> reads n s s' result"
  using read_exact_reads [of n "[]"] by (auto simp: ReadExact_def)

lemma read_exact_flowing:
  "flowing s \<Longrightarrow> n - length result \<le> length (chunk_bytes (st_input s)) \<Longrightarrow> \<exists>s' result'. read_exact n result s = Inr (s', result')"
proof (induction n result s rule: read_exact.induct)
  case (1 n result s)
  show ?case
  proof (cases "length result < n")
    case True
    then have "chunk_bytes (st_input s) \<noteq> []" using 1(3) by auto
    then obtain s1 part where r: "ReadSome (n - length result) s = Inr (s1, part)" "part \<noteq> []"
      using ReadSome_flowing [OF 1(2), of "n - length result"] True by auto
    note c = ReadSome_cases [OF r(1)]
    have "\<exists>s' result'. read_exact n (result @ part) s1 = Inr (s', result')"
      using 1(1) [OF True r(1) refl r(2)] 1(2,3) c by auto
    then show ?thesis using True r by (simp add: read_exact_unfold(1))
  next
    case False
    then show ?thesis by (simp add: read_exact_unfold(2))
  qed
qed

lemma ReadExact_flowing:
  assumes "flowing s" and "chunk_bytes (st_input s) = bytes @ rest"
  shows "\<exists>s'. ReadExact (length bytes) s = Inr (s', bytes) \<and> chunk_bytes (st_input s') = rest \<and> flowing s' \<and>
    st_writes s' = st_writes s \<and> st_written s' = st_written s"
proof -
  obtain s' result where r: "ReadExact (length bytes) s = Inr (s', result)"
    using read_exact_flowing [OF assms(1), of "length bytes" "[]"] assms(2) by (auto simp: ReadExact_def)
  have "result = bytes \<and> chunk_bytes (st_input s') = rest"
    using ReadExact_reads [OF r] assms(2) append_eq_append_conv [of result bytes "chunk_bytes (st_input s')" rest]
    by (simp add: reads_def)
  then show ?thesis using ReadExact_reads [OF r] r assms(1) by (simp add: reads_def)
qed

section \<open>Client.cpp: the blocking receiver\<close>

lemma Flush_input: "Flush c = Inr c' \<Longrightarrow> st_input (cl_Stream c') = st_input (cl_Stream c)"
proof (induction c rule: Flush.induct)
  case (1 c)
  let ?rest = "drop (cl_SendOffset c) (cl_SendBuffer c)"
  obtain s w where w: "TryWriteSome ?rest (cl_Stream c) = (s, w)" by fastforce
  have s: "st_input s = st_input (cl_Stream c)"
    using w by (auto simp: TryWriteSome_def split: list.splits option.splits)
  show ?case
  proof (cases "cl_SendOffset c < length (cl_SendBuffer c)")
    case True
    then show ?thesis using 1(2) 1(1) [OF True w [symmetric]] w s
      by (subst (asm) Flush.simps) (auto split: option.splits if_splits)
  next
    case False
    then show ?thesis using 1(2) by (subst (asm) Flush.simps) auto
  qed
qed

lemma WriteFrame_input: "WriteFrame type payload pre c = Inr c' \<Longrightarrow> st_input (cl_Stream c') = st_input (cl_Stream c)"
  by (auto simp: WriteFrame_def Let_def split: if_splits dest: Flush_input)

lemma ReadFrame_shrinks:
  "ReadFrame c = Inr (c', f) \<Longrightarrow> length (chunk_bytes (st_input (cl_Stream c'))) < length (chunk_bytes (st_input (cl_Stream c)))"
  by (auto simp: ReadFrame_def bindE_eq_Inr_iff reads_def FrameHeaderSize_def split: if_splits dest!: ReadExact_reads)

function Client_Receive :: "derp_client \<Rightarrow> (relay_error, derp_client \<times> derp_packet) res" where
  "Client_Receive c =
     bindE (ReadFrame c) (\<lambda>(c', f).
     case frame_packet (df_Type f) (df_Payload f) of
       Some packet \<Rightarrow> Inr (c', packet)
     | None \<Rightarrow>
         if df_Type f = PingFrame then bindE (WriteFrame PongFrame (df_Payload f) [] c') (\<lambda>c''. Client_Receive c'')
         else Client_Receive c')"
  by pat_completeness auto
termination
  by (relation "measure (\<lambda>c. length (chunk_bytes (st_input (cl_Stream c))))")
    (auto dest: ReadFrame_shrinks dest!: WriteFrame_input)

declare Client_Receive.simps [simp del]

lemma write_all_flowing:
  "(\<forall>w \<in> set (st_writes s). \<exists>n>0. w = Some n) \<Longrightarrow> length data - offset \<le> length (st_writes s) \<Longrightarrow> offset \<le> length data \<Longrightarrow>
     \<exists>s'. write_all data offset s = Inr s' \<and> st_written s' = st_written s @ drop offset data \<and> st_input s' = st_input s \<and>
       set (st_writes s') \<subseteq> set (st_writes s) \<and> length (st_writes s) \<le> length (st_writes s') + (length data - offset)"
proof (induction data offset s rule: write_all.induct)
  case (1 data offset s)
  show ?case
  proof (cases "offset < length data")
    case True
    then obtain n ws where w: "st_writes s = Some n # ws" "n > 0"
      using 1(2,3) by (cases "st_writes s") auto
    let ?s = "s\<lparr>st_writes := ws, st_written := st_written s @ take n (drop offset data)\<rparr>"
    obtain m where m: "m = min n (length data - offset)" by blast
    have t: "TryWriteSome (drop offset data) s = (?s, Some m)" using w m by (simp add: TryWriteSome_def)
    have n: "m \<noteq> 0" "offset + m \<le> length data" using True w m by simp_all
    have u: "write_all data offset s = write_all data (offset + m) ?s"
      using True t n by (subst write_all.simps) simp
    have "\<exists>s'. write_all data (offset + m) ?s = Inr s' \<and> st_written s' = st_written ?s @ drop (offset + m) data \<and>
        st_input s' = st_input ?s \<and> set (st_writes s') \<subseteq> set (st_writes ?s) \<and>
        length (st_writes ?s) \<le> length (st_writes s') + (length data - (offset + m))"
      by (rule 1(1) [OF True t [symmetric] refl n(1)]) (use 1(2,3) w True n in auto)
    moreover have "take n (drop offset data) @ drop (offset + m) data = drop offset data"
      using append_take_drop_id [of n "drop offset data"] m by (simp add: min_def add.commute)
    ultimately show ?thesis using u w(1) n True by (fastforce simp: subset_iff)
  next
    case False
    then show ?thesis using 1(4) by (subst write_all.simps) simp
  qed
qed

section \<open>The HTTP response ends at the first empty line\<close>

lemma index_sub_short: "length xs < length p \<Longrightarrow> index_sub p xs = None"
  by (induction xs) (auto dest: prefix_length_le)

lemma index_sub_prefix:
  "index_sub p xs = Some i \<Longrightarrow> k < i + length p \<Longrightarrow> index_sub p (take k xs) = None"
proof (induction xs arbitrary: i k)
  case (Cons x xs)
  show ?case
  proof (cases "prefix p (x # xs)")
    case True
    then show ?thesis using Cons(2,3) by (intro index_sub_short) simp
  next
    case False
    then obtain j where j: "index_sub p xs = Some j" "i = Suc j" using Cons(2) by auto
    have "\<not> prefix p (take k (x # xs))" using False by (meson prefix_order.trans take_is_prefix)
    moreover have "p \<noteq> []" using False by auto
    ultimately show ?thesis using Cons(1) [OF j(1)] Cons(3) j(2) by (cases k) auto
  qed
qed (simp split: if_splits)

definition complete_response :: "string \<Rightarrow> bool" where
  "complete_response r \<longleftrightarrow> find_sub r (crlf @ crlf) 0 = Some (length r - 4) \<and> 4 \<le> length r \<and> length r \<le> MaximumHttpHeaderSize"

lemma complete_prefix:
  assumes "complete_response r" and "k < length r"
  shows "find_sub (take k r) (crlf @ crlf) 0 = None"
  using assms index_sub_prefix [of "crlf @ crlf" r "length r - 4" k]
  by (auto simp: complete_response_def find_sub_def crlf_def)

lemma read_headers_flowing:
  assumes r: "complete_response r" and "k \<le> length r" and "flowing s"
    and "chunk_bytes (st_input s) = string_bytes (drop k r) @ rest"
  shows "\<exists>s'. read_headers (take k r) s = Inr (s', r) \<and> chunk_bytes (st_input s') = rest \<and> flowing s' \<and>
    st_writes s' = st_writes s \<and> st_written s' = st_written s"
  using assms(2-)
proof (induction "length r - k" arbitrary: k s)
  case 0
  then show ?case using r by (subst read_headers.simps) (simp add: complete_response_def string_bytes_def)
next
  case (Suc m)
  then have k: "k < length r" by simp
  have d: "drop k r = r ! k # drop (Suc k) r" using k by (simp add: Cons_nth_drop_Suc)
  have bytes: "chunk_bytes (st_input s) = [byte_of_char (r ! k)] @ string_bytes (drop (Suc k) r) @ rest"
    using Suc(5) d by (simp add: string_bytes_def)
  obtain s1 where s1: "ReadExact 1 s = Inr (s1, [byte_of_char (r ! k)])" "flowing s1"
    "chunk_bytes (st_input s1) = string_bytes (drop (Suc k) r) @ rest" "st_writes s1 = st_writes s" "st_written s1 = st_written s"
    using ReadExact_flowing [OF Suc(4) bytes] by auto
  have t: "take k r @ [r ! k] = take (Suc k) r" using k by (simp add: take_Suc_conv_app_nth)
  have "read_headers (take k r) s = read_headers (take (Suc k) r) s1"
    using s1(1) complete_prefix [OF r k] k t r
    by (subst read_headers.simps) (simp add: at_def complete_response_def)
  then show ?case using Suc(1) [of "Suc k" s1] Suc(2) k s1 by auto
qed

lemma ReadFrame_flowing:
  assumes f: "derp_frame_ok f" and "flowing (cl_Stream c)" and b: "chunk_bytes (st_input (cl_Stream c)) = derp_encoding f @ rest"
  shows "\<exists>s. ReadFrame c = Inr (c\<lparr>cl_Stream := s\<rparr>, f) \<and> chunk_bytes (st_input s) = rest \<and> flowing s \<and>
    st_writes s = st_writes (cl_Stream c) \<and> st_written s = st_written (cl_Stream c)"
proof -
  let ?h = "df_Type f # Append32 (word_of_nat (length (df_Payload f)))"
  have e: "derp_encoding f = ?h @ df_Payload f" by (simp add: derp_encoding_def)
  have h: "length ?h = FrameHeaderSize" by (simp add: FrameHeaderSize_def)
  obtain s1 where s1: "ReadExact FrameHeaderSize (cl_Stream c) = Inr (s1, ?h)" "flowing s1"
    "chunk_bytes (st_input s1) = df_Payload f @ rest" "st_writes s1 = st_writes (cl_Stream c)" "st_written s1 = st_written (cl_Stream c)"
    using ReadExact_flowing [OF assms(2), of ?h "df_Payload f @ rest"] b e h by auto
  obtain s2 where s2: "ReadExact (length (df_Payload f)) s1 = Inr (s2, df_Payload f)" "flowing s2"
    "chunk_bytes (st_input s2) = rest" "st_writes s2 = st_writes (cl_Stream c)" "st_written s2 = st_written (cl_Stream c)"
    using ReadExact_flowing [OF s1(2,3)] s1(4,5) by auto
  have "derp_size ?h = Inr (length (df_Payload f))"
    using f by (simp add: derp_frame_ok_def derp_size_def Read32_def at_def Append32_def MaximumFrameSize_def
        be32_Append32 [unfolded Append32_def] unat_of_nat)
  then show ?thesis using s1 s2 f by (intro exI [of _ s2]) (simp add: ReadFrame_def derp_frame_ok_def at_def)
qed

lemma WriteFrame_Inr:
  "Some 0 \<notin> set (st_writes (cl_Stream c)) \<Longrightarrow> length payload \<le> MaximumFrameSize \<Longrightarrow> \<exists>c'. WriteFrame type payload [] c = Inr c'"
  using Flush_Inr [of "c\<lparr>cl_SendBuffer := cl_SendBuffer c @ type # Append32 (word_of_nat (length payload)) @ payload\<rparr>"]
  by (auto simp: WriteFrame_def Let_def)

lemma Client_Receive_first:
  assumes "list_all derp_frame_ok (fs @ [f])" and "frame_packets fs = []" and "frame_packet (df_Type f) (df_Payload f) = Some packet"
    and "flowing (cl_Stream c)" and "Some 0 \<notin> set (st_writes (cl_Stream c))" and "client_ok c"
    and "chunk_bytes (st_input (cl_Stream c)) = concat (map derp_encoding (fs @ [f])) @ rest"
  shows "\<exists>c'. Client_Receive c = Inr (c', packet) \<and> chunk_bytes (st_input (cl_Stream c')) = rest \<and>
    sent c' = sent c @ concat (map derp_encoding (pongs fs))"
  using assms
proof (induction fs arbitrary: c)
  case Nil
  then obtain s where "ReadFrame c = Inr (c\<lparr>cl_Stream := s\<rparr>, f)" "chunk_bytes (st_input s) = rest"
    "st_written s = st_written (cl_Stream c)"
    using ReadFrame_flowing [of f c rest] by auto
  then show ?case using Nil(3) by (subst Client_Receive.simps) (simp add: sent_def)
next
  case (Cons h fs)
  let ?rest = "concat (map derp_encoding (fs @ [f])) @ rest"
  have hp: "frame_packet (df_Type h) (df_Payload h) = None" "frame_packets fs = []"
    using Cons(3) by (auto split: option.splits)
  obtain s where s: "ReadFrame c = Inr (c\<lparr>cl_Stream := s\<rparr>, h)" "chunk_bytes (st_input s) = ?rest" "flowing s"
    "st_writes s = st_writes (cl_Stream c)" "st_written s = st_written (cl_Stream c)"
    using ReadFrame_flowing [of h c ?rest] Cons(2,5,8) by auto
  let ?c = "c\<lparr>cl_Stream := s\<rparr>"
  have ok: "client_ok ?c" "sent ?c = sent c" using Cons(7) s(5) by (simp_all add: client_ok_def sent_def)
  show ?case
  proof (cases "df_Type h = PingFrame")
    case True
    let ?d = "?c\<lparr>cl_SendBuffer := cl_SendBuffer ?c @ PongFrame # Append32 (word_of_nat (length (df_Payload h))) @ df_Payload h\<rparr>"
    obtain c1 where c1: "WriteFrame PongFrame (df_Payload h) [] ?c = Inr c1" "Some 0 \<notin> set (st_writes (cl_Stream c1))"
      using Flush_Inr [of ?d] Cons(2,6) s(4) by (auto simp: WriteFrame_def Let_def derp_frame_ok_def)
    note w = WriteFrame_sent [OF c1(1) ok(1)]
    have pong: "derp_encoding (h\<lparr>df_Type := PongFrame\<rparr>) = derp_encoding \<lparr>df_Type = PongFrame, df_Payload = df_Payload h\<rparr>"
      by (simp add: derp_encoding_def)
    have "flowing (cl_Stream c1)" "chunk_bytes (st_input (cl_Stream c1)) = ?rest" using w s by (simp_all add: flowing_def)
    then show ?thesis using Cons(1) [of c1] Cons(2,4) hp w s(1) c1 ok True
      by (subst Client_Receive.simps) (auto simp: hp pong)
  next
    case False
    then show ?thesis using Cons(1) [of ?c] Cons(2,4,6) hp s ok by (subst Client_Receive.simps) (auto simp: hp)
  qed
qed

text \<open>A transport that takes at least one byte per write, often enough, takes the whole send buffer.\<close>

lemma Flush_complete:
  "(\<forall>w \<in> set (st_writes (cl_Stream c)). \<exists>n>0. w = Some n) \<Longrightarrow> length (cl_SendBuffer c) - cl_SendOffset c \<le> length (st_writes (cl_Stream c)) \<Longrightarrow>
     Flush c = Inr c' \<Longrightarrow> cl_SendBuffer c' = [] \<and> cl_SendOffset c' = 0"
proof (induction c rule: Flush.induct)
  case (1 c)
  show ?case
  proof (cases "cl_SendOffset c < length (cl_SendBuffer c)")
    case True
    then obtain n ws where w: "st_writes (cl_Stream c) = Some n # ws" "n > 0"
      using 1(2,3) by (cases "st_writes (cl_Stream c)") auto
    let ?rest = "drop (cl_SendOffset c) (cl_SendBuffer c)"
    let ?s = "(cl_Stream c)\<lparr>st_writes := ws, st_written := st_written (cl_Stream c) @ take n ?rest\<rparr>"
    define m where "m = min n (length ?rest)"
    have t: "TryWriteSome ?rest (cl_Stream c) = (?s, Some m)" and m: "m \<noteq> 0" using w True by (simp_all add: TryWriteSome_def m_def)
    have "Flush (c\<lparr>cl_Stream := ?s, cl_SendOffset := cl_SendOffset c + m\<rparr>) = Inr c'"
      using 1(4) True t m by (subst (asm) Flush.simps) simp
    then show ?thesis by (intro 1(1) [OF True t [symmetric] refl m]) (use 1(2,3) w True m in auto)
  next
    case False
    then show ?thesis using 1(4) by (subst (asm) Flush.simps) auto
  qed
qed

text \<open>
  C17: against any server that upgrades the connection, greets with its key and acknowledges the client, and
  however the transport cuts the bytes, \<open>Connect\<close> succeeds with exactly the server's key and leaves every byte after the
  acknowledgement to the receivers.  What it has written and what it still holds in the send buffer are the request and
  the client information, nothing else; and when the transport takes at least a byte at each of as many writes as there
  are bytes, all of it has been written and nothing is held back.
\<close>

theorem derp_handshake:
  assumes r: "complete_response r" "prefix ''HTTP/1.1 101'' r"
    and g: "g = \<lparr>df_Type = ServerKeyFrame, df_Payload = DerpMagic @ key @ extra\<rparr>" "length key = 32" "derp_frame_ok g"
    and i: "df_Type i = ServerInfoFrame" "40 \<le> length (df_Payload i)" "derp_frame_ok i"
    and p: "(case da_authenticator a of Some authenticate \<Rightarrow> authenticate key | None \<Rightarrow> BuildClientInfo a key) = Inr payload"
      "72 \<le> length payload" "length payload \<le> MaximumFrameSize"
    and o: "da_authenticator a \<noteq> None \<or> da_open a (drop 24 (df_Payload i)) (take 24 (df_Payload i)) key (da_PrivateKey a)"
    and c: "concat chunks = string_bytes r @ derp_encoding g @ derp_encoding i @ rest" "[] \<notin> set chunks"
    and w: "\<forall>w \<in> set writes. \<exists>n>0. w = Some n" "length (upgrade_request hostname) \<le> length writes"
  shows "\<exists>c. Client_Connect a hostname (new_client \<lparr>st_input = map Some chunks, st_writes = writes, st_written = []\<rparr>) = Inr (c, key) \<and>
    unconsumed c = rest \<and>
    st_written (cl_Stream c) @ drop (cl_SendOffset c) (cl_SendBuffer c) =
      string_bytes (upgrade_request hostname) @ derp_encoding \<lparr>df_Type = ClientInfoFrame, df_Payload = payload\<rparr> \<and>
    (length (upgrade_request hostname) + 5 + length payload \<le> length writes \<longrightarrow>
      st_written (cl_Stream c) =
        string_bytes (upgrade_request hostname) @ derp_encoding \<lparr>df_Type = ClientInfoFrame, df_Payload = payload\<rparr> \<and>
      cl_SendBuffer c = [])"
proof -
  let ?s = "\<lparr>st_input = map Some chunks, st_writes = writes, st_written = []\<rparr>"
  let ?c = "new_client ?s"
  obtain s1 where s1: "WriteAll (string_bytes (upgrade_request hostname)) ?s = Inr s1" "st_input s1 = map Some chunks"
    "st_written s1 = string_bytes (upgrade_request hostname)" "set (st_writes s1) \<subseteq> set writes"
    "length writes \<le> length (st_writes s1) + length (upgrade_request hostname)"
    using write_all_flowing [of ?s "string_bytes (upgrade_request hostname)" 0] w by (auto simp: WriteAll_def)
  have f1: "flowing s1" "chunk_bytes (st_input s1) = string_bytes (drop 0 r) @ derp_encoding g @ derp_encoding i @ rest"
    using c s1(2) by (auto simp: flowing_def chunk_bytes_def comp_def)
  obtain s2 where s2: "read_headers [] s1 = Inr (s2, r)" "chunk_bytes (st_input s2) = derp_encoding g @ derp_encoding i @ rest"
    "flowing s2" "st_writes s2 = st_writes s1" "st_written s2 = st_written s1"
    using read_headers_flowing [OF r(1) _ f1] by auto
  obtain s3 where s3: "ReadFrame (?c\<lparr>cl_Stream := s2\<rparr>) = Inr (?c\<lparr>cl_Stream := s3\<rparr>, g)" "flowing s3"
    "chunk_bytes (st_input s3) = derp_encoding i @ rest" "st_writes s3 = st_writes s1" "st_written s3 = st_written s1"
    using ReadFrame_flowing [OF g(3), of "?c\<lparr>cl_Stream := s2\<rparr>"] s2 by auto
  let ?c3 = "?c\<lparr>cl_Stream := s3\<rparr>"
  have w3: "Some 0 \<notin> set (st_writes (cl_Stream ?c3))" using w(1) s1(4) s3(4) by auto
  obtain c4 where c4: "WriteFrame ClientInfoFrame payload [] ?c3 = Inr c4" using WriteFrame_Inr [OF w3 p(3)] by blast
  have ok: "client_ok ?c3" by (simp add: client_ok_def new_client_def)
  note sent4 = WriteFrame_sent [OF c4 ok]
  have f4: "flowing (cl_Stream c4)" "chunk_bytes (st_input (cl_Stream c4)) = derp_encoding i @ rest"
    using sent4 s3 by (simp_all add: flowing_def)
  obtain s5 where s5: "ReadFrame c4 = Inr (c4\<lparr>cl_Stream := s5\<rparr>, i)" "chunk_bytes (st_input s5) = rest"
    "st_written s5 = st_written (cl_Stream c4)"
    using ReadFrame_flowing [OF i(3) f4] by auto
  have magic: "length DerpMagic = 8" by (simp add: DerpMagic_def)
  have "Client_Connect a hostname ?c = Inr (c4\<lparr>cl_Stream := s5\<rparr>, key)"
    using s1(1) s2(1) s3(1) c4 s5(1) r(2) g i(1,2) p o magic
    by (auto simp: Client_Connect_def new_client_def slice_def ServerGreetingSize_def crypto_box_NONCEBYTES_def
        crypto_box_MACBYTES_def)
  moreover have "unconsumed (c4\<lparr>cl_Stream := s5\<rparr>) = rest"
    using sent4 s5(2) by (simp add: unconsumed_def new_client_def)
  moreover have "sent (c4\<lparr>cl_Stream := s5\<rparr>) = sent c4" using s5(3) by (simp add: sent_def)
  moreover have "sent c4 = string_bytes (upgrade_request hostname) @ derp_encoding \<lparr>df_Type = ClientInfoFrame, df_Payload = payload\<rparr>"
    using sent4 s1(3) s3(5) by (simp add: sent_def new_client_def)
  moreover have "cl_SendBuffer c4 = []" if "length (upgrade_request hostname) + 5 + length payload \<le> length writes"
  proof -
    let ?d = "?c3\<lparr>cl_SendBuffer := ClientInfoFrame # Append32 (word_of_nat (length payload)) @ payload\<rparr>"
    have "Flush ?d = Inr c4" using c4 p(3) by (simp add: WriteFrame_def Let_def new_client_def)
    moreover have "\<forall>w \<in> set (st_writes (cl_Stream ?d)). \<exists>n>0. w = Some n" using w(1) s1(4) s3(4) by auto
    moreover have "length (cl_SendBuffer ?d) - cl_SendOffset ?d \<le> length (st_writes (cl_Stream ?d))"
      using that s1(5) s3(4) by (simp add: new_client_def)
    ultimately show ?thesis using Flush_complete by blast
  qed
  ultimately show ?thesis unfolding sent_def by (intro exI [of _ "c4\<lparr>cl_Stream := s5\<rparr>"]) auto
qed

theorem derp_handshake_witness:
  "\<exists>c. Client_Connect \<lparr>da_authenticator = Some (\<lambda>_. Inr (replicate 72 1)), da_PrivateKey = [], da_PublicKey = [], da_nonce = [],
      da_box = \<lambda>_ _ _ _. None, da_open = \<lambda>_ _ _ _. False\<rparr> ''d''
      (new_client \<lparr>st_input = map Some [string_bytes (''HTTP/1.1 101'' @ crlf @ crlf) @
          derp_encoding \<lparr>df_Type = ServerKeyFrame, df_Payload = DerpMagic @ replicate 32 7 @ []\<rparr> @
          derp_encoding \<lparr>df_Type = ServerInfoFrame, df_Payload = replicate 40 0\<rparr> @ [9, 9]],
        st_writes = replicate 160 (Some 5), st_written = []\<rparr>) = Inr (c, replicate 32 7) \<and> unconsumed c = [9, 9] \<and>
      st_written (cl_Stream c) = string_bytes (upgrade_request ''d'') @ derp_encoding \<lparr>df_Type = ClientInfoFrame, df_Payload = replicate 72 1\<rparr>"
proof -
  have r: "complete_response (''HTTP/1.1 101'' @ crlf @ crlf)" by code_simp
  have l: "length (upgrade_request ''d'') + 5 + length (replicate 72 (1::byte)) \<le> length (replicate 160 (Some (5::nat)))" by code_simp
  show ?thesis
    using derp_handshake [OF r, where g = "\<lparr>df_Type = ServerKeyFrame, df_Payload = DerpMagic @ replicate 32 7 @ []\<rparr>" and extra = "[]"
        and key = "replicate 32 7" and i = "\<lparr>df_Type = ServerInfoFrame, df_Payload = replicate 40 0\<rparr>" and rest = "[9, 9]"
        and writes = "replicate 160 (Some 5)" and hostname = "''d''" and payload = "replicate 72 1"
        and a = "\<lparr>da_authenticator = Some (\<lambda>_. Inr (replicate 72 1)), da_PrivateKey = [], da_PublicKey = [], da_nonce = [],
          da_box = \<lambda>_ _ _ _. None, da_open = \<lambda>_ _ _ _. False\<rparr>"
        and chunks = "[string_bytes (''HTTP/1.1 101'' @ crlf @ crlf) @
          derp_encoding \<lparr>df_Type = ServerKeyFrame, df_Payload = DerpMagic @ replicate 32 7 @ []\<rparr> @
          derp_encoding \<lparr>df_Type = ServerInfoFrame, df_Payload = replicate 40 0\<rparr> @ [9, 9]]"] l
    by (fastforce simp: derp_frame_ok_def MaximumFrameSize_def DerpMagic_def string_bytes_def)
qed

end
