(* ===== verification/Packet_Framing.thy ===== *)
theory Packet_Framing
  imports Relay_Frame "HOL-Library.Multiset"
begin

text \<open>
  The fragment transport of the relay: \<^verbatim>\<open>src/core/hosted/PacketFraming.cpp\<close>.  The encoder cuts a queued
  byte stream into fragments tagged with their stream offset; the reassembler accepts fragments in any
  order and hands out the stream in order.
\<close>

section \<open>PacketEncoder\<close>

definition OffsetSize :: nat where "OffsetSize = 8"
definition MaximumPendingBytes :: nat where "MaximumPendingBytes = 4 * 1024 * 1024"

record packet_encoder =
  e_offset :: u64
  e_pending :: "byte list list"
  e_pendingOffset :: nat
  e_pendingBytes :: nat

definition empty_encoder :: packet_encoder where
  "empty_encoder = \<lparr>e_offset = 0, e_pending = [], e_pendingOffset = 0, e_pendingBytes = 0\<rparr>"

definition Queue :: "packet_encoder \<Rightarrow> byte list \<Rightarrow> (relay_error, packet_encoder) res" where
  "Queue e bytes =
     (if length bytes > MaximumPendingBytes - e_pendingBytes e
      then Inl (Throw (PacketFramingError WindowExceeded))
      else if bytes \<noteq> []
      then Inr (e\<lparr>e_pending := e_pending e @ [bytes], e_pendingBytes := e_pendingBytes e + length bytes\<rparr>)
      else Inr e)"

definition HasPending :: "packet_encoder \<Rightarrow> bool" where
  "HasPending e \<longleftrightarrow> e_pending e \<noteq> []"

text \<open>The loop that copies \<open>remaining\<close> bytes out of the queue, from \<open>offset\<close> in its first part.\<close>

fun collect :: "byte list list \<Rightarrow> nat \<Rightarrow> nat \<Rightarrow> (relay_error, byte list) res" where
  "collect parts offset 0 = Inr []"
| "collect [] offset (Suc r) = Inl Fault"
| "collect (part # parts) offset (Suc r) =
     (if offset > length part then Inl Fault
      else let n = min (Suc r) (length part - offset) in
        bindE (collect parts 0 (Suc r - n)) (\<lambda>more. Inr (take n (drop offset part) @ more)))"

text \<open>The loop that drops them from the queue.\<close>

function consume :: "byte list list \<Rightarrow> nat \<Rightarrow> nat \<Rightarrow> (relay_error, byte list list \<times> nat) res" where
  "consume parts offset remaining =
     (if remaining = 0 then Inr (parts, offset)
      else case parts of
        [] \<Rightarrow> Inl Fault
      | part # rest \<Rightarrow>
          if offset > length part then Inl Fault
          else let n = min remaining (length part - offset) in
            if offset + n = length part then consume rest 0 (remaining - n)
            else consume parts (offset + n) (remaining - n))"
  by pat_completeness auto
termination
  by (relation "measure (\<lambda>(parts, offset, remaining). length parts + remaining)") auto

declare consume.simps [simp del]

definition Next :: "packet_encoder \<Rightarrow> nat \<Rightarrow> (relay_error, packet_encoder \<times> byte list) res" where
  "Next e capacity =
     (let Overhead = HeaderSize + OffsetSize in
      if capacity \<le> Overhead then Inl (Throw (PacketFramingError InvalidCapacity))
      else
        let count = min (e_pendingBytes e) (min (capacity - Overhead) (MaximumPayloadSize - OffsetSize)) in
        if count = 0 then Inr (e, [])
        else if count > 2 ^ 64 - 1 - unat (e_offset e) then Inl (Throw (PacketFramingError InvalidFragment))
        else
          bindE (collect (e_pending e) (e_pendingOffset e) count) (\<lambda>data.
          bindE (Encode \<lparr>fr_type = Fragment, fr_payload = Append64 (e_offset e) @ data\<rparr>) (\<lambda>encoded.
          bindE (consume (e_pending e) (e_pendingOffset e) count) (\<lambda>(pending, pendingOffset).
            Inr (\<lparr>e_offset = e_offset e + word_of_nat count, e_pending = pending,
                  e_pendingOffset = pendingOffset, e_pendingBytes = e_pendingBytes e - count\<rparr>, encoded)))))"

section \<open>PacketReassembler\<close>

definition MaximumWindow :: nat where "MaximumWindow = 4 * 1024 * 1024"
definition MaximumFragments :: nat where "MaximumFragments = 4096"

text \<open>The \<^verbatim>\<open>std::map\<close> of fragments is a list in ascending order of the keys.\<close>

record packet_reassembler =
  r_fragments :: "(u64 \<times> byte list) list"
  r_offset :: u64
  r_bytes :: nat

definition empty_reassembler :: packet_reassembler where
  "empty_reassembler = \<lparr>r_fragments = [], r_offset = 0, r_bytes = 0\<rparr>"

definition below :: "u64 \<Rightarrow> (u64 \<times> byte list) list \<Rightarrow> (u64 \<times> byte list) list" where
  "below offset = takeWhile (\<lambda>p. fst p < offset)"

definition lower_bound :: "u64 \<Rightarrow> (u64 \<times> byte list) list \<Rightarrow> (u64 \<times> byte list) list" where
  "lower_bound offset = dropWhile (\<lambda>p. fst p < offset)"

definition fragment_overlaps :: "u64 \<Rightarrow> byte list \<Rightarrow> (u64 \<times> byte list) list \<Rightarrow> bool" where
  "fragment_overlaps offset data fragments \<longleftrightarrow>
     (case lower_bound offset fragments of [] \<Rightarrow> False
      | next # _ \<Rightarrow> offset + word_of_nat (length data) > fst next) \<or>
     (case rev (below offset fragments) of [] \<Rightarrow> False
      | prev # _ \<Rightarrow> fst prev + word_of_nat (length (snd prev)) > offset)"

definition Reassembler_Accept :: "packet_reassembler \<Rightarrow> byte list \<Rightarrow> (relay_error, packet_reassembler) res" where
  "Reassembler_Accept r payload =
     (if length payload \<le> OffsetSize then Inl (Throw (PacketFramingError InvalidFragment))
      else
        bindE (slice payload 0 OffsetSize) (\<lambda>offsetBytes.
        bindE (slice payload OffsetSize (length payload - OffsetSize)) (\<lambda>data.
        let offset = be64 offsetBytes in
        if offset < r_offset r then Inl (Throw (PacketFramingError OverlappingFragment))
        else if length data > MaximumWindow \<or> unat (offset - r_offset r) > MaximumWindow - length data \<or>
          length data > 2 ^ 64 - 1 - unat offset \<or> length (r_fragments r) \<ge> MaximumFragments
        then Inl (Throw (PacketFramingError WindowExceeded))
        else if fragment_overlaps offset data (r_fragments r)
        then Inl (Throw (PacketFramingError OverlappingFragment))
        else Inr (r\<lparr>r_fragments := below offset (r_fragments r) @ (offset, data) # lower_bound offset (r_fragments r),
                    r_bytes := r_bytes r + length data\<rparr>))))"

definition Take :: "packet_reassembler \<Rightarrow> packet_reassembler \<times> byte list" where
  "Take r =
     (case r_fragments r of
        [] \<Rightarrow> (r, [])
      | (key, data) # rest \<Rightarrow>
          if key \<noteq> r_offset r then (r, [])
          else (\<lparr>r_fragments = rest, r_offset = r_offset r + word_of_nat (length data),
                 r_bytes = r_bytes r - length data\<rparr>, data))"

definition Reassembler_BufferedBytes :: "packet_reassembler \<Rightarrow> nat" where
  "Reassembler_BufferedBytes r = r_bytes r"

section \<open>Checked reads of a fragment\<close>

text \<open>The guard on the length keeps both reads of the payload inside it.\<close>

lemma Reassembler_Accept_eq:
  "Reassembler_Accept r payload =
     (if length payload \<le> OffsetSize then Inl (Throw (PacketFramingError InvalidFragment))
      else
        let offset = be64 (take OffsetSize payload); data = drop OffsetSize payload in
        if offset < r_offset r then Inl (Throw (PacketFramingError OverlappingFragment))
        else if length data > MaximumWindow \<or> unat (offset - r_offset r) > MaximumWindow - length data \<or>
          length data > 2 ^ 64 - 1 - unat offset \<or> length (r_fragments r) \<ge> MaximumFragments
        then Inl (Throw (PacketFramingError WindowExceeded))
        else if fragment_overlaps offset data (r_fragments r)
        then Inl (Throw (PacketFramingError OverlappingFragment))
        else Inr (r\<lparr>r_fragments := below offset (r_fragments r) @ (offset, data) # lower_bound offset (r_fragments r),
                    r_bytes := r_bytes r + length data\<rparr>))"
proof (cases "length payload \<le> OffsetSize")
  case False
  then have "slice payload 0 OffsetSize = (Inr (take OffsetSize payload) :: (relay_error, _) res)"
    "slice payload OffsetSize (length payload - OffsetSize) = (Inr (drop OffsetSize payload) :: (relay_error, _) res)"
    by simp_all
  then show ?thesis using False by (simp only: Reassembler_Accept_def if_False bindE_simps Let_def)
qed (simp add: Reassembler_Accept_def)

section \<open>The encoder is a queue of bytes\<close>

definition encoder_ok :: "packet_encoder \<Rightarrow> bool" where
  "encoder_ok e \<longleftrightarrow>
     (\<forall>p\<in>set (e_pending e). p \<noteq> []) \<and>
     (case e_pending e of [] \<Rightarrow> e_pendingOffset e = 0 | p # _ \<Rightarrow> e_pendingOffset e < length p) \<and>
     e_pendingBytes e + e_pendingOffset e = length (concat (e_pending e)) \<and>
     e_pendingBytes e \<le> MaximumPendingBytes"

text \<open>The bytes queued and not yet sent.\<close>

definition unsent :: "packet_encoder \<Rightarrow> byte list" where
  "unsent e = drop (e_pendingOffset e) (concat (e_pending e))"

lemma encoder_ok_empty: "encoder_ok empty_encoder"
  by (simp add: encoder_ok_def empty_encoder_def)

lemma length_unsent: "encoder_ok e \<Longrightarrow> length (unsent e) = e_pendingBytes e"
  unfolding encoder_ok_def unsent_def length_drop by linarith

lemma collect_eq:
  assumes "case parts of [] \<Rightarrow> offset = 0 | p # _ \<Rightarrow> offset \<le> length p"
    and "offset + n \<le> length (concat parts)"
  shows "collect parts offset n = Inr (take n (drop offset (concat parts)))"
  using assms
proof (induction parts offset n rule: collect.induct)
  case (3 part parts offset r)
  let ?m = "min (Suc r) (length part - offset)"
  have o: "offset \<le> length part" "offset + Suc r \<le> length part + length (concat parts)" using 3(2,3) by auto
  then have "Suc r - ?m \<le> length (concat parts)" by linarith
  moreover have "case parts of [] \<Rightarrow> 0 = (0 :: nat) | p # _ \<Rightarrow> 0 \<le> length p" by (simp split: list.split)
  ultimately have "collect parts 0 (Suc r - ?m) = Inr (take (Suc r - ?m) (concat parts))"
    using 3(1) o by simp
  then show ?case using 3(2) by (simp add: Let_def min_def)
qed auto

lemma consume_eq:
  assumes "case parts of [] \<Rightarrow> offset = 0 | p # _ \<Rightarrow> offset < length p" and "\<forall>p\<in>set parts. p \<noteq> []"
    and "offset + n \<le> length (concat parts)"
  shows "\<exists>parts' offset'. consume parts offset n = Inr (parts', offset') \<and>
    drop offset' (concat parts') = drop (offset + n) (concat parts) \<and>
    length (concat parts') + offset + n = length (concat parts) + offset' \<and>
    (case parts' of [] \<Rightarrow> offset' = 0 | p # _ \<Rightarrow> offset' < length p) \<and> set parts' \<subseteq> set parts"
  using assms
proof (induction parts offset n rule: consume.induct)
  case (1 parts offset n)
  show ?case
  proof (cases "n = 0")
    case True
    then show ?thesis using 1(3) by (subst consume.simps) simp
  next
    case False
    then obtain p ps where parts: "parts = p # ps" using 1(3,5) by (cases parts) auto
    then have o: "offset < length p" using 1(3) by simp
    let ?m = "min n (length p - offset)"
    show ?thesis
    proof (cases "offset + ?m = length p")
      case True
      then have m: "?m = length p - offset" "length p - offset \<le> n" by (auto simp: min_def split: if_splits)
      have "case ps of [] \<Rightarrow> 0 = (0 :: nat) | p # _ \<Rightarrow> 0 < length p" using 1(4) parts by (auto split: list.split)
      moreover have "0 + (n - ?m) \<le> length (concat ps)" using 1(5) parts o m by simp
      ultimately obtain ps' o' where IH: "consume ps 0 (n - ?m) = Inr (ps', o')"
        "drop o' (concat ps') = drop (n - ?m) (concat ps)"
        "length (concat ps') + (n - ?m) = length (concat ps) + o'"
        "case ps' of [] \<Rightarrow> o' = 0 | p # _ \<Rightarrow> o' < length p" "set ps' \<subseteq> set ps"
        using 1(1) [OF False parts _ refl True] 1(4,5) parts o m by auto
      have "consume parts offset n = Inr (ps', o')"
        using False parts o True IH(1) by (subst consume.simps) (simp add: Let_def)
      moreover have "drop o' (concat ps') = drop (offset + n) (concat parts)"
        using IH(2) m parts o by (simp add: add.commute)
      moreover have "length (concat ps') + offset + n = length (concat parts) + o'"
        using IH(3) m parts o by simp
      ultimately show ?thesis using IH(4,5) parts by auto
    next
      case F: False
      then have "?m = n" using o by linarith
      then have "consume parts offset n = Inr (parts, offset + n)"
        using False parts o F by (subst consume.simps) (simp add: Let_def consume.simps)
      then show ?thesis using F \<open>?m = n\<close> parts o by auto
    qed
  qed
qed

lemma Queue_refines:
  assumes "encoder_ok e"
  shows "if length (unsent e) + length bytes > MaximumPendingBytes
    then Queue e bytes = Inl (Throw (PacketFramingError WindowExceeded))
    else \<exists>e'. Queue e bytes = Inr e' \<and> encoder_ok e' \<and> unsent e' = unsent e @ bytes \<and> e_offset e' = e_offset e"
proof (cases "bytes = [] \<or> length bytes > MaximumPendingBytes - e_pendingBytes e")
  case True
  moreover have "e_pendingBytes e \<le> MaximumPendingBytes" using assms by (simp add: encoder_ok_def)
  ultimately show ?thesis using assms by (auto simp: Queue_def length_unsent)
next
  case False
  let ?e = "e\<lparr>e_pending := e_pending e @ [bytes], e_pendingBytes := e_pendingBytes e + length bytes\<rparr>"
  have le: "e_pendingBytes e + length bytes \<le> MaximumPendingBytes"
    using assms False unfolding encoder_ok_def by linarith
  then have "encoder_ok ?e"
    using assms False by (cases "e_pending e") (simp_all add: encoder_ok_def)
  moreover have "unsent ?e = unsent e @ bytes"
    using assms by (auto simp: encoder_ok_def unsent_def)
  moreover have "length (unsent e) + length bytes \<le> MaximumPendingBytes"
    using assms le by (simp add: length_unsent)
  ultimately show ?thesis using False by (simp add: Queue_def)
qed

lemma Next_refines:
  assumes data_def: "data = take (min (capacity - 20) (MaximumPayloadSize - 8)) (unsent e)"
    and "encoder_ok e" and "capacity > 20" and "unat (e_offset e) + length data < 2 ^ 64"
  shows "\<exists>e'. Next e capacity =
      Inr (e', if unsent e = [] then [] else encoding \<lparr>fr_type = Fragment, fr_payload = Append64 (e_offset e) @ data\<rparr>) \<and>
    encoder_ok e' \<and> unsent e = data @ unsent e' \<and> unat (e_offset e') = unat (e_offset e) + length data"
proof -
  define n where "n = min (e_pendingBytes e) (min (capacity - 20) (MaximumPayloadSize - 8))"
  have len: "length (unsent e) = e_pendingBytes e" using assms(2) by (rule length_unsent)
  then have data: "data = take n (unsent e)" "length data = n" unfolding data_def n_def by (simp_all add: min_def)
  show ?thesis
  proof (cases "e_pendingBytes e = 0")
    case True
    then show ?thesis using len assms(2,3) data by (auto simp: Next_def Let_def HeaderSize_def OffsetSize_def n_def)
  next
    case False
    then have n: "n \<noteq> 0" "n \<le> e_pendingBytes e" using assms(3) by (auto simp: MaximumPayloadSize_def n_def)
    have ok: "\<forall>p\<in>set (e_pending e). p \<noteq> []"
      "case e_pending e of [] \<Rightarrow> e_pendingOffset e = 0 | p # _ \<Rightarrow> e_pendingOffset e < length p"
      "e_pendingOffset e + n \<le> length (concat (e_pending e))"
      using assms(2) n(2) by (auto simp: encoder_ok_def)
    have c: "collect (e_pending e) (e_pendingOffset e) n = Inr data"
      using collect_eq [OF _ ok(3)] ok(2) data(1) by (auto simp: unsent_def split: list.splits)
    obtain ps off where p: "consume (e_pending e) (e_pendingOffset e) n = Inr (ps, off)"
      "drop off (concat ps) = drop (e_pendingOffset e + n) (concat (e_pending e))"
      "length (concat ps) + e_pendingOffset e + n = length (concat (e_pending e)) + off"
      "case ps of [] \<Rightarrow> off = 0 | p # _ \<Rightarrow> off < length p" "set ps \<subseteq> set (e_pending e)"
      using consume_eq [OF ok(2,1,3)] by blast
    let ?f = "\<lparr>fr_type = Fragment, fr_payload = Append64 (e_offset e) @ data\<rparr>"
    have "frame_ok ?f"
      using data(2) by (simp add: n_def frame_ok_def IsKnownType_def Authenticate_def NetworkMapAck_def Fragment_def
          MaximumPayloadSize_def)
    then have enc: "Encode ?f = Inr (encoding ?f)" by (simp add: Encode_Inr)
    let ?e = "\<lparr>e_offset = e_offset e + word_of_nat n, e_pending = ps, e_pendingOffset = off,
      e_pendingBytes = e_pendingBytes e - n\<rparr>"
    have below: "unat (e_offset e) + n < 18446744073709551616" using assms(4) data(2) by simp
    then have max: "\<not> n > 2 ^ 64 - 1 - unat (e_offset e)" by simp
    have "Next e capacity = Inr (?e, encoding ?f)"
      using assms(3) n(1) max
      by (simp add: Next_def HeaderSize_def OffsetSize_def Let_def n_def [symmetric] c enc p(1))
    moreover have "encoder_ok ?e"
      using p(3,4,5) ok(1) assms(2) n(2) by (cases ps) (auto simp: encoder_ok_def)
    moreover have "unsent e = data @ unsent ?e"
      using p(2) append_take_drop_id [of n "unsent e"] unfolding data(1)
      by (simp add: unsent_def add.commute)
    moreover have "unat (e_offset ?e) = unat (e_offset e) + length data"
      using below unfolding data(2) by (simp add: unat_word_ariths unat_of_nat)
    ultimately show ?thesis using False len by auto
  qed
qed

lemma Next_Inr:
  assumes "encoder_ok e" and "Next e capacity = Inr (e', out)"
  shows "\<exists>data. encoder_ok e' \<and> unsent e = data @ unsent e' \<and> unat (e_offset e') = unat (e_offset e) + length data \<and>
    length data \<le> MaximumPayloadSize - 8 \<and> length out \<le> capacity \<and>
    out = (if data = [] then [] else encoding \<lparr>fr_type = Fragment, fr_payload = Append64 (e_offset e) @ data\<rparr>)"
proof -
  let ?data = "take (min (capacity - 20) (MaximumPayloadSize - 8)) (unsent e)"
  have cap: "\<not> capacity \<le> 20"
    using assms(2) by (rule_tac notI) (simp add: Next_def HeaderSize_def OffsetSize_def)
  let ?n = "min (e_pendingBytes e) (min (capacity - 20) (MaximumPayloadSize - 8))"
  have "?n \<le> 2 ^ 64 - 1 - unat (e_offset e)"
  proof (rule ccontr)
    assume "\<not> ?thesis"
    then have "Next e capacity = Inl (Throw (PacketFramingError InvalidFragment))"
      using cap by (auto simp: Next_def HeaderSize_def OffsetSize_def Let_def not_le)
    then show False using assms(2) by simp
  qed
  moreover have "length ?data = ?n" using assms(1) by (simp add: length_unsent)
  ultimately have "length ?data \<le> 2 ^ 64 - 1 - unat (e_offset e)" by simp
  then have "unat (e_offset e) + length ?data < 2 ^ 64"
    using unsigned_less [of "e_offset e", where 'a = nat] by simp
  from Next_refines [OF refl assms(1) _ this] assms(2) cap
  show ?thesis by (intro exI [of _ ?data]) (auto simp: HeaderSize_def MaximumPayloadSize_def)
qed

section \<open>The reassembler keeps disjoint fragments in order\<close>

fun chained :: "nat \<Rightarrow> (u64 \<times> byte list) list \<Rightarrow> bool" where
  "chained lo [] = True"
| "chained lo ((k, d) # fs) = (lo \<le> unat k \<and> d \<noteq> [] \<and> chained (unat k + length d) fs)"

fun chain_end :: "nat \<Rightarrow> (u64 \<times> byte list) list \<Rightarrow> nat" where
  "chain_end lo [] = lo"
| "chain_end lo ((k, d) # fs) = chain_end (unat k + length d) fs"

definition fits :: "nat \<Rightarrow> u64 \<times> byte list \<Rightarrow> bool" where
  "fits hi f \<longleftrightarrow> unat (fst f) + length (snd f) \<le> hi \<and> unat (fst f) + length (snd f) < 2 ^ 64"

definition reassembler_ok :: "packet_reassembler \<Rightarrow> bool" where
  "reassembler_ok r \<longleftrightarrow>
     chained (unat (r_offset r)) (r_fragments r) \<and>
     list_all (fits (unat (r_offset r) + MaximumWindow)) (r_fragments r) \<and>
     length (r_fragments r) \<le> MaximumFragments \<and>
     r_bytes r = length (concat (map snd (r_fragments r)))"

lemma chained_append: "chained lo (xs @ ys) \<longleftrightarrow> chained lo xs \<and> chained (chain_end lo xs) ys"
  by (induction lo xs rule: chained.induct) auto

lemma chain_end_append: "chain_end lo (xs @ ys) = chain_end (chain_end lo xs) ys"
  by (induction lo xs rule: chain_end.induct) auto

lemma chained_le_end: "chained lo fs \<Longrightarrow> lo + length (concat (map snd fs)) \<le> chain_end lo fs"
  by (induction lo fs rule: chained.induct) auto

lemma chained_mono: "chained lo fs \<Longrightarrow> (\<And>k d. (k, d) \<in> set fs \<Longrightarrow> lo' \<le> unat k) \<Longrightarrow> chained lo' fs"
  by (cases "(lo, fs)" rule: chained.cases) auto

lemma chained_keys: "chained lo fs \<Longrightarrow> (k, d) \<in> set fs \<Longrightarrow> lo \<le> unat k"
proof (induction lo fs rule: chained.induct)
  case (2 lo k' d' fs)
  then show ?case by fastforce
qed simp

text \<open>The window bounds the memory held: disjoint fragments fit into it.\<close>

lemma chain_end_le: "list_all (fits hi) fs \<Longrightarrow> lo \<le> hi \<Longrightarrow> chain_end lo fs \<le> hi"
  by (induction lo fs rule: chain_end.induct) (auto simp: fits_def)

lemma reassembler_ok_bytes: "reassembler_ok r \<Longrightarrow> r_bytes r \<le> MaximumWindow"
  using chained_le_end [of "unat (r_offset r)" "r_fragments r"]
    chain_end_le [of "unat (r_offset r) + MaximumWindow" "r_fragments r" "unat (r_offset r)"]
  by (auto simp: reassembler_ok_def)

lemma reassembler_ok_empty: "reassembler_ok empty_reassembler"
  by (simp add: reassembler_ok_def empty_reassembler_def)

definition meets :: "u64 \<times> byte list \<Rightarrow> u64 \<times> byte list \<Rightarrow> bool" where
  "meets f g \<longleftrightarrow> unat (fst f) < unat (fst g) + length (snd g) \<and> unat (fst g) < unat (fst f) + length (snd f)"

lemma unat_key_end: "unat k + n < 2 ^ 64 \<Longrightarrow> unat ((k :: u64) + word_of_nat n) = unat k + n"
  by (simp add: unat_word_ariths unat_of_nat)

lemma below_lower_bound: "below k fs @ lower_bound k fs = fs"
  by (simp add: below_def lower_bound_def)

lemma below_key: "f \<in> set (below k fs) \<Longrightarrow> f \<in> set fs \<and> fst f < k"
  unfolding below_def by (auto dest: set_takeWhileD)

lemma lower_bound_hd: "lower_bound k fs = f # gs \<Longrightarrow> f \<in> set fs \<and> k \<le> fst f"
proof -
  assume a: "lower_bound k fs = f # gs"
  then have "\<not> fst f < k" unfolding lower_bound_def by (metis hd_dropWhile list.discI list.sel(1))
  moreover have "f \<in> set fs" using a below_lower_bound [of k fs] by (metis in_set_conv_decomp)
  ultimately show ?thesis by simp
qed

lemma overlaps_imp_meets:
  assumes "fits hi (k, d)" and "list_all (fits hi') fs" and "\<forall>f\<in>set fs. \<not> meets f (k, d)" and "d \<noteq> []"
    and "\<forall>f\<in>set fs. snd f \<noteq> []"
  shows "\<not> fragment_overlaps k d fs"
proof -
  have "\<not> k + word_of_nat (length d) > fst f" if f: "lower_bound k fs = f # gs" for f gs
  proof -
    have "f \<in> set fs" "unat k \<le> unat (fst f)"
      using lower_bound_hd [OF f] by (auto simp: word_le_nat_alt)
    moreover have "length (snd f) > 0" "\<not> meets f (k, d)" using assms(3,5) \<open>f \<in> set fs\<close> by auto
    ultimately have "unat k + length d \<le> unat (fst f)"
      unfolding meets_def fst_conv snd_conv by linarith
    then show ?thesis
      using unat_key_end [of k "length d"] assms(1) by (simp add: fits_def word_less_nat_alt)
  qed
  moreover have "\<not> fst f + word_of_nat (length (snd f)) > k" if f: "rev (below k fs) = f # gs" for f gs
  proof -
    have "f \<in> set (below k fs)" using f by (metis list.set_intros(1) set_rev)
    then have m: "f \<in> set fs" "unat (fst f) < unat k" using below_key [of f k fs] by (auto simp: word_less_nat_alt)
    moreover have "length d > 0" "\<not> meets f (k, d)" using assms(3,4) m(1) by auto
    ultimately have "unat (fst f) + length (snd f) \<le> unat k"
      unfolding meets_def fst_conv snd_conv by linarith
    moreover have "unat (fst f) + length (snd f) < 2 ^ 64"
      using assms(2) m(1) by (auto simp: list_all_iff fits_def)
    ultimately show ?thesis using unat_key_end [of "fst f" "length (snd f)"] by (simp add: word_less_nat_alt)
  qed
  ultimately show ?thesis unfolding fragment_overlaps_def by (auto split: list.split)
qed

lemma chain_end_last:
  "fs \<noteq> [] \<Longrightarrow> chain_end lo fs = unat (fst (last fs)) + length (snd (last fs))"
  by (induction lo fs rule: chain_end.induct) auto

lemma insert_chained:
  assumes "chained lo fs" and "list_all (fits hi) fs" and "fits hi' (k, d)" and "lo \<le> unat k" and "d \<noteq> []"
    and "\<not> fragment_overlaps k d fs"
  shows "chained lo (below k fs @ (k, d) # lower_bound k fs)"
proof -
  have c: "chained lo (below k fs)" "chained (chain_end lo (below k fs)) (lower_bound k fs)"
    using assms(1) below_lower_bound [of k fs] chained_append by metis+
  have "chain_end lo (below k fs) \<le> unat k"
  proof (cases "below k fs" rule: rev_cases)
    case (snoc bs f)
    then have "f \<in> set fs" using below_key [of f k fs] by simp
    then have "unat (fst f) + length (snd f) < 2 ^ 64" using assms(2) by (auto simp: list_all_iff fits_def)
    moreover have "\<not> fst f + word_of_nat (length (snd f)) > k"
      using assms(6) snoc by (simp add: fragment_overlaps_def)
    ultimately show ?thesis
      using unat_key_end [of "fst f" "length (snd f)"] chain_end_last [of "below k fs" lo] snoc
      by (simp add: word_less_nat_alt)
  qed (use assms(4) in simp)
  moreover have "chained (unat k + length d) (lower_bound k fs)"
  proof (cases "lower_bound k fs")
    case (Cons f gs)
    then have "\<not> k + word_of_nat (length d) > fst f"
      using assms(6) by (simp add: fragment_overlaps_def)
    then have "unat k + length d \<le> unat (fst f)"
      using unat_key_end [of k "length d"] assms(3) by (simp add: fits_def word_less_nat_alt)
    then show ?thesis using c(2) Cons by (cases f) auto
  qed simp
  ultimately show ?thesis using c(1) assms(5) by (simp add: chained_append)
qed

lemma set_insert_fragment: "set (below k fs @ (k, d) # lower_bound k fs) = insert (k, d) (set fs)"
  using below_lower_bound [of k fs] by (metis Un_insert_right list.simps(15) set_append)

lemma length_insert_fragment: "length (below k fs @ (k, d) # lower_bound k fs) = Suc (length fs)"
  using arg_cong [OF below_lower_bound [of k fs], of length] by simp

lemma bytes_insert_fragment:
  "length (concat (map snd (below k fs @ (k, d) # lower_bound k fs))) = length (concat (map snd fs)) + length d"
proof -
  have "length (concat (map snd fs)) =
      length (concat (map snd (below k fs))) + length (concat (map snd (lower_bound k fs)))"
    using below_lower_bound [of k fs] by (metis concat_append length_append map_append)
  then show ?thesis by simp
qed

text \<open>What a successful \<open>Accept\<close> does, and that the invariant holds afterwards.\<close>

lemma Reassembler_Accept_Inr:
  assumes "reassembler_ok r" and "Reassembler_Accept r payload = Inr r'"
  defines "k \<equiv> be64 (take 8 payload)" and "d \<equiv> drop 8 payload"
  shows "reassembler_ok r' \<and> r_offset r' = r_offset r \<and> set (r_fragments r') = insert (k, d) (set (r_fragments r))"
proof -
  let ?fs = "below k (r_fragments r) @ (k, d) # lower_bound k (r_fragments r)"
  have g: "8 < length payload" "\<not> k < r_offset r" "length d \<le> MaximumWindow"
    "unat (k - r_offset r) \<le> MaximumWindow - length d" "length d \<le> 2 ^ 64 - 1 - unat k"
    "length (r_fragments r) < MaximumFragments" "\<not> fragment_overlaps k d (r_fragments r)"
    and r': "r' = r\<lparr>r_fragments := ?fs, r_bytes := r_bytes r + length d\<rparr>"
    using assms(2) unfolding Reassembler_Accept_eq OffsetSize_def k_def d_def Let_def
    by (simp_all split: if_splits)
  have o: "unat (r_offset r) \<le> unat k" using g(2) by (simp add: word_less_nat_alt)
  moreover have "unat (k - r_offset r) = unat k - unat (r_offset r)"
    using o by (simp add: unat_sub word_le_nat_alt)
  moreover have "unat k < 2 ^ 64" using unsigned_less [of k, where 'a = nat] by simp
  ultimately have f: "fits (unat (r_offset r) + MaximumWindow) (k, d)"
    using g(3,4,5) unfolding fits_def fst_conv snd_conv by linarith
  have "d \<noteq> []" using g(1) by (simp add: d_def)
  then have "chained (unat (r_offset r)) ?fs"
    using insert_chained [OF _ _ f o _ g(7)] assms(1) unfolding reassembler_ok_def by blast
  moreover have "list_all (fits (unat (r_offset r) + MaximumWindow)) ?fs"
    unfolding list_all_iff set_insert_fragment using f assms(1) by (auto simp: reassembler_ok_def list_all_iff)
  moreover have "length ?fs \<le> MaximumFragments" unfolding length_insert_fragment using g(6) by simp
  moreover have "r_bytes r' = length (concat (map snd ?fs))"
    unfolding bytes_insert_fragment r' using assms(1) by (simp add: reassembler_ok_def)
  ultimately show ?thesis
    unfolding r' reassembler_ok_def using set_insert_fragment by simp
qed

lemma Take_ok:
  assumes "reassembler_ok r" and "Take r = (r', out)"
  shows "reassembler_ok r' \<and> unat (r_offset r') = unat (r_offset r) + length out \<and>
    (out = [] \<and> r' = r \<or> r_fragments r = (r_offset r, out) # r_fragments r')"
proof (cases "r_fragments r")
  case Nil
  then show ?thesis using assms by (auto simp: Take_def)
next
  case (Cons f fs)
  obtain k d where f: "f = (k, d)" by fastforce
  show ?thesis
  proof (cases "k = r_offset r")
    case False
    then show ?thesis using assms Cons f by (auto simp: Take_def)
  next
    case True
    then have r': "r' = \<lparr>r_fragments = fs, r_offset = r_offset r + word_of_nat (length d), r_bytes = r_bytes r - length d\<rparr>"
      "out = d" using assms(2) Cons f by (auto simp: Take_def)
    have "unat k + length d < 2 ^ 64" using assms(1) Cons f by (simp add: reassembler_ok_def fits_def)
    then have u: "unat (r_offset r') = unat k + length d" using unat_key_end True r' by simp
    have "list_all (fits (unat (r_offset r') + MaximumWindow)) fs"
      using assms(1) Cons True unfolding u by (fastforce simp: reassembler_ok_def list_all_iff fits_def)
    then have "reassembler_ok r'"
      using assms(1) Cons f True u unfolding reassembler_ok_def by (simp add: r')
    then show ?thesis using u r' True Cons f by simp
  qed
qed

section \<open>From the encoder to the reassembler\<close>

text \<open>Driving the encoder: bytes are queued and transport buffers filled in any order.\<close>

datatype encoder_op = QueueOp "byte list" | NextOp nat

fun encoder_run :: "packet_encoder \<Rightarrow> encoder_op list \<Rightarrow> (relay_error, packet_encoder \<times> byte list) res" where
  "encoder_run e [] = Inr (e, [])"
| "encoder_run e (QueueOp bytes # ops) = bindE (Queue e bytes) (\<lambda>e'. encoder_run e' ops)"
| "encoder_run e (NextOp capacity # ops) =
     bindE (Next e capacity) (\<lambda>(e', out).
     bindE (encoder_run e' ops) (\<lambda>(e'', outs). Inr (e'', out @ outs)))"

fun queued :: "encoder_op list \<Rightarrow> byte list" where
  "queued [] = []"
| "queued (QueueOp bytes # ops) = bytes @ queued ops"
| "queued (NextOp capacity # ops) = queued ops"

text \<open>The fragments of a stream cut into chunks, and the frame of a fragment.\<close>

fun fragments_of :: "nat \<Rightarrow> byte list list \<Rightarrow> (u64 \<times> byte list) list" where
  "fragments_of off [] = []"
| "fragments_of off (c # cs) = (word_of_nat off, c) # fragments_of (off + length c) cs"

definition fragment_payload :: "u64 \<times> byte list \<Rightarrow> byte list" where
  "fragment_payload f = Append64 (fst f) @ snd f"

definition fragment_frame :: "u64 \<times> byte list \<Rightarrow> frame" where
  "fragment_frame f = \<lparr>fr_type = Fragment, fr_payload = fragment_payload f\<rparr>"

definition chunks_ok :: "byte list list \<Rightarrow> bool" where
  "chunks_ok cs \<longleftrightarrow> (\<forall>c\<in>set cs. c \<noteq> [] \<and> length c \<le> MaximumPayloadSize - 8)"

lemma encoder_run_stream:
  assumes "encoder_ok e" and "encoder_run e ops = Inr (e', wire)"
  shows "\<exists>cs. chunks_ok cs \<and> unsent e @ queued ops = concat cs @ unsent e' \<and>
    wire = concat (map (\<lambda>f. encoding (fragment_frame f)) (fragments_of (unat (e_offset e)) cs)) \<and> encoder_ok e'"
  using assms
proof (induction e ops arbitrary: e' wire rule: encoder_run.induct)
  case (1 e)
  then show ?case by (intro exI [of _ "[]"]) (simp add: chunks_ok_def)
next
  case (2 e bytes ops)
  then obtain e1 where e1: "Queue e bytes = Inr e1" "encoder_run e1 ops = Inr (e', wire)"
    by (auto simp: bindE_eq_Inr_iff)
  then have "encoder_ok e1" "unsent e1 = unsent e @ bytes" "e_offset e1 = e_offset e"
    using Queue_refines [OF 2(2), of bytes] by (auto split: if_splits)
  then show ?case using 2(1) [OF e1(1) _ e1(2)] by auto
next
  case (3 e capacity ops)
  then obtain e1 out outs where e1: "Next e capacity = Inr (e1, out)" "encoder_run e1 ops = Inr (e', outs)"
    "wire = out @ outs"
    by (auto simp: bindE_eq_Inr_iff split: prod.splits)
  from Next_Inr [OF 3(2) e1(1)] obtain data where d: "encoder_ok e1" "unsent e = data @ unsent e1"
    "unat (e_offset e1) = unat (e_offset e) + length data" "length data \<le> MaximumPayloadSize - 8"
    "out = (if data = [] then [] else encoding \<lparr>fr_type = Fragment, fr_payload = Append64 (e_offset e) @ data\<rparr>)"
    by blast
  from 3(1) [OF e1(1) refl d(1) e1(2)] obtain cs where cs: "chunks_ok cs" "unsent e1 @ queued ops = concat cs @ unsent e'"
    "outs = concat (map (\<lambda>f. encoding (fragment_frame f)) (fragments_of (unat (e_offset e1)) cs))" "encoder_ok e'" by blast
  show ?case
  proof (cases "data = []")
    case True
    then show ?thesis using d cs e1(3) by (intro exI [of _ cs]) simp
  next
    case False
    then show ?thesis using d cs e1(3)
      by (intro exI [of _ "data # cs"]) (simp add: chunks_ok_def fragment_frame_def fragment_payload_def)
  qed
qed

lemma chained_fragments_of:
  "off + length (concat cs) < 2 ^ 64 \<Longrightarrow> chunks_ok cs \<Longrightarrow>
     chained off (fragments_of off cs) \<and> list_all (fits (off + length (concat cs))) (fragments_of off cs)"
proof (induction cs arbitrary: off)
  case (Cons c cs)
  have "unat (word_of_nat off :: u64) = off" using Cons.prems(1) by (simp add: unat_of_nat)
  then show ?case
    using Cons.IH [of "off + length c"] Cons.prems by (simp add: chunks_ok_def fits_def add.assoc)
qed simp

lemma chained_disjoint:
  "chained lo fs \<Longrightarrow> f \<in> set fs \<Longrightarrow> g \<in> set fs \<Longrightarrow> meets f g \<Longrightarrow> f = g"
proof (induction lo fs rule: chained.induct)
  case (2 lo k d fs)
  have "unat k + length d \<le> unat (fst h)" if "h \<in> set fs" for h
    using chained_keys [of "unat k + length d" fs "fst h" "snd h"] 2(2) that by simp
  with 2 show ?case by (fastforce simp: meets_def)
qed simp

lemma chained_nonempty: "chained lo fs \<Longrightarrow> g \<in> set fs \<Longrightarrow> snd g \<noteq> []"
  by (induction lo fs rule: chained.induct) auto

lemma chained_distinct: "chained lo fs \<Longrightarrow> distinct fs"
proof (induction lo fs rule: chained.induct)
  case (2 lo k d fs)
  then show ?case using chained_keys [of "unat k + length d" fs k d] by auto
qed simp

lemma chained_unique: "chained lo fs \<Longrightarrow> chained lo' gs \<Longrightarrow> set fs = set gs \<Longrightarrow> fs = gs"
proof (induction lo fs arbitrary: gs lo' rule: chained.induct)
  case (2 lo k d fs)
  then obtain k' d' gs' where gs: "gs = (k', d') # gs'" by (cases gs) auto
  have "(k, d) = (k', d')"
  proof (rule ccontr)
    assume "(k, d) \<noteq> (k', d')"
    then have "(k, d) \<in> set gs'" "(k', d') \<in> set fs" using 2(4) gs by auto
    then have "unat k' + length d' \<le> unat k" "unat k + length d \<le> unat k'"
      using chained_keys 2(2,3) gs by auto
    moreover have "length d > 0" using 2(2) by simp
    ultimately show False by linarith
  qed
  moreover have "set fs = set gs'"
    using chained_distinct [OF 2(2)] chained_distinct [OF 2(3)] 2(4) calculation unfolding gs by auto
  ultimately show ?case using 2 gs by auto
qed simp

fun accept_fragments :: "packet_reassembler \<Rightarrow> byte list list \<Rightarrow> (relay_error, packet_reassembler) res" where
  "accept_fragments r [] = Inr r"
| "accept_fragments r (p # ps) = bindE (Reassembler_Accept r p) (\<lambda>r'. accept_fragments r' ps)"

text \<open>The stream handed out by \<open>n\<close> calls of \<open>Take\<close>.\<close>

primrec take_stream :: "nat \<Rightarrow> packet_reassembler \<Rightarrow> packet_reassembler \<times> byte list" where
  "take_stream 0 r = (r, [])"
| "take_stream (Suc n) r = (let (r', out) = Take r; (r'', outs) = take_stream n r' in (r'', out @ outs))"

lemma accept_one:
  assumes "reassembler_ok r" and "r_offset r = 0" and "chained 0 F" and "list_all (fits MaximumWindow) F"
    and "set (r_fragments r) \<subseteq> set F" and "f \<in> set F" and "f \<notin> set (r_fragments r)"
    and "length (r_fragments r) < MaximumFragments"
  shows "\<exists>r'. Reassembler_Accept r (fragment_payload f) = Inr r' \<and> reassembler_ok r' \<and> r_offset r' = 0 \<and>
    set (r_fragments r') = insert f (set (r_fragments r)) \<and> length (r_fragments r') = Suc (length (r_fragments r))"
proof -
  obtain k d where f: "f = (k, d)" by fastforce
  have ne: "snd g \<noteq> []" if "g \<in> set F" for g using chained_nonempty [OF assms(3) that] .
  then have d: "d \<noteq> []" using assms(6) f by force
  have fit: "fits MaximumWindow (k, d)" using assms(4,6) f by (simp add: list_all_iff)
  have "\<not> fragment_overlaps k d (r_fragments r)"
  proof (rule overlaps_imp_meets [OF fit _ _ d])
    show "list_all (fits MaximumWindow) (r_fragments r)" using assms(4,5) by (auto simp: list_all_iff)
    show "\<forall>g\<in>set (r_fragments r). \<not> meets g (k, d)"
      using chained_disjoint [OF assms(3)] assms(5,6,7) f by blast
    show "\<forall>g\<in>set (r_fragments r). snd g \<noteq> []" using ne assms(5) by blast
  qed
  moreover have "length d \<le> MaximumWindow" "unat k \<le> MaximumWindow - length d" "length d \<le> 2 ^ 64 - 1 - unat k"
    using fit unfolding fits_def fst_conv snd_conv by linarith+
  moreover have "take 8 (fragment_payload f) = Append64 k" "drop 8 (fragment_payload f) = d"
    "8 < length (fragment_payload f)"
    using d by (simp_all add: fragment_payload_def f)
  ultimately have eq: "Reassembler_Accept r (fragment_payload f) =
      Inr (r\<lparr>r_fragments := below k (r_fragments r) @ (k, d) # lower_bound k (r_fragments r),
             r_bytes := r_bytes r + length d\<rparr>)"
    using assms(2,8) by (simp add: Reassembler_Accept_eq OffsetSize_def)
  then show ?thesis
    using Reassembler_Accept_Inr [OF assms(1) eq] assms(2) set_insert_fragment [of k "r_fragments r" d]
      length_insert_fragment [of k "r_fragments r" d] f by simp
qed

lemma accept_fragments_all:
  assumes "chained 0 F" and "list_all (fits MaximumWindow) F"
  shows "reassembler_ok r \<Longrightarrow> r_offset r = 0 \<Longrightarrow> distinct gs \<Longrightarrow> set (r_fragments r) \<union> set gs \<subseteq> set F \<Longrightarrow>
    set (r_fragments r) \<inter> set gs = {} \<Longrightarrow> length (r_fragments r) + length gs \<le> MaximumFragments \<Longrightarrow>
    \<exists>r'. accept_fragments r (map fragment_payload gs) = Inr r' \<and> reassembler_ok r' \<and> r_offset r' = 0 \<and>
      set (r_fragments r') = set (r_fragments r) \<union> set gs"
proof (induction gs arbitrary: r)
  case (Cons g gs)
  obtain r1 where r1: "Reassembler_Accept r (fragment_payload g) = Inr r1" "reassembler_ok r1" "r_offset r1 = 0"
    "set (r_fragments r1) = insert g (set (r_fragments r))" "length (r_fragments r1) = Suc (length (r_fragments r))"
    using accept_one [OF Cons.prems(1,2) assms, of g] Cons.prems by auto
  then show ?case using Cons.IH [of r1] Cons.prems by auto
qed simp

lemma take_stream_fragments:
  "reassembler_ok r \<Longrightarrow> r_fragments r = fragments_of (unat (r_offset r)) cs \<Longrightarrow>
     \<exists>r'. take_stream (length cs) r = (r', concat cs) \<and> r_fragments r' = [] \<and> reassembler_ok r'"
proof (induction cs arbitrary: r)
  case (Cons c cs)
  obtain r1 out where t: "Take r = (r1, out)" by fastforce
  have "r_fragments r = (r_offset r, c) # fragments_of (unat (r_offset r) + length c) cs"
    using Cons.prems(2) by simp
  moreover from this t have out: "out = c" by (simp add: Take_def)
  moreover have "c \<noteq> []" using Cons.prems chained_nonempty [of "unat (r_offset r)" "r_fragments r"]
    unfolding reassembler_ok_def by fastforce
  ultimately have "reassembler_ok r1" "r_fragments r1 = fragments_of (unat (r_offset r1)) cs"
    using Take_ok [OF Cons.prems(1) t] by auto
  then show ?case using Cons.IH [of r1] t out by auto
qed simp

definition fragment_of :: "frame \<Rightarrow> u64 \<times> byte list" where
  "fragment_of fr = (be64 (take 8 (fr_payload fr)), drop 8 (fr_payload fr))"

lemma fragment_of_frame [simp]: "fragment_of (fragment_frame f) = f"
  by (simp add: fragment_of_def fragment_frame_def fragment_payload_def)

lemma fr_payload_fragment_frame [simp]: "fr_payload (fragment_frame f) = fragment_payload f"
  by (simp add: fragment_frame_def)

lemma frame_ok_fragment:
  "f \<in> set (fragments_of off cs) \<Longrightarrow> chunks_ok cs \<Longrightarrow> frame_ok (fragment_frame f)"
proof (induction cs arbitrary: off)
  case (Cons c cs)
  then show ?case
    by (auto simp: frame_ok_def fragment_frame_def fragment_payload_def chunks_ok_def IsKnownType_def
        Authenticate_def NetworkMapAck_def Fragment_def MaximumPayloadSize_def)
qed simp

lemma length_fragments_of [simp]: "length (fragments_of off cs) = length cs"
  by (induction cs arbitrary: off) auto

text \<open>
  C5: the relay transport delivers a stream of at most 4 MiB.  Whatever bytes up to that total are queued and
  however they are cut to the capacity of the transport buffers, once everything is sent and the wire is a
  sequence of at most 4096 fragment frames, those frames, received in any order, are all accepted by an empty
  reassembler, and it then hands out exactly the queued bytes in order.  All fragments arrive before the first
  read.
\<close>

theorem fragment_transport:
  assumes run: "encoder_run empty_encoder ops = Inr (e, wire)" and sent: "unsent e = []"
    and small: "length (queued ops) \<le> MaximumWindow"
    and frames: "take_messages NextFrame n wire 0 = Inr (fs, length wire)" "n \<le> MaximumFragments"
    and order: "mset received = mset fs"
  shows "\<exists>r r'. accept_fragments empty_reassembler (map fr_payload received) = Inr r \<and>
    take_stream (length received) r = (r', queued ops) \<and> Reassembler_BufferedBytes r' = 0"
proof -
  obtain cs where cs: "chunks_ok cs" "queued ops = concat cs"
    "wire = concat (map encoding (map fragment_frame (fragments_of 0 cs)))"
    using encoder_run_stream [OF encoder_ok_empty run] sent by (auto simp: empty_encoder_def unsent_def comp_def)
  let ?F = "fragments_of 0 cs"
  have "list_all frame_ok (map fragment_frame ?F)"
    using frame_ok_fragment [OF _ cs(1)] by (auto simp: list_all_iff)
  moreover have "list_all frame_ok fs" "concat (map encoding fs) = wire"
    using frames.take_messages_sound [OF frames(1)] by auto
  ultimately have fs: "fs = map fragment_frame ?F"
    using frames.unique_decoding cs(3) by metis
  have F: "chained 0 ?F" "list_all (fits MaximumWindow) ?F"
    using chained_fragments_of [of 0 cs] cs small by (auto simp: MaximumWindow_def list_all_iff fits_def)
  define gs where "gs = map fragment_of received"
  have "set received = set fs" "length received = length fs"
    using order mset_eq_setD mset_eq_length by metis+
  then have rec: "map fr_payload received = map fragment_payload gs" "length received = length cs"
    unfolding gs_def fs by auto
  have "mset gs = mset (map fragment_of fs)" unfolding gs_def mset_map order ..
  then have gs: "mset gs = mset ?F" unfolding fs by (simp add: comp_def fragment_of_frame)
  then have perm: "set gs = set ?F" "distinct gs" "length gs = length cs"
    using mset_eq_setD [OF gs] mset_eq_length [OF gs] mset_eq_imp_distinct_iff [OF gs] chained_distinct [OF F(1)]
    by auto
  have "length cs \<le> MaximumFragments"
    using take_messages_length [OF frames(1)] frames(2) fs by simp
  then obtain r where r: "accept_fragments empty_reassembler (map fragment_payload gs) = Inr r"
    "reassembler_ok r" "r_offset r = 0" "set (r_fragments r) = set ?F"
    using accept_fragments_all [OF F reassembler_ok_empty, of gs] perm by (auto simp: empty_reassembler_def)
  have "r_fragments r = ?F"
    using chained_unique [OF _ F(1) r(4)] r(2) unfolding reassembler_ok_def by blast
  then obtain r' where r': "take_stream (length cs) r = (r', concat cs)" "r_fragments r' = []" "reassembler_ok r'"
    using take_stream_fragments [OF r(2), of cs] r(3) by auto
  then show ?thesis
    using r(1) rec cs(2) by (auto simp: reassembler_ok_def Reassembler_BufferedBytes_def)
qed

theorem fragment_transport_witness:
  "\<exists>wire r r'. encoder_run empty_encoder [QueueOp [1, 2, 3], NextOp 22, NextOp 100] =
       Inr (\<lparr>e_offset = 3, e_pending = [], e_pendingOffset = 0, e_pendingBytes = 0\<rparr>, wire) \<and>
     accept_fragments empty_reassembler [fragment_payload (2, [3]), fragment_payload (0, [1, 2])] = Inr r \<and>
     take_stream 2 r = (r', [1, 2, 3])"
proof -
  let ?ops = "[QueueOp [1, 2, 3], NextOp 22, NextOp 100]"
  let ?f = "fragment_frame (0, [1, 2])" and ?g = "fragment_frame (2, [3])"
  let ?e = "\<lparr>e_offset = 3, e_pending = [], e_pendingOffset = 0, e_pendingBytes = 0\<rparr> :: packet_encoder"
  let ?wire = "encoding ?f @ encoding ?g"
  have ok: "frame_ok ?f" "frame_ok ?g"
    by (simp_all add: frame_ok_def fragment_frame_def fragment_payload_def IsKnownType_def
        Authenticate_def NetworkMapAck_def Fragment_def MaximumPayloadSize_def)
  then have enc: "Encode ?f = Inr (encoding ?f)" "Encode ?g = Inr (encoding ?g)" by (simp_all add: Encode_Inr)
  have run: "encoder_run empty_encoder ?ops = Inr (?e, ?wire)"
    using enc by (simp add: empty_encoder_def Queue_def MaximumPendingBytes_def Next_def HeaderSize_def
        OffsetSize_def MaximumPayloadSize_def collect_eq consume.simps fragment_frame_def fragment_payload_def)
  have "take_messages NextFrame 2 ?wire 0 = Inr ([?f, ?g], length ?wire)"
    using frames.take_messages_enc [of "[?f, ?g]" "[]" "[]"] ok
    by (simp only: list.pred_inject list.map concat.simps append_Nil append_Nil2 length_Cons list.size
        add_0 numeral_2_eq_2 length_append simp_thms)
  moreover have "unsent ?e = []" "length (queued ?ops) \<le> MaximumWindow" "(2 :: nat) \<le> MaximumFragments"
    "mset [?g, ?f] = mset [?f, ?g]"
    by (simp_all add: unsent_def MaximumWindow_def MaximumFragments_def)
  ultimately obtain r r' where "accept_fragments empty_reassembler (map fr_payload [?g, ?f]) = Inr r"
    "take_stream (length [?g, ?f]) r = (r', queued ?ops)"
    using fragment_transport [OF run, of 2 "[?f, ?g]" "[?g, ?f]"] by blast
  moreover have "length [?g, ?f] = 2" "map fr_payload [?g, ?f] = [fragment_payload (2, [3]), fragment_payload (0, [1, 2])]"
    "queued ?ops = [1, 2, 3]" by simp_all
  ultimately show ?thesis using run by metis
qed

section \<open>Any interleaving of arrivals and reads\<close>

datatype reassembler_op = AcceptOp "byte list" | TakeOp

text \<open>A rejected fragment leaves the reassembler as it was: every check precedes the insertion.\<close>

fun reassembler_step :: "packet_reassembler \<Rightarrow> reassembler_op \<Rightarrow> packet_reassembler \<times> byte list" where
  "reassembler_step r (AcceptOp payload) =
     (case Reassembler_Accept r payload of Inl _ \<Rightarrow> (r, []) | Inr r' \<Rightarrow> (r', []))"
| "reassembler_step r TakeOp = Take r"

text \<open>The payload is a fragment of the stream, and the fragments held are.\<close>

definition slice_at :: "byte list \<Rightarrow> u64 \<times> byte list \<Rightarrow> bool" where
  "slice_at S f \<longleftrightarrow> snd f = take (length (snd f)) (drop (unat (fst f)) S)"

fun op_of_stream :: "byte list \<Rightarrow> reassembler_op \<Rightarrow> bool" where
  "op_of_stream S (AcceptOp payload) = slice_at S (be64 (take 8 payload), drop 8 payload)"
| "op_of_stream S TakeOp = True"

lemma reassembler_step_ok: "reassembler_ok r \<Longrightarrow> reassembler_ok (fst (reassembler_step r op))"
proof (cases op)
  case TakeOp
  assume "reassembler_ok r"
  then show ?thesis using Take_ok [of r "fst (Take r)" "snd (Take r)"] TakeOp by simp
next
  case (AcceptOp payload)
  assume "reassembler_ok r"
  then show ?thesis
    using Reassembler_Accept_Inr [of r payload] AcceptOp by (auto split: sum.split)
qed

interpretation reassembler: component_invariant
  "\<lambda>r r'. \<exists>op. r' = fst (reassembler_step r op)" reassembler_ok
  by unfold_locales (auto intro: reassembler_step_ok)

text \<open>
  C33: whatever bytes arrive, in whatever order and interleaved with reads, the reassembler never holds
  more than the window of 4 MiB nor more than 4096 fragments.
\<close>

theorem reassembler_bounded:
  "let r = fst (run_total reassembler_step empty_reassembler ops)
   in Reassembler_BufferedBytes r \<le> MaximumWindow \<and> length (r_fragments r) \<le> MaximumFragments"
proof -
  have "reassembler_ok (fst (run_total reassembler_step empty_reassembler ops))"
    by (rule reassembler.steps_inv [OF run_total_steps reassembler_ok_empty])
  then show ?thesis
    using reassembler_ok_bytes unfolding Let_def Reassembler_BufferedBytes_def reassembler_ok_def by blast
qed

lemma reassembler_step_prefix:
  assumes "reassembler_ok r" and "list_all (slice_at S) (r_fragments r)" and "op_of_stream S op"
    and "reassembler_step r op = (r', out)"
  shows "list_all (slice_at S) (r_fragments r') \<and>
    take (unat (r_offset r')) S = take (unat (r_offset r)) S @ out"
proof (cases op)
  case (AcceptOp payload)
  then show ?thesis
    using assms Reassembler_Accept_Inr [OF assms(1), of payload]
    by (auto simp: list_all_iff split: sum.splits)
next
  case TakeOp
  then have t: "Take r = (r', out)" using assms(4) by simp
  then have o: "unat (r_offset r') = unat (r_offset r) + length out" using Take_ok [OF assms(1)] by blast
  consider "out = []" "r' = r" | "r_fragments r = (r_offset r, out) # r_fragments r'"
    using Take_ok [OF assms(1) t] by blast
  then show ?thesis
  proof cases
    case 1
    then show ?thesis using assms(2) by simp
  next
    case 2
    then show ?thesis using assms(2) unfolding o take_add by (simp add: slice_at_def)
  qed
qed

text \<open>
  C34: if every fragment that arrives is a slice of the sent stream, the bytes handed out so far, over
  any interleaving of arrivals, duplicates, rejected fragments and reads, are exactly a prefix of the
  stream: in order, nothing lost, nothing twice.
\<close>

theorem reassembler_prefix:
  assumes "list_all (op_of_stream S) ops"
  shows "case run_total reassembler_step empty_reassembler ops of (r, outs) \<Rightarrow>
    concat outs = take (unat (r_offset r)) S"
proof -
  have "take (unat (r_offset (fst (run_total reassembler_step r ops)))) S =
      take (unat (r_offset r)) S @ concat (snd (run_total reassembler_step r ops))"
    if "reassembler_ok r" "list_all (slice_at S) (r_fragments r)" for r
    using that assms
  proof (induction ops arbitrary: r)
    case (Cons op ops)
    obtain r1 out where s: "reassembler_step r op = (r1, out)" by fastforce
    then have "reassembler_ok r1" using reassembler_step_ok [OF Cons.prems(1), of op] by simp
    then show ?case
      using Cons.IH [of r1] Cons.prems reassembler_step_prefix [OF Cons.prems(1,2) _ s] s
      by (simp add: case_prod_beta)
  qed simp
  from this [OF reassembler_ok_empty] show ?thesis by (simp add: empty_reassembler_def case_prod_beta)
qed

theorem reassembler_prefix_witness:
  "\<exists>r outs. run_total reassembler_step empty_reassembler
       [AcceptOp (fragment_payload (2, [9])), TakeOp, AcceptOp (fragment_payload (0, [7, 8])), TakeOp, TakeOp] = (r, outs) \<and>
     concat outs = take (unat (r_offset r)) [7, 8, 9]"
proof -
  let ?ops = "[AcceptOp (fragment_payload (2, [9])), TakeOp, AcceptOp (fragment_payload (0, [7, 8])), TakeOp, TakeOp]"
  have "list_all (op_of_stream [7, 8, 9]) ?ops" by (simp add: fragment_payload_def slice_at_def)
  from reassembler_prefix [OF this] show ?thesis by (simp add: case_prod_beta prod_eq_iff)
qed

end
