(* ===== verification/Relay_Decoder.thy ===== *)
theory Relay_Decoder
  imports Packet_Framing Byte_Stream
begin

text \<open>
  The class \<^verbatim>\<open>Decoder\<close> of \<^verbatim>\<open>src/core/hosted/Protocol.cpp\<close>: it is fed with whatever the transport read,
  takes frames out of the buffer, passes fragments through the reassembler, and takes the frames of the
  reassembled stream.
\<close>

section \<open>Protocol.cpp: Decoder\<close>

definition CompactThreshold :: nat where "CompactThreshold = 64 * 1024"

record decoder =
  d_buffer :: "byte list"
  d_offset :: nat
  d_fragments :: packet_reassembler
  d_streamBuffer :: "byte list"
  d_streamOffset :: nat
  d_fragmented :: bool

definition empty_decoder :: decoder where
  "empty_decoder = \<lparr>d_buffer = [], d_offset = 0, d_fragments = empty_reassembler,
     d_streamBuffer = [], d_streamOffset = 0, d_fragmented = False\<rparr>"

definition compact :: "decoder \<Rightarrow> decoder" where
  "compact d =
     (if d_offset d \<noteq> 0 \<and> (d_offset d \<ge> CompactThreshold \<or> d_offset d = length (d_buffer d))
      then d\<lparr>d_buffer := drop (d_offset d) (d_buffer d), d_offset := 0\<rparr> else d)"

definition Feed :: "decoder \<Rightarrow> byte list \<Rightarrow> (relay_error, decoder) res" where
  "Feed d data =
     (if data = [] then Inr d
      else let d = compact d in
        if length data > MaximumEncodedSize \<or>
           length (d_buffer d) - d_offset d > MaximumEncodedSize - length data
        then Inl (Throw (runtime_error ''Relay decoder buffer limit exceeded.''))
        else Inr (d\<lparr>d_buffer := d_buffer d @ data\<rparr>))"

text \<open>
  One round of the loop of \<^verbatim>\<open>Decoder::Next\<close>: it returns (\<open>Inr\<close>) or goes on (\<open>Inl\<close>) after it has moved a
  stored fragment to the stream or a fragment frame to the reassembler.
\<close>

definition Next_round :: "decoder \<Rightarrow> (relay_error, decoder + decoder \<times> frame option) res" where
  "Next_round d =
     bindE (NextFrame (d_streamBuffer d) (d_streamOffset d)) (\<lambda>r. case r of
       Some (frame, streamOffset) \<Rightarrow>
         if fr_type frame = Fragment then Inl (Throw (PacketFramingError NestedFragment))
         else Inr (Inr (d\<lparr>d_streamOffset := streamOffset\<rparr>, Some frame))
     | None \<Rightarrow>
         (case Take (d_fragments d) of (fragments, bytes) \<Rightarrow>
            if bytes \<noteq> [] then
              Inr (Inl (d\<lparr>d_fragments := fragments,
                d_streamBuffer := drop (d_streamOffset d) (d_streamBuffer d) @ bytes, d_streamOffset := 0\<rparr>))
            else
              bindE (NextFrame (d_buffer d) (d_offset d)) (\<lambda>r. case r of
                None \<Rightarrow> Inr (Inr (d, None))
              | Some (frame, offset) \<Rightarrow>
                  if fr_type frame \<noteq> Fragment then
                    if d_fragmented d then Inl (Throw (PacketFramingError MixedFraming))
                    else Inr (Inr (d\<lparr>d_offset := offset\<rparr>, Some frame))
                  else
                    bindE (Reassembler_Accept (d_fragments d) (fr_payload frame)) (\<lambda>fragments'.
                      Inr (Inl (d\<lparr>d_offset := offset, d_fragmented := True, d_fragments := fragments'\<rparr>))))))"

function Decoder_Next :: "decoder \<Rightarrow> (relay_error, decoder \<times> frame option) res" where
  "Decoder_Next d =
     bindE (Next_round d) (\<lambda>r. case r of Inl d' \<Rightarrow> Decoder_Next d' | Inr result \<Rightarrow> Inr result)"
  by pat_completeness auto

lemma Take_shrinks: "Take r = (r', out) \<Longrightarrow> out \<noteq> [] \<Longrightarrow> length (r_fragments r') < length (r_fragments r)"
  by (auto simp: Take_def split: list.splits if_splits)

lemma length_below [simp]: "length (below k fs) + length (lower_bound k fs) = length fs"
  using arg_cong [OF below_lower_bound [of k fs], of length] by simp

lemma Accept_grows: "Reassembler_Accept r p = Inr r' \<Longrightarrow> length (r_fragments r') = Suc (length (r_fragments r))"
  by (auto simp: Reassembler_Accept_eq Let_def split: if_splits)

lemma NextFrame_size:
  "NextFrame b k = Inr (Some (f, k')) \<Longrightarrow> k' = k + 12 + length (fr_payload f) \<and> k' \<le> length b"
  by (drule NextFrame_Some) (auto simp: HeaderSize_def)

text \<open>What a successful round did.\<close>

lemma Next_round_cases:
  assumes "Next_round d = Inr r"
  obtains
    (stream) f k where "NextFrame (d_streamBuffer d) (d_streamOffset d) = Inr (Some (f, k))" "fr_type f \<noteq> Fragment"
      "r = Inr (d\<lparr>d_streamOffset := k\<rparr>, Some f)"
  | (fragment) rs bytes where "NextFrame (d_streamBuffer d) (d_streamOffset d) = Inr None"
      "Take (d_fragments d) = (rs, bytes)" "bytes \<noteq> []"
      "r = Inl (d\<lparr>d_fragments := rs, d_streamBuffer := drop (d_streamOffset d) (d_streamBuffer d) @ bytes, d_streamOffset := 0\<rparr>)"
  | (incomplete) rs where "NextFrame (d_streamBuffer d) (d_streamOffset d) = Inr None" "Take (d_fragments d) = (rs, [])"
      "NextFrame (d_buffer d) (d_offset d) = Inr None" "r = Inr (d, None)"
  | (plain) rs f k where "NextFrame (d_streamBuffer d) (d_streamOffset d) = Inr None" "Take (d_fragments d) = (rs, [])"
      "NextFrame (d_buffer d) (d_offset d) = Inr (Some (f, k))" "fr_type f \<noteq> Fragment" "\<not> d_fragmented d"
      "r = Inr (d\<lparr>d_offset := k\<rparr>, Some f)"
  | (accept) rs f k rs' where "NextFrame (d_streamBuffer d) (d_streamOffset d) = Inr None" "Take (d_fragments d) = (rs, [])"
      "NextFrame (d_buffer d) (d_offset d) = Inr (Some (f, k))" "fr_type f = Fragment"
      "Reassembler_Accept (d_fragments d) (fr_payload f) = Inr rs'"
      "r = Inl (d\<lparr>d_offset := k, d_fragmented := True, d_fragments := rs'\<rparr>)"
proof (cases "NextFrame (d_streamBuffer d) (d_streamOffset d)")
  case (Inl e)
  then show ?thesis using assms by (simp add: Next_round_def)
next
  case a: (Inr a)
  show ?thesis
  proof (cases a)
    case (Some p)
    then show ?thesis
      using assms a by (cases p) (auto simp: Next_round_def split: if_splits intro: stream)
  next
    case n: None
    obtain rs bytes where t: "Take (d_fragments d) = (rs, bytes)" by fastforce
    show ?thesis
    proof (cases "bytes = []")
      case False
      then show ?thesis using assms a n t fragment [of rs bytes] by (simp add: Next_round_def)
    next
      case True
      show ?thesis
      proof (cases "NextFrame (d_buffer d) (d_offset d)")
        case (Inl e)
        then show ?thesis using assms a n t True by (simp add: Next_round_def)
      next
        case b: (Inr b)
        show ?thesis
        proof (cases b)
          case None
          then show ?thesis using assms a n t True b incomplete [of rs] by (simp add: Next_round_def)
        next
          case (Some p)
          obtain f k where p: "p = (f, k)" by fastforce
          note facts = a n t True b Some p
          show ?thesis
          proof (cases "fr_type f = Fragment")
            case False
            then show ?thesis
              using assms facts plain [of rs f k] by (simp add: Next_round_def split: if_splits)
          next
            case F: True
            then show ?thesis
              using assms facts accept [of rs f k]
              by (cases "Reassembler_Accept (d_fragments d) (fr_payload f)") (simp_all add: Next_round_def)
          qed
        qed
      qed
    qed
  qed
qed

termination Decoder_Next
proof (relation "measure (\<lambda>d. length (d_buffer d) - d_offset d + length (r_fragments (d_fragments d)))", goal_cases)
  case (2 d r d')
  then show ?case
    by (cases rule: Next_round_cases) (auto dest: Take_shrinks dest!: Accept_grows NextFrame_size)
qed simp

declare Decoder_Next.simps [simp del]

definition Decoder_BufferedBytes :: "decoder \<Rightarrow> nat" where
  "Decoder_BufferedBytes d =
     length (d_buffer d) - d_offset d + length (d_streamBuffer d) - d_streamOffset d +
     Reassembler_BufferedBytes (d_fragments d)"

text \<open>\<^verbatim>\<open>Decoder::Read\<close>: read until a frame is complete; a read of no bytes is the end of the stream.\<close>

function Decoder_Read :: "decoder \<Rightarrow> byte_stream \<Rightarrow> (relay_error, decoder \<times> byte_stream \<times> frame) res" where
  "Decoder_Read d stream =
     bindE (Decoder_Next d) (\<lambda>(d', r). case r of
       Some frame \<Rightarrow> Inr (d', stream, frame)
     | None \<Rightarrow>
         bindE (ReadSome (16 * 1024) stream) (\<lambda>(stream', input).
           if input = [] then Inl (Throw (runtime_error ''Relay connection closed while reading a frame.''))
           else bindE (Feed d' input) (\<lambda>d''. Decoder_Read d'' stream')))"
  by pat_completeness auto
termination
  by (relation "measure (\<lambda>(_, stream). length (chunk_bytes (st_input stream)))") (auto dest: ReadSome_shrinks)

declare Decoder_Read.simps [simp del]

section \<open>Draining the decoder terminates\<close>

text \<open>The bytes the decoder holds in all its stages.\<close>

definition held :: "decoder \<Rightarrow> nat" where
  "held d = (length (d_buffer d) - d_offset d) + (length (d_streamBuffer d) - d_streamOffset d) +
     length (concat (map snd (r_fragments (d_fragments d))))"

lemma Take_bytes: "Take r = (r', out) \<Longrightarrow>
    length (concat (map snd (r_fragments r'))) + length out = length (concat (map snd (r_fragments r)))"
  by (auto simp: Take_def split: list.splits if_splits)

lemma Accept_bytes: "Reassembler_Accept r p = Inr r' \<Longrightarrow>
    length (concat (map snd (r_fragments r'))) + 8 = length (concat (map snd (r_fragments r))) + length p"
  using bytes_insert_fragment [of "be64 (take 8 p)" "r_fragments r" "drop 8 p"]
  by (auto simp: Reassembler_Accept_eq OffsetSize_def Let_def split: if_splits)

lemma Next_round_held:
  assumes "Next_round d = Inr r"
  shows "case r of Inl d' \<Rightarrow> held d' \<le> held d | Inr (d', out) \<Rightarrow> held d' \<le> held d \<and> (out \<noteq> None \<longrightarrow> held d' < held d)"
  using assms
  by (cases rule: Next_round_cases) (auto simp: held_def dest!: Take_bytes Accept_bytes NextFrame_size)

lemma Decoder_Next_held:
  "Decoder_Next d = Inr (d', r) \<Longrightarrow> held d' \<le> held d \<and> (r \<noteq> None \<longrightarrow> held d' < held d)"
proof (induction d rule: Decoder_Next.induct)
  case (1 d)
  then obtain a where a: "Next_round d = Inr a"
    by (subst (asm) (2) Decoder_Next.simps) (auto simp: bindE_eq_Inr_iff)
  show ?case
  proof (cases a)
    case (Inl d1)
    then have "Decoder_Next d1 = Inr (d', r)" using 1(2) a by (subst (asm) Decoder_Next.simps) simp
    then show ?thesis using 1(1) [OF a Inl] Next_round_held [OF a] Inl by fastforce
  next
    case (Inr p)
    then show ?thesis using 1(2) a Next_round_held [OF a] by (subst (asm) Decoder_Next.simps) simp
  qed
qed

text \<open>\<^verbatim>\<open>while (auto frame = Next()) frames.push_back(*frame);\<close>\<close>

function Decoder_drain :: "decoder \<Rightarrow> (relay_error, decoder \<times> frame list) res" where
  "Decoder_drain d =
     bindE (Decoder_Next d) (\<lambda>(d', r). case r of
       None \<Rightarrow> Inr (d', [])
     | Some f \<Rightarrow> bindE (Decoder_drain d') (\<lambda>(d'', fs). Inr (d'', f # fs)))"
  by pat_completeness auto
termination
  by (relation "measure held") (auto dest: Decoder_Next_held)

declare Decoder_drain.simps [simp del]

datatype read_status = WouldBlock | Closed

text \<open>
  \<^verbatim>\<open>Decoder::ReadAvailable\<close>: no read returns more than \<open>maximumReadSize\<close> bytes.
\<close>

function read_available ::
    "nat \<Rightarrow> decoder \<Rightarrow> byte_stream \<Rightarrow> (relay_error, decoder \<times> byte_stream \<times> frame list \<times> read_status) res" where
  "read_available maximumReadSize d stream =
     bindE (Decoder_drain d) (\<lambda>(d', fs).
       case TryReadSome maximumReadSize stream of
         (stream', None) \<Rightarrow> Inr (d', stream', fs, WouldBlock)
       | (stream', Some input) \<Rightarrow>
           if input = [] then Inr (d', stream', fs, Closed)
           else bindE (Feed d' input) (\<lambda>d''. bindE (read_available maximumReadSize d'' stream') (\<lambda>(d3, stream'', gs, status).
             Inr (d3, stream'', fs @ gs, status))))"
  by pat_completeness auto
termination
  by (relation "measure (\<lambda>(_, _, stream). length (chunk_bytes (st_input stream)))") (auto dest: TryReadSome_shrinks [OF sym])

declare read_available.simps [simp del]

definition ReadAvailable ::
    "decoder \<Rightarrow> byte_stream \<Rightarrow> nat \<Rightarrow> (relay_error, decoder \<times> byte_stream \<times> frame list \<times> read_status) res" where
  "ReadAvailable d stream maximumReadSize =
     (if maximumReadSize = 0 then Inl (Throw (invalid_argument ''Relay stream read size is zero.''))
      else read_available maximumReadSize d stream)"

section \<open>Frames cut anywhere by the transport\<close>

definition unread :: "decoder \<Rightarrow> byte list" where
  "unread d = drop (d_offset d) (d_buffer d)"

definition plain_decoder :: "decoder \<Rightarrow> bool" where
  "plain_decoder d \<longleftrightarrow> d_fragments d = empty_reassembler \<and> d_streamBuffer d = [] \<and> d_streamOffset d = 0 \<and>
     \<not> d_fragmented d \<and> d_offset d \<le> length (d_buffer d)"

lemma NextFrame_empty [simp]: "NextFrame [] 0 = Inr None"
  by (simp add: NextFrame_short)

lemma Take_empty [simp]: "Take empty_reassembler = (empty_reassembler, [])"
  by (simp add: Take_def empty_reassembler_def)

lemma Decoder_Next_plain:
  assumes "plain_decoder d"
  shows "NextFrame (d_buffer d) (d_offset d) = Inr None \<Longrightarrow> Decoder_Next d = Inr (d, None)"
    and "NextFrame (d_buffer d) (d_offset d) = Inr (Some (f, k)) \<Longrightarrow> fr_type f \<noteq> Fragment \<Longrightarrow>
      Decoder_Next d = Inr (d\<lparr>d_offset := k\<rparr>, Some f)"
  using assms by (subst Decoder_Next.simps, simp add: Next_round_def plain_decoder_def)+

lemma NextFrame_incomplete:
  assumes "frame_ok f" and "length pre = offset" and "k < length (encoding f)"
  shows "NextFrame (pre @ take k (encoding f)) offset = Inr None"
proof (cases "k < 12")
  case True
  then show ?thesis using assms by (intro NextFrame_short) auto
next
  case False
  let ?x = "take k (encoding f)" and ?e = "encoding f"
  have nth: "?x ! i = ?e ! i" if "i < 12" for i using that False by simp
  have e: "drop offset (pre @ ?e) = ?e" "drop offset (pre @ ?x) = ?x" using assms(2) by auto
  have l: "offset + 12 \<le> length (pre @ ?e)" "offset + 12 \<le> length (pre @ ?x)"
    using assms(2,3) False by auto
  have "take 4 ?x = take 4 ?e" using False by (simp add: min_def)
  moreover have "NextFrame (pre @ ?e) offset = Inr (Some (f, offset + length ?e))"
    using NextFrame_encoding [OF assms(1,2), of "[]"] by simp
  moreover have "length ?x = k" "k < length ?e" using assms(3) by auto
  ultimately show ?thesis
    using NextFrame_eq [OF l(1) e(1) [symmetric] refl] NextFrame_eq [OF l(2) e(2) [symmetric] refl] nth assms(2)
    by (auto split: if_splits simp: HeaderSize_def)
qed

lemma Decoder_drain_plain:
  assumes "list_all (\<lambda>f. frame_ok f \<and> fr_type f \<noteq> Fragment) fs"
    and "rest = [] \<or> (\<exists>f k. frame_ok f \<and> k < length (encoding f) \<and> rest = take k (encoding f))"
  shows "plain_decoder d \<Longrightarrow> unread d = concat (map encoding fs) @ rest \<Longrightarrow>
    \<exists>d'. Decoder_drain d = Inr (d', fs) \<and> plain_decoder d' \<and> unread d' = rest"
  using assms(1)
proof (induction fs arbitrary: d)
  case Nil
  let ?pre = "take (d_offset d) (d_buffer d)"
  have pre: "length ?pre = d_offset d" "d_buffer d = ?pre @ unread d"
    using Nil(1) by (auto simp: plain_decoder_def unread_def)
  have "NextFrame (?pre @ rest) (d_offset d) = Inr None"
    using assms(2) NextFrame_incomplete [OF _ pre(1)] NextFrame_short [of "d_offset d" ?pre] pre(1) by auto
  then have "NextFrame (d_buffer d) (d_offset d) = Inr None" using pre(2) Nil(2) by simp
  then show ?case using Decoder_Next_plain(1) [OF Nil(1)] Nil by (subst Decoder_drain.simps) simp
next
  case (Cons f fs)
  let ?pre = "take (d_offset d) (d_buffer d)" and ?d = "d\<lparr>d_offset := d_offset d + length (encoding f)\<rparr>"
  have pre: "length ?pre = d_offset d" "d_buffer d = ?pre @ encoding f @ concat (map encoding fs) @ rest"
    using Cons.prems(1,2) append_take_drop_id [of "d_offset d" "d_buffer d"]
    by (auto simp: plain_decoder_def unread_def)
  have "NextFrame (d_buffer d) (d_offset d) = Inr (Some (f, d_offset d + length (encoding f)))"
    using NextFrame_encoding [OF _ pre(1), of f "concat (map encoding fs) @ rest", folded pre(2)] Cons.prems(3)
    by simp
  then have n: "Decoder_Next d = Inr (?d, Some f)"
    using Decoder_Next_plain(2) [OF Cons.prems(1)] Cons.prems(3) by simp
  have "unread ?d = concat (map encoding fs) @ rest"
  proof -
    have "unread ?d = drop (length (encoding f)) (unread d)"
      by (simp add: unread_def add.commute del: length_encoding)
    then show ?thesis unfolding Cons.prems(2) by simp
  qed
  moreover have "plain_decoder ?d"
    using Cons.prems(1) arg_cong [OF Cons.prems(2), of length] by (auto simp: plain_decoder_def unread_def)
  ultimately show ?case using Cons.IH [of ?d] Cons.prems(3) n by (subst Decoder_drain.simps) auto
qed

lemma prefix_of_frames:
  "prefix p (concat (map encoding fs)) \<Longrightarrow>
     \<exists>n rest. n \<le> length fs \<and> p = concat (map encoding (take n fs)) @ rest \<and>
       (rest = [] \<or> n < length fs \<and> (\<exists>k. k < length (encoding (fs ! n)) \<and> rest = take k (encoding (fs ! n))))"
proof (induction fs arbitrary: p)
  case (Cons f fs)
  show ?case
  proof (cases "prefix (encoding f) p")
    case True
    then obtain p' where p: "p = encoding f @ p'" by (auto simp: prefix_def)
    then have "prefix p' (concat (map encoding fs))" using Cons.prems by simp
    from Cons.IH [OF this] obtain n rest where "n \<le> length fs" "p' = concat (map encoding (take n fs)) @ rest"
      "rest = [] \<or> n < length fs \<and> (\<exists>k. k < length (encoding (fs ! n)) \<and> rest = take k (encoding (fs ! n)))" by blast
    then show ?thesis using p by (intro exI [of _ "Suc n"] exI [of _ rest]) auto
  next
    case False
    then have "prefix p (encoding f)" "p \<noteq> encoding f"
      using Cons.prems prefix_same_cases [of p "concat (map encoding (f # fs))" "encoding f"] by auto
    then have "p = take (length p) (encoding f)" "length p < length (encoding f)"
      by (auto simp: prefix_def simp del: length_encoding)
    then show ?thesis by (intro exI [of _ 0] exI [of _ p]) auto
  qed
qed simp

lemma length_compact: "length (d_buffer (compact d)) - d_offset (compact d) = length (unread d)"
  by (auto simp: compact_def unread_def)

lemma Feed_plain:
  assumes "plain_decoder d" and "length (unread d) + length data \<le> MaximumEncodedSize"
  shows "\<exists>d'. Feed d data = Inr d' \<and> plain_decoder d' \<and> unread d' = unread d @ data"
proof (cases "data = []")
  case False
  have "plain_decoder (compact d)" "unread (compact d) = unread d"
    using assms(1) by (auto simp: compact_def plain_decoder_def unread_def)
  moreover note length_compact [of d]
  moreover from calculation have "plain_decoder ((compact d)\<lparr>d_buffer := d_buffer (compact d) @ data\<rparr>)"
    "unread ((compact d)\<lparr>d_buffer := d_buffer (compact d) @ data\<rparr>) = unread d @ data"
    by (auto simp: plain_decoder_def unread_def)
  moreover have "\<not> length data > MaximumEncodedSize" "\<not> length (unread d) > MaximumEncodedSize - length data"
    using assms(2) by auto
  ultimately show ?thesis using False by (simp add: Feed_def Let_def)
qed (use assms in \<open>simp add: Feed_def\<close>)

text \<open>The next read of a script of chunks: at most \<open>n\<close> bytes of the first chunk.\<close>

lemma TryReadSome_chunk:
  assumes "st_input s = Some c # rest" "c \<noteq> []" "0 < n"
  obtains s' where "TryReadSome n s = (s', Some (take n c))" "take n c \<noteq> []"
    "st_input s' = (if length c \<le> n then rest else Some (drop n c) # rest)"
proof (rule that)
  show "TryReadSome n s = (s\<lparr>st_input := (if length c \<le> n then rest else Some (drop n c) # rest)\<rparr>, Some (take n c))"
    using assms by (simp add: TryReadSome_def)
qed (use assms in simp_all)

lemma read_available_plain:
  assumes "0 < n"
  shows "plain_decoder d \<Longrightarrow> unread d @ concat chunks = concat (map encoding fs) \<Longrightarrow>
    list_all (\<lambda>f. frame_ok f \<and> fr_type f \<noteq> Fragment) fs \<Longrightarrow> [] \<notin> set chunks \<Longrightarrow>
    \<forall>c\<in>set chunks. \<forall>f\<in>set fs. min (length c) n + length (encoding f) \<le> MaximumEncodedSize + 1 \<Longrightarrow> st_input s = map Some chunks \<Longrightarrow>
    \<exists>d' s'. read_available n d s = Inr (d', s', fs, WouldBlock) \<and> unread d' = [] \<and> st_input s' = []"
proof (induction "length (concat chunks)" arbitrary: d s fs chunks rule: less_induct)
  case less
  show ?case
  proof (cases chunks)
    case Nil
    then obtain d' where "Decoder_drain d = Inr (d', fs)" "unread d' = []"
      using Decoder_drain_plain [of fs "[]" d] less.prems by auto
    then show ?thesis using Nil less.prems(6) by (subst read_available.simps) (simp add: TryReadSome_def)
  next
    case (Cons c cs)
    have c: "c \<noteq> []" using less.prems(4) Cons by auto
    define chunks' where "chunks' = (if length c \<le> n then cs else drop n c # cs)"
    have "st_input s = Some c # map Some cs" using less.prems(6) Cons by simp
    then obtain s1 where s1: "TryReadSome n s = (s1, Some (take n c))" "take n c \<noteq> []"
      and in1: "st_input s1 = (if length c \<le> n then map Some cs else Some (drop n c) # map Some cs)"
      by (rule TryReadSome_chunk [OF _ c assms])
    have in1: "st_input s1 = map Some chunks'" using in1 by (simp add: chunks'_def)
    have cut: "concat chunks = take n c @ concat chunks'" by (simp add: Cons chunks'_def)
    have "prefix (unread d) (concat (map encoding fs))" using less.prems(2) by (metis prefixI)
    then obtain k rest where k: "k \<le> length fs" "unread d = concat (map encoding (take k fs)) @ rest"
      "rest = [] \<or> k < length fs \<and> (\<exists>i. i < length (encoding (fs ! k)) \<and> rest = take i (encoding (fs ! k)))"
      using prefix_of_frames by blast
    have ok: "list_all (\<lambda>f. frame_ok f \<and> fr_type f \<noteq> Fragment) (take k fs)"
      "list_all (\<lambda>f. frame_ok f \<and> fr_type f \<noteq> Fragment) (drop k fs)"
      using less.prems(3) by (auto simp: list_all_iff dest: in_set_takeD in_set_dropD)
    have part: "rest = [] \<or> (\<exists>f i. frame_ok f \<and> i < length (encoding f) \<and> rest = take i (encoding f))"
      using k(3) less.prems(3) by (auto simp: list_all_length)
    obtain d1 where d1: "Decoder_drain d = Inr (d1, take k fs)" "plain_decoder d1" "unread d1 = rest"
      using Decoder_drain_plain [OF ok(1) part less.prems(1) k(2)] by blast
    have split: "concat (map encoding fs) = concat (map encoding (take k fs)) @ concat (map encoding (drop k fs))"
      by (metis append_take_drop_id concat_append map_append)
    then have left: "rest @ take n c @ concat chunks' = concat (map encoding (drop k fs))"
      using less.prems(2) k(2) cut by simp
    then have "drop k fs \<noteq> []" using s1(2) by auto
    then have kl: "k < length fs" by simp
    have "length rest < length (encoding (fs ! k))" using k(3) by (cases "rest = []") (auto simp: HeaderSize_def)
    moreover have "min (length c) n + length (encoding (fs ! k)) \<le> MaximumEncodedSize + 1" using less.prems(5) Cons kl by auto
    ultimately have "length rest + length (take n c) \<le> MaximumEncodedSize" by simp
    then obtain d2 where d2: "Feed d1 (take n c) = Inr d2" "plain_decoder d2" "unread d2 = rest @ take n c"
      using Feed_plain [OF d1(2), of "take n c"] d1(3) by auto
    have "length (concat chunks') < length (concat chunks)" using cut s1(2) by simp
    moreover have "[] \<notin> set chunks'" using less.prems(4) Cons by (auto simp: chunks'_def)
    moreover have "\<forall>c\<in>set chunks'. \<forall>f\<in>set (drop k fs). min (length c) n + length (encoding f) \<le> MaximumEncodedSize + 1"
    proof (intro ballI)
      fix x f assume x: "x \<in> set chunks'" and f: "f \<in> set (drop k fs)"
      have "x \<in> set cs \<or> x = drop n c" using x by (auto simp: chunks'_def split: if_splits)
      then have "x \<in> set chunks \<and> length x \<le> length x \<or> c \<in> set chunks \<and> length x \<le> length c" by (auto simp: Cons)
      then obtain y where "y \<in> set chunks" "length x \<le> length y" by blast
      moreover have "f \<in> set fs" using f by (rule in_set_dropD)
      ultimately have "min (length y) n + length (encoding f) \<le> MaximumEncodedSize + 1" using less.prems(5) by blast
      then show "min (length x) n + length (encoding f) \<le> MaximumEncodedSize + 1" using \<open>length x \<le> length y\<close> by linarith
    qed
    ultimately obtain d3 s3 where "read_available n d2 s1 = Inr (d3, s3, drop k fs, WouldBlock)" "unread d3 = []" "st_input s3 = []"
      using less.hyps [of chunks' d2 "drop k fs" s1] d2(2,3) left ok(2) in1 by auto
    then show ?thesis using d1(1) d2(1) s1(1,2) by (subst read_available.simps) auto
  qed
qed

text \<open>
  C9: however the transport cuts the bytes of encoded frames into chunks, \<open>ReadAvailable\<close> returns exactly these frames, in
  order, and nothing stays behind.  This holds for frames that are not fragments and whose encoding together with one
  read, that is the smaller of a chunk and the given read size, exceeds the largest encoding by at most one byte.
\<close>

theorem ReadAvailable_chunks:
  assumes "EncodeAll fs = Inr wire" and "st_input s = map Some chunks" and "concat chunks = wire" and "[] \<notin> set chunks"
    and "list_all (\<lambda>f. fr_type f \<noteq> Fragment) fs"
    and "\<forall>c\<in>set chunks. \<forall>f\<in>set fs. min (length c) maximumReadSize + length (encoding f) \<le> MaximumEncodedSize + 1"
    and "maximumReadSize > 0"
  shows "\<exists>d s'. ReadAvailable empty_decoder s maximumReadSize = Inr (d, s', fs, WouldBlock) \<and> unread d = [] \<and> st_input s' = []"
proof -
  have fs: "list_all (\<lambda>f. frame_ok f \<and> fr_type f \<noteq> Fragment) fs" "wire = concat (map encoding fs)"
    using EncodeAll_Inr [OF assms(1)] assms(5) by (auto simp: list_all_iff)
  have "plain_decoder empty_decoder" "unread empty_decoder @ concat chunks = concat (map encoding fs)"
    using assms(3) fs(2) by (simp_all add: plain_decoder_def empty_decoder_def unread_def)
  from read_available_plain [OF assms(7) this fs(1) assms(4,6,2)] assms(7) show ?thesis by (simp add: ReadAvailable_def)
qed

theorem ReadAvailable_chunks_witness:
  "\<exists>a b d s'. EncodeAll [\<lparr>fr_type = 8, fr_payload = [1, 2]\<rparr>, \<lparr>fr_type = 9, fr_payload = [3]\<rparr>] = Inr (a @ b) \<and>
     length a = 20 \<and>
     ReadAvailable empty_decoder \<lparr>st_input = [Some a, Some b], st_writes = [], st_written = []\<rparr> 16 =
       Inr (d, s', [\<lparr>fr_type = 8, fr_payload = [1, 2]\<rparr>, \<lparr>fr_type = 9, fr_payload = [3]\<rparr>], WouldBlock)"
proof -
  let ?f = "\<lparr>fr_type = 8, fr_payload = [1, 2]\<rparr> :: frame" and ?g = "\<lparr>fr_type = 9, fr_payload = [3]\<rparr> :: frame"
  let ?w = "encoding ?f @ encoding ?g"
  let ?a = "take 20 ?w" and ?b = "drop 20 ?w"
  let ?s = "\<lparr>st_input = map Some [?a, ?b], st_writes = [], st_written = []\<rparr> :: byte_stream"
  have w: "EncodeAll [?f, ?g] = Inr ?w"
    by (simp add: EncodeAll_def EncodedSize_def IsKnownType_def Authenticate_def NetworkMapAck_def
        frame_sizes vector_max_size_def AppendTo_encoding)
  have len: "length ?w = 27" "length ?a = 20" "length ?b = 7" by (simp_all add: HeaderSize_def)
  have "?a \<noteq> []" "?b \<noteq> []" unfolding length_greater_0_conv [symmetric] len by simp_all
  then have ne: "[] \<notin> set [?a, ?b]" by (auto simp only: list.set insert_iff empty_iff)
  have s: "st_input ?s = map Some [?a, ?b]" by simp
  have "\<exists>d s'. ReadAvailable empty_decoder ?s 16 = Inr (d, s', [?f, ?g], WouldBlock) \<and> unread d = [] \<and> st_input s' = []"
    using len by (intro ReadAvailable_chunks [OF w s _ ne])
      (simp_all add: frame_sizes Fragment_def del: length_take length_drop length_append)
  then obtain d s' where "ReadAvailable empty_decoder \<lparr>st_input = [Some ?a, Some ?b], st_writes = [], st_written = []\<rparr> 16 = Inr (d, s', [?f, ?g], WouldBlock)"
    unfolding list.map by blast
  then show ?thesis using w len(2)
    by (intro exI [of _ ?a] exI [of _ ?b] exI [of _ d] exI [of _ s']) (simp only: append_take_drop_id simp_thms)
qed

text \<open>Input that does not fit beside what is buffered is refused.\<close>

lemma Feed_limit:
  "length (unread d) + length data > MaximumEncodedSize \<Longrightarrow> data \<noteq> [] \<Longrightarrow>
     Feed d data = Inl (Throw (runtime_error ''Relay decoder buffer limit exceeded.''))"
  using length_compact [of d] by (auto simp: Feed_def Let_def)

lemma read_available_limit:
  assumes "frame_ok f" "length (encoding f) = MaximumEncodedSize" "0 < n" "\<not> n dvd MaximumEncodedSize"
  shows "plain_decoder d \<Longrightarrow> unread d = take j (encoding f) \<Longrightarrow> j < MaximumEncodedSize \<Longrightarrow> n dvd j \<Longrightarrow>
    st_input s = Some (drop j (encoding f @ encoding g)) # rest \<Longrightarrow>
    read_available n d s = Inl (Throw (runtime_error ''Relay decoder buffer limit exceeded.''))"
proof (induction "MaximumEncodedSize - j" arbitrary: j d s rule: less_induct)
  case less
  define wire where "wire = encoding f @ encoding g"
  have len: "length wire \<ge> MaximumEncodedSize + 12" using assms(2) by (simp add: wire_def HeaderSize_def)
  have ne: "drop j wire \<noteq> []" using less.prems(3) len by simp
  obtain s1 where s1: "TryReadSome n s = (s1, Some (take n (drop j wire)))" "take n (drop j wire) \<noteq> []"
    "st_input s1 = (if length (drop j wire) \<le> n then rest else Some (drop n (drop j wire)) # rest)"
    using TryReadSome_chunk [OF less.prems(5) [folded wire_def] ne assms(3)] .
  obtain d1 where d1: "Decoder_drain d = Inr (d1, [])" "plain_decoder d1" "unread d1 = take j (encoding f)"
  proof -
    have "take j (encoding f) = [] \<or> (\<exists>g k. frame_ok g \<and> k < length (encoding g) \<and> take j (encoding f) = take k (encoding g))"
      using assms(1,2) less.prems(3) by (intro disjI2 exI [of _ f] exI [of _ j]) simp
    from Decoder_drain_plain [OF _ this less.prems(1), of "[]"] less.prems(2) that show thesis by auto
  qed
  have lj: "length (unread d1) = j" using d1(3) assms(2) less.prems(3) by simp
  have "j + n \<noteq> MaximumEncodedSize" using less.prems(4) assms(4) by (metis dvd_add dvd_refl)
  then consider "j + n < MaximumEncodedSize" | "j + n > MaximumEncodedSize" by linarith
  then show ?case
  proof cases
    case 1
    have input: "take n (drop j wire) = take n (drop j (encoding f))" using 1 assms(2) by (simp add: wire_def)
    obtain d2 where d2: "Feed d1 (take n (drop j wire)) = Inr d2" "plain_decoder d2" "unread d2 = take j (encoding f) @ take n (drop j (encoding f))"
    proof -
      have "length (unread d1) + length (take n (drop j wire)) \<le> MaximumEncodedSize" unfolding input lj using 1 by simp
      from Feed_plain [OF d1(2) this] show thesis using that d1(3) input by auto
    qed
    have u: "unread d2 = take (j + n) (encoding f)" using d2(3) by (simp add: take_add)
    have "length (drop j wire) > n" using 1 len by simp
    then have "st_input s1 = Some (drop (j + n) wire) # rest" using s1(3) by (simp add: add.commute)
    then have "read_available n d2 s1 = Inl (Throw (runtime_error ''Relay decoder buffer limit exceeded.''))"
      using less.hyps [of "j + n" d2 s1] u d2(2) 1 less.prems(4) assms(3) by (simp add: wire_def)
    then show ?thesis using d1(1) d2(1) s1(1,2) by (subst read_available.simps) simp
  next
    case 2
    have "length (take n (drop j wire)) = min n (length wire - j)" by (simp only: length_take length_drop min.commute)
    then have "length (unread d1) + length (take n (drop j wire)) > MaximumEncodedSize" using 2 len lj less.prems(3) by linarith
    from Feed_limit [OF this s1(2)] show ?thesis using d1(1) s1(1,2) by (subst read_available.simps) simp
  qed
qed

text \<open>
  C35: the limit of \<open>Feed\<close> counts whole reads, not frames.  When a frame of the largest permitted size and a further frame are
  available and the largest encoding is not a multiple of the read size, as for the read sizes of 16 and 64 KiB that the
  code uses, the read that completes the first frame brings bytes of the second, is refused, and the connection fails,
  although both frames are valid.
\<close>

theorem ReadAvailable_limit:
  assumes "frame_ok f" and "length (fr_payload f) = MaximumPayloadSize" and "frame_ok g"
    and "maximumReadSize > 0" and "\<not> maximumReadSize dvd MaximumEncodedSize"
    and "st_input s = Some (encoding f @ encoding g) # rest"
  shows "ReadAvailable empty_decoder s maximumReadSize = Inl (Throw (runtime_error ''Relay decoder buffer limit exceeded.''))"
proof -
  have "length (encoding f) = MaximumEncodedSize" using assms(2) by (simp add: MaximumEncodedSize_def)
  moreover have "plain_decoder empty_decoder" "unread empty_decoder = take 0 (encoding f)"
    by (simp_all add: plain_decoder_def empty_decoder_def unread_def)
  ultimately show ?thesis
    using read_available_limit [OF assms(1) _ assms(4,5), of empty_decoder 0 s g rest] assms(4,6)
    by (simp add: ReadAvailable_def frame_sizes)
qed

theorem ReadAvailable_limit_witness:
  "\<exists>s. ReadAvailable empty_decoder s 65536 = Inl (Throw (runtime_error ''Relay decoder buffer limit exceeded.''))"
proof -
  let ?f = "\<lparr>fr_type = 4, fr_payload = replicate MaximumPayloadSize 0\<rparr> :: frame"
    and ?g = "\<lparr>fr_type = 10, fr_payload = []\<rparr> :: frame"
  let ?s = "\<lparr>st_input = [Some (encoding ?f @ encoding ?g)], st_writes = [], st_written = []\<rparr> :: byte_stream"
  have ok: "frame_ok ?f" "frame_ok ?g"
    by (simp_all add: frame_ok_def IsKnownType_def Authenticate_def NetworkMapAck_def)
  have "\<not> 65536 dvd MaximumEncodedSize" by (simp add: frame_sizes)
  from ReadAvailable_limit [OF ok(1) _ ok(2) _ this, of ?s] show ?thesis by auto
qed

section \<open>Arbitrary input\<close>

definition decoder_ok :: "decoder \<Rightarrow> bool" where
  "decoder_ok d \<longleftrightarrow> d_offset d \<le> length (d_buffer d) \<and> d_streamOffset d \<le> length (d_streamBuffer d)"

lemma Accept_safe: "Reassembler_Accept r p \<noteq> Inl Fault"
  by (simp add: Reassembler_Accept_eq Let_def)

lemma Next_round_safe: "decoder_ok d \<Longrightarrow> Next_round d \<noteq> Inl Fault"
  using NextFrame_safe [of "d_offset d" "d_buffer d"] NextFrame_safe [of "d_streamOffset d" "d_streamBuffer d"]
    Accept_safe
  by (auto simp: decoder_ok_def Next_round_def bindE_eq_Inl_iff split: option.splits prod.splits if_splits)

lemma Next_round_ok:
  assumes "decoder_ok d" and "Next_round d = Inr r"
  shows "case r of Inl d' \<Rightarrow> decoder_ok d' | Inr (d', _) \<Rightarrow> decoder_ok d'"
  using assms(2,1) by (cases rule: Next_round_cases) (auto simp: decoder_ok_def dest!: NextFrame_size)

lemma Decoder_Next_ok:
  "decoder_ok d \<Longrightarrow> Decoder_Next d \<noteq> Inl Fault \<and> (\<forall>d' r. Decoder_Next d = Inr (d', r) \<longrightarrow> decoder_ok d')"
proof (induction d rule: Decoder_Next.induct)
  case (1 d)
  note eq = Decoder_Next.simps [of d]
  show ?case
  proof (cases "Next_round d")
    case (Inl e)
    then show ?thesis using Next_round_safe [OF 1(2)] unfolding eq by auto
  next
    case r: (Inr r)
    show ?thesis
    proof (cases r)
      case (Inl d1)
      then show ?thesis using 1(1) [OF r Inl] Next_round_ok [OF 1(2) r] r unfolding eq by simp
    next
      case (Inr p)
      then show ?thesis using Next_round_ok [OF 1(2) r] r unfolding eq by auto
    qed
  qed
qed

lemma Decoder_drain_ok:
  "decoder_ok d \<Longrightarrow> Decoder_drain d \<noteq> Inl Fault \<and> (\<forall>d' fs. Decoder_drain d = Inr (d', fs) \<longrightarrow> decoder_ok d')"
proof (induction d rule: Decoder_drain.induct)
  case (1 d)
  note eq = Decoder_drain.simps [of d] and n = Decoder_Next_ok [OF 1(2)]
  show ?case
  proof (cases "Decoder_Next d")
    case (Inl e)
    then show ?thesis using n unfolding eq by auto
  next
    case (Inr p)
    obtain d1 r where p: "p = (d1, r)" by fastforce
    then have "decoder_ok d1" using n Inr by blast
    then show ?thesis
      using 1(1) [OF Inr p [symmetric]] Inr p unfolding eq
      by (cases r) (auto simp: bindE_eq_Inl_iff bindE_eq_Inr_iff split: prod.splits)
  qed
qed

lemma Feed_ok: "decoder_ok d \<Longrightarrow> Feed d data \<noteq> Inl Fault \<and> (\<forall>d'. Feed d data = Inr d' \<longrightarrow> decoder_ok d')"
  by (auto simp: Feed_def Let_def decoder_ok_def compact_def)

lemma read_available_ok:
  "decoder_ok d \<Longrightarrow> read_available n d s \<noteq> Inl Fault \<and> (\<forall>d' s' fs r. read_available n d s = Inr (d', s', fs, r) \<longrightarrow> decoder_ok d')"
proof (induction n d s rule: read_available.induct)
  case (1 n d s)
  note eq = read_available.simps [of n d s] and drain = Decoder_drain_ok [OF 1(2)]
  show ?case
  proof (cases "Decoder_drain d")
    case (Inl e)
    then show ?thesis using drain unfolding eq by auto
  next
    case (Inr p)
    obtain d1 fs where p: "p = (d1, fs)" by fastforce
    have d1: "decoder_ok d1" using drain Inr p by blast
    obtain s1 r where t: "TryReadSome n s = (s1, r)" by fastforce
    show ?thesis
    proof (cases "r = None \<or> r = Some []")
      case True
      then show ?thesis using Inr p t d1 unfolding eq by auto
    next
      case False
      then obtain input where r: "r = Some input" "input \<noteq> []" by auto
      have "read_available n d2 s1 \<noteq> Inl Fault \<and> (\<forall>d' s' fs r. read_available n d2 s1 = Inr (d', s', fs, r) \<longrightarrow> decoder_ok d')"
        if "Feed d1 input = Inr d2" for d2
        using 1(1) [OF Inr p [symmetric] t [symmetric] r that] Feed_ok [OF d1] that by blast
      then show ?thesis using Inr p t r Feed_ok [OF d1, of input] unfolding eq
        by (auto simp: bindE_eq_Inl_iff bindE_eq_Inr_iff split: prod.splits)
    qed
  qed
qed

text \<open>
  C36: whatever bytes a peer sends and however they are cut, reading frames and fragments never touches memory outside
  the frame, the fragment or the decoder's buffers: the outcome is frames or one of the protocol errors, and the
  positions up to which the buffers are consumed stay inside them.
\<close>

theorem ReadAvailable_safe:
  "case ReadAvailable empty_decoder s maximumReadSize of
     Inl e \<Rightarrow> e \<noteq> Fault
   | Inr (d, s', frames, status) \<Rightarrow> d_offset d \<le> length (d_buffer d) \<and> d_streamOffset d \<le> length (d_streamBuffer d)"
proof -
  have "decoder_ok empty_decoder" by (simp add: decoder_ok_def empty_decoder_def)
  from read_available_ok [OF this, of maximumReadSize s] show ?thesis
    by (auto simp: ReadAvailable_def decoder_ok_def split: sum.splits)
qed

end
