(* ===== verification/Relay_Stream.thy ===== *)
theory Relay_Stream
  imports Derp_Client Relay_Decoder
begin

text \<open>
  The transport between a hosted node and its relay: \<^verbatim>\<open>src/core/hosted/StreamTransport.cpp\<close>, which queues encoded
  frames for a non-blocking TCP socket and decodes what it reads.

  A socket is a scripted byte stream as for the DERP client.  What a TLS socket answers to \<^verbatim>\<open>ReadNeedsWrite\<close>,
  \<^verbatim>\<open>WriteNeedsRead\<close> and \<^verbatim>\<open>HasBufferedInput\<close> may change with every transfer: the answers are arbitrary functions of
  the state of the stream.
\<close>

section \<open>TcpSocket.h\<close>

record tcp_socket =
  so_stream :: byte_stream
  so_ReadNeedsWrite :: "byte_stream \<Rightarrow> bool"
  so_WriteNeedsRead :: "byte_stream \<Rightarrow> bool"
  so_HasBufferedInput :: "byte_stream \<Rightarrow> bool"
  so_writeInterest :: bool
  so_nonBlocking :: bool
  so_closed :: bool

datatype stream_error = connection_reset | decoding relay_error

definition lift_stream :: "(relay_error, 'a) res \<Rightarrow> (stream_error, 'a) res" where
  "lift_stream m = (case m of Inl Fault \<Rightarrow> Inl Fault | Inl (Throw e) \<Rightarrow> Inl (Throw (decoding e)) | Inr x \<Rightarrow> Inr x)"

section \<open>StreamTransport.cpp\<close>

record stream_transport =
  tp_socket :: tcp_socket
  tp_decoder :: decoder
  tp_output :: "byte list list"
  tp_queuedBytes :: nat
  tp_offset :: nat
  tp_moreFrames :: bool
  tp_moreReads :: bool
  tp_closed :: bool

definition MaximumQueuedBytes :: nat where "MaximumQueuedBytes = 4 * 1024 * 1024"
definition MaximumReadSize :: nat where "MaximumReadSize = 64 * 1024"

definition StreamTransport :: "tcp_socket \<Rightarrow> decoder \<Rightarrow> stream_transport" where
  "StreamTransport socket d =
     \<lparr>tp_socket = socket\<lparr>so_nonBlocking := True\<rparr>, tp_decoder = d, tp_output = [], tp_queuedBytes = 0, tp_offset = 0,
      tp_moreFrames = False, tp_moreReads = False, tp_closed = False\<rparr>"

definition Transport_Queue :: "byte list \<Rightarrow> stream_transport \<Rightarrow> stream_transport \<times> bool" where
  "Transport_Queue bytes t =
     (if length bytes > MaximumQueuedBytes - tp_queuedBytes t then (t, False)
      else if bytes \<noteq> [] then (t\<lparr>tp_queuedBytes := tp_queuedBytes t + length bytes, tp_output := tp_output t @ [bytes]\<rparr>, True)
      else (t, True))"

definition Transport_UpdateWriteInterest :: "stream_transport \<Rightarrow> stream_transport" where
  "Transport_UpdateWriteInterest t =
     (let so = tp_socket t in
      t\<lparr>tp_socket := so\<lparr>so_writeInterest := so_ReadNeedsWrite so (so_stream so) \<or>
        (tp_output t \<noteq> [] \<and> \<not> so_WriteNeedsRead so (so_stream so))\<rparr>\<rparr>)"

definition set_stream :: "byte_stream \<Rightarrow> stream_transport \<Rightarrow> stream_transport" where
  "set_stream s t = t\<lparr>tp_socket := (tp_socket t)\<lparr>so_stream := s\<rparr>\<rparr>"

text \<open>The loop of \<^verbatim>\<open>Flush\<close>: \<open>True\<close> when the socket would block and \<^verbatim>\<open>Flush\<close> returns at once.\<close>

fun flush_writes :: "nat \<Rightarrow> stream_transport \<Rightarrow> (stream_error, stream_transport \<times> bool) res" where
  "flush_writes 0 t = Inr (t, False)"
| "flush_writes (Suc n_writes) t =
     (case tp_output t of
        [] \<Rightarrow> Inr (t, False)
      | bytes # rest \<Rightarrow>
          if tp_offset t > length bytes then Inl Fault else
          let remaining = length bytes - tp_offset t in
          (case TryWriteSome (drop (tp_offset t) bytes) (so_stream (tp_socket t)) of
             (s, None) \<Rightarrow> Inr (set_stream s t, True)
           | (s, Some written) \<Rightarrow>
               if written = 0 \<or> written > remaining then Inl (Throw connection_reset) else
               let t' = (set_stream s t)\<lparr>tp_offset := tp_offset t + written, tp_queuedBytes := tp_queuedBytes t - written\<rparr> in
               flush_writes n_writes (if tp_offset t' = length bytes then t'\<lparr>tp_output := rest, tp_offset := 0\<rparr> else t')))"

definition Transport_Flush :: "nat \<Rightarrow> stream_transport \<Rightarrow> (stream_error, stream_transport \<times> bool) res" where
  "Transport_Flush maximumWrites t =
     (if so_ReadNeedsWrite (tp_socket t) (so_stream (tp_socket t)) then Inr (Transport_UpdateWriteInterest t, False) else
      bindE (flush_writes maximumWrites t) (\<lambda>(t', blocked).
        let t'' = Transport_UpdateWriteInterest t' in Inr (t'', \<not> blocked \<and> tp_output t'' \<noteq> [])))"

text \<open>The loop of \<^verbatim>\<open>Receive\<close>.\<close>

function receive_loop ::
    "nat \<Rightarrow> nat \<Rightarrow> frame list \<Rightarrow> nat \<Rightarrow> stream_transport \<Rightarrow> (stream_error, stream_transport \<times> frame list) res" where
  "receive_loop maximumReads maximumFrames frames reads t =
     (if length frames < maximumFrames then
        bindE (lift_stream (Decoder_Next (tp_decoder t))) (\<lambda>(d, r). case r of
          Some frame \<Rightarrow> receive_loop maximumReads maximumFrames (frames @ [frame]) reads (t\<lparr>tp_decoder := d\<rparr>)
        | None \<Rightarrow>
            let t = t\<lparr>tp_decoder := d\<rparr>; so = tp_socket t in
            if reads \<ge> maximumReads \<or> so_WriteNeedsRead so (so_stream so) then Inr (t, frames) else
            (case TryReadSome MaximumReadSize (so_stream so) of
               (s, None) \<Rightarrow> Inr (set_stream s t, frames)
             | (s, Some bytes) \<Rightarrow>
                 if bytes = [] then
                   if frames = [] then Inl (Throw connection_reset)
                   else Inr ((set_stream s t)\<lparr>tp_closed := True\<rparr>, frames)
                 else
                   bindE (lift_stream (Feed d bytes)) (\<lambda>d'.
                     receive_loop maximumReads maximumFrames frames (Suc reads)
                       ((set_stream s t)\<lparr>tp_decoder := d', tp_moreReads := (Suc reads = maximumReads)\<rparr>))))
      else Inr (t, frames))"
  by pat_completeness auto
termination
  by (relation "measure (\<lambda>(maximumReads, maximumFrames, frames, reads, _).
       (maximumFrames - length frames) + (maximumReads - reads))") auto

declare receive_loop.simps [simp del]

definition Transport_Receive :: "nat \<Rightarrow> nat \<Rightarrow> stream_transport \<Rightarrow> (stream_error, stream_transport \<times> frame list) res" where
  "Transport_Receive maximumReads maximumFrames t =
     (if tp_closed t then Inl (Throw connection_reset) else
      bindE (receive_loop maximumReads maximumFrames [] 0 (t\<lparr>tp_moreFrames := False, tp_moreReads := False\<rparr>)) (\<lambda>(t', frames).
        Inr (Transport_UpdateWriteInterest
          (t'\<lparr>tp_moreFrames := (maximumFrames \<noteq> 0 \<and> length frames = maximumFrames)\<rparr>), frames)))"

definition Transport_HasBufferedInput :: "stream_transport \<Rightarrow> bool" where
  "Transport_HasBufferedInput t =
     (let so = tp_socket t in
      tp_closed t \<or> tp_moreFrames t \<or>
        (\<not> so_WriteNeedsRead so (so_stream so) \<and> (tp_moreReads t \<or> so_HasBufferedInput so (so_stream so))))"

definition Transport_Close :: "stream_transport \<Rightarrow> stream_transport" where
  "Transport_Close t = t\<lparr>tp_socket := (tp_socket t)\<lparr>so_closed := True\<rparr>\<rparr>"

section \<open>Output\<close>

text \<open>What the transport has accepted and not yet written.\<close>

definition waiting :: "stream_transport \<Rightarrow> byte list" where
  "waiting t = drop (tp_offset t) (concat (tp_output t))"

definition written_by :: "stream_transport \<Rightarrow> byte list" where
  "written_by t = st_written (so_stream (tp_socket t))"

definition transport_ok :: "stream_transport \<Rightarrow> bool" where
  "transport_ok t \<longleftrightarrow> tp_queuedBytes t = length (waiting t) \<and> length (waiting t) \<le> MaximumQueuedBytes \<and>
     (if tp_output t = [] then tp_offset t = 0 else tp_offset t < length (hd (tp_output t))) \<and> [] \<notin> set (tp_output t)"

lemma set_stream_simps [simp]:
  "tp_output (set_stream s t) = tp_output t" "tp_offset (set_stream s t) = tp_offset t"
  "tp_queuedBytes (set_stream s t) = tp_queuedBytes t" "tp_decoder (set_stream s t) = tp_decoder t"
  "so_stream (tp_socket (set_stream s t)) = s" "waiting (set_stream s t) = waiting t"
  "written_by (set_stream s t) = st_written s" "tp_closed (set_stream s t) = tp_closed t"
  by (simp_all add: set_stream_def waiting_def written_by_def)

lemma UpdateWriteInterest_simps [simp]:
  "tp_output (Transport_UpdateWriteInterest t) = tp_output t" "waiting (Transport_UpdateWriteInterest t) = waiting t"
  "written_by (Transport_UpdateWriteInterest t) = written_by t" "tp_decoder (Transport_UpdateWriteInterest t) = tp_decoder t"
  "so_stream (tp_socket (Transport_UpdateWriteInterest t)) = so_stream (tp_socket t)"
  "transport_ok (Transport_UpdateWriteInterest t) = transport_ok t" "tp_closed (Transport_UpdateWriteInterest t) = tp_closed t"
  "tp_offset (Transport_UpdateWriteInterest t) = tp_offset t" "tp_queuedBytes (Transport_UpdateWriteInterest t) = tp_queuedBytes t"
  by (simp_all add: Transport_UpdateWriteInterest_def waiting_def written_by_def transport_ok_def Let_def)

lemma Queue_ok:
  assumes "transport_ok t" and "Transport_Queue bytes t = (t', accepted)"
  shows "transport_ok t' \<and> written_by t' = written_by t \<and> waiting t' = waiting t @ (if accepted then bytes else []) \<and>
    (accepted \<longleftrightarrow> length (waiting t) + length bytes \<le> MaximumQueuedBytes) \<and> so_stream (tp_socket t') = so_stream (tp_socket t)"
proof -
  have o: "tp_offset t \<le> length (concat (tp_output t))"
    using assms(1) by (cases "tp_output t") (auto simp: transport_ok_def)
  then show ?thesis using assms
    by (auto simp: Transport_Queue_def transport_ok_def waiting_def written_by_def split: if_splits)
qed

lemma flush_writes_ok:
  "transport_ok t \<Longrightarrow> flush_writes n_writes t \<noteq> Inl Fault \<and>
     (\<forall>t' blocked. flush_writes n_writes t = Inr (t', blocked) \<longrightarrow>
        transport_ok t' \<and> written_by t' @ waiting t' = written_by t @ waiting t \<and>
        st_input (so_stream (tp_socket t')) = st_input (so_stream (tp_socket t)))"
proof (induction n_writes t rule: flush_writes.induct)
  case (2 n_writes t)
  show ?case
  proof (cases "tp_output t")
    case (Cons bytes rest)
    let ?s0 = "so_stream (tp_socket t)" and ?left = "drop (tp_offset t) bytes"
    have o: "tp_offset t < length bytes" "[] \<notin> set rest" using 2(2) Cons by (auto simp: transport_ok_def)
    have wt: "waiting t = ?left @ concat rest" using o Cons by (simp add: waiting_def)
    obtain s w where w: "TryWriteSome ?left ?s0 = (s, w)" by fastforce
    have s: "st_input s = st_input ?s0" "w = None \<Longrightarrow> st_written s = st_written ?s0"
      "\<And>n. w = Some n \<Longrightarrow> n \<le> length ?left \<and> st_written s = st_written ?s0 @ take n ?left"
      using w by (auto simp: TryWriteSome_def min_def split: list.splits option.splits if_splits)
    show ?thesis
    proof (cases w)
      case None
      then show ?thesis using Cons o w s 2(2) by (auto simp: transport_ok_def written_by_def)
    next
      case (Some n)
      let ?t = "(set_stream s t)\<lparr>tp_offset := tp_offset t + n, tp_queuedBytes := tp_queuedBytes t - n\<rparr>"
      let ?u = "if tp_offset ?t = length bytes then ?t\<lparr>tp_output := rest, tp_offset := 0\<rparr> else ?t"
      have "waiting ?u = drop n ?left @ concat rest"
        using Cons s(3) [OF Some] o(1) by (auto simp: waiting_def set_stream_def add.commute)
      moreover have "st_written (so_stream (tp_socket ?u)) = st_written ?s0 @ take n ?left" "st_input (so_stream (tp_socket ?u)) = st_input ?s0"
        using s(1) s(3) [OF Some] by (auto simp: set_stream_def)
      moreover have "transport_ok ?u"
        using 2(2) Cons o wt s(3) [OF Some] calculation(1)
        by (cases rest) (auto simp: transport_ok_def)
      ultimately have u: "transport_ok ?u" "written_by ?u @ waiting ?u = written_by t @ waiting t" "st_input (so_stream (tp_socket ?u)) = st_input ?s0"
        using wt append_take_drop_id [of n ?left] by (simp_all add: written_by_def)
      show ?thesis
      proof (cases "n = 0")
        case True
        then show ?thesis using Cons o w Some by simp
      next
        case False
        have f: "flush_writes (Suc n_writes) t = flush_writes n_writes ?u"
          using Cons o w Some False s(3) [OF Some] by (simp add: Let_def)
        have "\<not> (n = 0 \<or> length bytes - tp_offset t < n)" using False s(3) [OF Some] o by auto
        note ih = 2(1) [OF Cons _ refl w [symmetric] Some this refl]
        obtain v where v: "v = ?u" by blast
        note u = u [folded v] and ih = ih [folded v] and f = f [folded v]
        have "\<not> length bytes < tp_offset t" using o(1) by simp
        from ih [OF this u(1)] u(2,3) show ?thesis unfolding f by simp
      qed
    qed
  qed (use 2(2) in simp)
qed simp

section \<open>Input\<close>

definition relayed :: "frame \<Rightarrow> bool" where
  "relayed f \<longleftrightarrow> frame_ok f \<and> fr_type f \<noteq> Fragment \<and> length (encoding f) + MaximumReadSize \<le> MaximumEncodedSize"

lemma Decoder_Next_frames [consumes 3]:
  assumes d: "plain_decoder d" and fs: "list_all relayed fs" and u: "unread d @ bytes = concat (map encoding fs)"
  obtains (frame) f gs k where "fs = f # gs" "Decoder_Next d = Inr (d\<lparr>d_offset := k\<rparr>, Some f)" "plain_decoder (d\<lparr>d_offset := k\<rparr>)"
      "unread (d\<lparr>d_offset := k\<rparr>) @ bytes = concat (map encoding gs)"
  | (none) "Decoder_Next d = Inr (d, None)" "fs = [] \<and> unread d = [] \<or> fs \<noteq> [] \<and> length (unread d) < length (encoding (hd fs))"
proof -
  let ?pre = "take (d_offset d) (d_buffer d)"
  have pre: "length ?pre = d_offset d" "d_buffer d = ?pre @ unread d" using d by (auto simp: plain_decoder_def unread_def)
  obtain n rest where n: "n \<le> length fs" "unread d = concat (map encoding (take n fs)) @ rest"
      "rest = [] \<or> n < length fs \<and> (\<exists>k. k < length (encoding (fs ! n)) \<and> rest = take k (encoding (fs ! n)))"
    using prefix_of_frames [of "unread d" fs] u by (metis prefixI)
  show thesis
  proof (cases "n = 0")
    case True
    have "NextFrame (?pre @ unread d) (d_offset d) = Inr None"
      using n True fs NextFrame_incomplete [OF _ pre(1)] NextFrame_short [of "d_offset d" ?pre] pre(1)
      by (cases fs) (auto simp: relayed_def)
    then have "Decoder_Next d = Inr (d, None)" using Decoder_Next_plain(1) [OF d] pre(2) by simp
    moreover have "fs = [] \<and> unread d = [] \<or> fs \<noteq> [] \<and> length (unread d) < length (encoding (hd fs))"
      using n True u by (cases fs) (auto simp: hd_conv_nth HeaderSize_def)
    ultimately show thesis by (rule none)
  next
    case False
    then obtain f gs where f: "fs = f # gs" using n(1) by (cases fs) auto
    have e: "unread d = encoding f @ concat (map encoding (take (n - 1) gs)) @ rest"
      using n(2) f False by (cases n) auto
    let ?k = "d_offset d + length (encoding f)"
    have "NextFrame (d_buffer d) (d_offset d) = Inr (Some (f, ?k))"
      using NextFrame_encoding [OF _ pre(1), of f "concat (map encoding (take (n - 1) gs)) @ rest"] fs f pre(2) e
      by (simp add: relayed_def)
    then have nx: "Decoder_Next d = Inr (d\<lparr>d_offset := ?k\<rparr>, Some f)"
      using Decoder_Next_plain(2) [OF d] fs f by (simp add: relayed_def)
    have du: "unread (d\<lparr>d_offset := ?k\<rparr>) = drop (length (encoding f)) (unread d)"
      by (simp add: unread_def add.commute del: length_encoding)
    have "unread (d\<lparr>d_offset := ?k\<rparr>) @ bytes = concat (map encoding gs)"
      using u unfolding du e f by (simp del: length_encoding)
    moreover have "plain_decoder (d\<lparr>d_offset := ?k\<rparr>)"
      using d arg_cong [OF e, of length] by (auto simp: plain_decoder_def unread_def)
    ultimately show thesis using frame [OF f nx] by simp
  qed
qed

text \<open>A socket that never waits for a write, is not closed and always has something to read.\<close>

definition readable :: "stream_transport \<Rightarrow> bool" where
  "readable t \<longleftrightarrow> None \<notin> set (st_input (so_stream (tp_socket t))) \<and> Some [] \<notin> set (st_input (so_stream (tp_socket t))) \<and>
     (\<forall>s. \<not> so_WriteNeedsRead (tp_socket t) s) \<and> \<not> tp_closed t"

definition incoming :: "stream_transport \<Rightarrow> byte list" where
  "incoming t = chunk_bytes (st_input (so_stream (tp_socket t)))"

definition holds_frames :: "stream_transport \<Rightarrow> frame list \<Rightarrow> bool" where
  "holds_frames t fs \<longleftrightarrow> plain_decoder (tp_decoder t) \<and> list_all relayed fs \<and>
     unread (tp_decoder t) @ incoming t = concat (map encoding fs)"

lemma readable_read:
  assumes "readable t" and "TryReadSome MaximumReadSize (so_stream (tp_socket t)) = (s, r)"
  shows "case r of None \<Rightarrow> incoming t = [] \<and> s = so_stream (tp_socket t)
    | Some bytes \<Rightarrow> bytes \<noteq> [] \<and> length bytes \<le> MaximumReadSize \<and> incoming t = bytes @ incoming (set_stream s t) \<and>
        readable (set_stream s t)"
  using assms
  by (auto simp: TryReadSome_def readable_def incoming_def chunk_bytes_def set_stream_def MaximumReadSize_def
      split: list.splits option.splits if_splits)

lemma receive_loop_frames:
  "readable t \<Longrightarrow> holds_frames t fs \<Longrightarrow> length frames \<le> maximumFrames \<Longrightarrow>
     \<exists>t' got rest. receive_loop maximumReads maximumFrames frames reads t = Inr (t', frames @ got) \<and> fs = got @ rest \<and>
       readable t' \<and> holds_frames t' rest \<and> length (frames @ got) \<le> maximumFrames \<and> length (incoming t') \<le> length (incoming t) \<and>
       (length frames < maximumFrames \<and> reads < maximumReads \<and> fs \<noteq> [] \<longrightarrow> got \<noteq> [] \<or> length (incoming t') < length (incoming t))"
proof (induction maximumReads maximumFrames frames reads t arbitrary: fs rule: receive_loop.induct)
  case (1 maximumReads maximumFrames frames reads t)
  have h: "plain_decoder (tp_decoder t)" "list_all relayed fs" "unread (tp_decoder t) @ incoming t = concat (map encoding fs)"
    using 1(4) by (simp_all add: holds_frames_def)
  show ?case
  proof (cases "length frames < maximumFrames")
    case False
    then show ?thesis using 1(3,4,5) by (subst receive_loop.simps) auto
  next
    case True
    from h show ?thesis
    proof (cases rule: Decoder_Next_frames)
      case (frame f gs k)
      let ?t = "t\<lparr>tp_decoder := (tp_decoder t)\<lparr>d_offset := k\<rparr>\<rparr>"
      have i: "incoming ?t = incoming t" "readable ?t" using 1(3) by (simp_all add: incoming_def readable_def)
      then have "holds_frames ?t gs" using frame h by (simp add: holds_frames_def)
      note hf = this
      have ln: "lift_stream (Decoder_Next (tp_decoder t)) = Inr ((tp_decoder t)\<lparr>d_offset := k\<rparr>, Some f)"
        using frame(2) by (simp add: lift_stream_def)
      obtain t' got rest where
        "receive_loop maximumReads maximumFrames (frames @ [f]) reads ?t = Inr (t', (frames @ [f]) @ got)" "gs = got @ rest"
        "readable t'" "holds_frames t' rest" "length ((frames @ [f]) @ got) \<le> maximumFrames" "length (incoming t') \<le> length (incoming t)"
        using 1(2) [OF True ln refl refl i(2) hf] True i(1) by auto
      then show ?thesis using frame(1,2) True
        by (subst receive_loop.simps) (auto simp: lift_stream_def intro!: exI [of _ t'] exI [of _ "f # got"])
    next
      case none
      let ?so = "tp_socket t"
      have t: "t\<lparr>tp_decoder := tp_decoder t\<rparr> = t" by simp
      have wn: "\<not> so_WriteNeedsRead ?so (so_stream ?so)" using 1(3) by (simp add: readable_def)
      obtain s r where r: "TryReadSome MaximumReadSize (so_stream ?so) = (s, r)" by fastforce
      note rd = readable_read [OF 1(3) r]
      show ?thesis
      proof (cases "maximumReads \<le> reads \<or> r = None")
        case stop: True
        have "set_stream (so_stream ?so) t = t" by (simp add: set_stream_def)
        then have "receive_loop maximumReads maximumFrames frames reads t = Inr (t, frames)"
          using True none(1) stop r rd by (subst receive_loop.simps) (auto simp: lift_stream_def Let_def wn)
        moreover have "fs = [] \<or> maximumReads \<le> reads" using stop rd none(2) h by (cases fs) auto
        ultimately show ?thesis using 1(3,4,5) by auto
      next
        case go: False
        then obtain bytes where b: "r = Some bytes" "bytes \<noteq> []" "length bytes \<le> MaximumReadSize"
          "incoming t = bytes @ incoming (set_stream s t)" "readable (set_stream s t)" using rd by auto
        have "length (unread (tp_decoder t)) + length bytes \<le> MaximumEncodedSize"
        proof (cases fs)
          case (Cons f gs)
          then show ?thesis using none(2) h b(3) by (simp add: relayed_def del: length_encoding)
        qed (use h b in simp)
        then obtain d where d: "Feed (tp_decoder t) bytes = Inr d" "plain_decoder d" "unread d = unread (tp_decoder t) @ bytes"
          using Feed_plain h by blast
        let ?t = "(set_stream s t)\<lparr>tp_decoder := d, tp_moreReads := (Suc reads = maximumReads)\<rparr>"
        have i: "incoming ?t = incoming (set_stream s t)" "readable ?t" using b(5) by (simp_all add: incoming_def readable_def)
        then have hf: "holds_frames ?t fs" using d(2,3) h b(4) by (simp add: holds_frames_def)
        have step: "receive_loop maximumReads maximumFrames frames reads t = receive_loop maximumReads maximumFrames frames (Suc reads) ?t"
          using True none(1) go b(1,2) r d(1) by (subst receive_loop.simps) (simp add: lift_stream_def Let_def wn)
        have ln: "lift_stream (Decoder_Next (tp_decoder t)) = Inr (tp_decoder t, None)" "lift_stream (Feed (tp_decoder t) bytes) = Inr d"
          using none(1) d(1) by (simp_all add: lift_stream_def)
        have c: "\<not> (maximumReads \<le> reads \<or> so_WriteNeedsRead (tp_socket t) (so_stream (tp_socket t)))" using go wn by simp
        have ih: "\<exists>t' got rest. receive_loop maximumReads maximumFrames frames (Suc reads) ?t = Inr (t', frames @ got) \<and> fs = got @ rest \<and>
           readable t' \<and> holds_frames t' rest \<and> length (frames @ got) \<le> maximumFrames \<and> length (incoming t') \<le> length (incoming ?t)"
          using 1(1) [OF True ln(1) refl refl t [symmetric] refl c r [symmetric] b(1,2) ln(2) i(2) hf 1(5)] by blast
        then show ?thesis unfolding step using i(1) b(2,4) by (auto simp flip: length_greater_0_conv)
      qed
    qed
  qed
qed

lemma Receive_frames:
  assumes "readable t" and "holds_frames t fs"
  shows "\<exists>t' got rest. Transport_Receive maximumReads maximumFrames t = Inr (t', got) \<and> fs = got @ rest \<and> readable t' \<and>
    holds_frames t' rest \<and> length got \<le> maximumFrames \<and> length (incoming t') \<le> length (incoming t) \<and>
    (0 < maximumReads \<and> 0 < maximumFrames \<and> fs \<noteq> [] \<longrightarrow> got \<noteq> [] \<or> length (incoming t') < length (incoming t))"
proof -
  let ?t = "t\<lparr>tp_moreFrames := False, tp_moreReads := False\<rparr>"
  have t: "readable ?t" "holds_frames ?t fs" "incoming ?t = incoming t" "\<not> tp_closed t"
    using assms by (simp_all add: readable_def holds_frames_def incoming_def)
  obtain u got rest where u: "receive_loop maximumReads maximumFrames [] 0 ?t = Inr (u, got)" "fs = got @ rest" "readable u"
    "holds_frames u rest" "length got \<le> maximumFrames" "length (incoming u) \<le> length (incoming t)"
    "0 < maximumReads \<and> 0 < maximumFrames \<and> fs \<noteq> [] \<longrightarrow> got \<noteq> [] \<or> length (incoming u) < length (incoming t)"
    using receive_loop_frames [OF t(1,2), of "[]" maximumFrames maximumReads 0] t(3) by auto
  let ?u = "Transport_UpdateWriteInterest (u\<lparr>tp_moreFrames := (maximumFrames \<noteq> 0 \<and> length got = maximumFrames)\<rparr>)"
  have "so_WriteNeedsRead (tp_socket ?u) = so_WriteNeedsRead (tp_socket u)"
    by (simp add: Transport_UpdateWriteInterest_def Let_def)
  then have "readable ?u" "holds_frames ?u rest" "incoming ?u = incoming u"
    using u(3,4) by (simp_all add: readable_def holds_frames_def incoming_def)
  moreover have "Transport_Receive maximumReads maximumFrames t = Inr (?u, got)" using u(1) t(4) by (simp add: Transport_Receive_def)
  ultimately show ?thesis using u(2,5,6,7) by metis
qed

primrec transport_receives :: "nat \<Rightarrow> nat \<Rightarrow> nat \<Rightarrow> stream_transport \<Rightarrow> (stream_error, stream_transport \<times> frame list) res" where
  "transport_receives 0 maximumReads maximumFrames t = Inr (t, [])"
| "transport_receives (Suc k) maximumReads maximumFrames t =
     bindE (Transport_Receive maximumReads maximumFrames t) (\<lambda>(t', fs).
     bindE (transport_receives k maximumReads maximumFrames t') (\<lambda>(t'', gs). Inr (t'', fs @ gs)))"

lemma transport_receives_frames:
  assumes "0 < maximumReads" and "0 < maximumFrames"
  shows "readable t \<Longrightarrow> holds_frames t fs \<Longrightarrow> length (incoming t) + length fs \<le> k \<Longrightarrow>
    \<exists>t'. transport_receives k maximumReads maximumFrames t = Inr (t', fs)"
proof (induction k arbitrary: t fs)
  case (Suc k)
  obtain t' got rest where r: "Transport_Receive maximumReads maximumFrames t = Inr (t', got)" "fs = got @ rest" "readable t'"
    "holds_frames t' rest" "length (incoming t') \<le> length (incoming t)" "fs \<noteq> [] \<longrightarrow> got \<noteq> [] \<or> length (incoming t') < length (incoming t)"
    using Receive_frames [OF Suc(2,3)] assms by meson
  have "length (incoming t') + length rest \<le> k"
  proof (cases "fs = []")
    case True
    then have "incoming t' = []" using r(2,4) by (simp add: holds_frames_def)
    then show ?thesis using True r(2) by simp
  next
    case False
    then have "got \<noteq> [] \<or> length (incoming t') < length (incoming t)" using r(6) by simp
    then show ?thesis using r(2,5) Suc(4) by (cases got) auto
  qed
  from Suc(1) [OF r(3,4) this] show ?case using r(1,2) by auto
qed simp

section \<open>Every sequence of calls\<close>

text \<open>The transport with the bytes it has accepted so far.\<close>

inductive transport_step :: "stream_transport \<times> byte list \<Rightarrow> stream_transport \<times> byte list \<Rightarrow> bool" where
  queue: "Transport_Queue bytes t = (t', accepted) \<Longrightarrow> transport_step (t, acc) (t', acc @ (if accepted then bytes else []))"
| flush: "Transport_Flush maximumWrites t = Inr (t', unfinished) \<Longrightarrow> transport_step (t, acc) (t', acc)"
| receive: "Transport_Receive maximumReads maximumFrames t = Inr (t', frames) \<Longrightarrow> transport_step (t, acc) (t', acc)"

definition transport_inv :: "stream_transport \<times> byte list \<Rightarrow> bool" where
  "transport_inv = (\<lambda>(t, acc). transport_ok t \<and> written_by t @ waiting t = acc)"

lemma TryReadSome_written: "TryReadSome n s = (s', r) \<Longrightarrow> st_written s' = st_written s"
  by (auto simp: TryReadSome_def split: list.splits option.splits if_splits)

lemma receive_loop_output:
  "receive_loop maximumReads maximumFrames frames reads t = Inr (t', got) \<Longrightarrow>
     tp_output t' = tp_output t \<and> tp_offset t' = tp_offset t \<and> tp_queuedBytes t' = tp_queuedBytes t \<and> written_by t' = written_by t"
proof (induction maximumReads maximumFrames frames reads t rule: receive_loop.induct)
  case (1 maximumReads maximumFrames frames reads t)
  show ?case
  proof (cases "length frames < maximumFrames")
    case True
    then obtain d r where d: "lift_stream (Decoder_Next (tp_decoder t)) = Inr (d, r)"
      using 1(3) by (subst (asm) receive_loop.simps) (auto simp: bindE_eq_Inr_iff)
    show ?thesis
    proof (cases r)
      case (Some f)
      then show ?thesis using 1(2) [OF True d refl Some] 1(3) True d
        by (subst (asm) receive_loop.simps) (simp add: written_by_def)
    next
      case None
      let ?t = "t\<lparr>tp_decoder := d\<rparr>"
      obtain s q where q: "TryReadSome MaximumReadSize (so_stream (tp_socket ?t)) = (s, q)" by fastforce
      note w = TryReadSome_written [OF q]
      note e = 1(3) [unfolded receive_loop.simps [of _ _ _ _ t], simplified True if_True d bindE_simps prod.case None option.case Let_def q]
      show ?thesis
      proof (cases "reads \<ge> maximumReads \<or> so_WriteNeedsRead (tp_socket ?t) (so_stream (tp_socket ?t))")
        case stop: True
        then show ?thesis using e by (auto simp: written_by_def)
      next
        case go: False
        show ?thesis
        proof (cases "q = None \<or> q = Some []")
          case True
          then show ?thesis using e go w by (auto simp: written_by_def split: if_splits)
        next
          case False
          then obtain bytes where b: "q = Some bytes" "bytes \<noteq> []" by auto
          then obtain d' where f: "lift_stream (Feed d bytes) = Inr d'" using e go by (auto simp: bindE_eq_Inr_iff)
          from 1(1) [OF True d refl None refl refl go q [symmetric] b f] e go b f w show ?thesis
            by (auto simp: written_by_def)
        qed
      qed
    qed
  next
    case False
    then show ?thesis using 1(3) by (subst (asm) receive_loop.simps) auto
  qed
qed

lemma transport_step_inv: "transport_inv a \<Longrightarrow> transport_step a b \<Longrightarrow> transport_inv b"
proof (erule transport_step.cases)
  fix bytes t t' accepted acc
  assume "transport_inv a" "a = (t, acc)" "b = (t', acc @ (if accepted then bytes else []))" "Transport_Queue bytes t = (t', accepted)"
  then show "transport_inv b" using Queue_ok [of t bytes t' accepted] by (simp add: transport_inv_def)
next
  fix n t t' unfinished acc
  assume a: "transport_inv a" "a = (t, acc)" "b = (t', acc)" "Transport_Flush n t = Inr (t', unfinished)"
  have "\<forall>u blocked. flush_writes n t = Inr (u, blocked) \<longrightarrow> transport_ok u \<and> written_by u @ waiting u = acc"
    using flush_writes_ok [of t n] a(1,2) by (auto simp: transport_inv_def)
  then show "transport_inv b" using a
    by (auto simp: transport_inv_def Transport_Flush_def Let_def bindE_eq_Inr_iff split: if_splits)
next
  fix maximumReads maximumFrames t t' frames acc
  assume a: "transport_inv a" "a = (t, acc)" "b = (t', acc)" "Transport_Receive maximumReads maximumFrames t = Inr (t', frames)"
  then obtain u where u: "receive_loop maximumReads maximumFrames [] 0 (t\<lparr>tp_moreFrames := False, tp_moreReads := False\<rparr>) = Inr (u, frames)"
    "t' = Transport_UpdateWriteInterest (u\<lparr>tp_moreFrames := (maximumFrames \<noteq> 0 \<and> length frames = maximumFrames)\<rparr>)"
    by (auto simp: Transport_Receive_def bindE_eq_Inr_iff split: if_splits)
  show "transport_inv b" using receive_loop_output [OF u(1)] a(1-3) u(2)
    by (simp add: transport_inv_def transport_ok_def waiting_def written_by_def)
qed

interpretation relay_transport: component_invariant transport_step transport_inv
  by unfold_locales (rule transport_step_inv)

section \<open>Properties\<close>

text \<open>
  C16: over every sequence of calls, the bytes written to the socket followed by those still queued are exactly
  the bytes that were accepted, in order; the byte count agrees with the queue and never exceeds 4 MiB; a
  message is refused exactly when it would exceed that limit; and flushing never reads outside the queue.
\<close>

theorem relay_transport_output:
  assumes "transport_step\<^sup>*\<^sup>* (StreamTransport socket d, []) (t, acc)" and "st_written (so_stream socket) = []"
  shows "st_written (so_stream (tp_socket t)) @ drop (tp_offset t) (concat (tp_output t)) = acc \<and>
    tp_queuedBytes t = length (concat (tp_output t)) - tp_offset t \<and> tp_queuedBytes t \<le> 4194304 \<and>
    (snd (Transport_Queue bytes t) \<longleftrightarrow> tp_queuedBytes t + length bytes \<le> 4194304) \<and> safe (Transport_Flush n t)"
proof -
  have "transport_inv (StreamTransport socket d, [])"
    using assms(2) by (simp add: transport_inv_def transport_ok_def StreamTransport_def waiting_def written_by_def)
  then have t: "transport_ok t" "written_by t @ waiting t = acc"
    using relay_transport.steps_inv [OF assms(1)] by (simp_all add: transport_inv_def)
  obtain t' accepted where q: "Transport_Queue bytes t = (t', accepted)" by fastforce
  have "safe (Transport_Flush n t)" using flush_writes_ok [OF t(1), of n]
    by (auto simp: Transport_Flush_def Let_def safe_def bindE_eq_Inl_iff)
  then show ?thesis using t Queue_ok [OF t(1) q] q
    by (simp add: transport_ok_def waiting_def written_by_def MaximumQueuedBytes_def)
qed

theorem relay_transport_output_witness:
  "\<exists>socket t. transport_step\<^sup>*\<^sup>* (StreamTransport socket empty_decoder, []) (t, [1, 2, 3]) \<and> st_written (so_stream socket) = [] \<and>
     snd (Transport_Queue [4] t)"
proof -
  let ?so = "\<lparr>so_stream = \<lparr>st_input = [], st_writes = [], st_written = []\<rparr>, so_ReadNeedsWrite = \<lambda>_. False, so_WriteNeedsRead = \<lambda>_. False,
    so_HasBufferedInput = \<lambda>_. False, so_writeInterest = False, so_nonBlocking = False, so_closed = False\<rparr>"
  let ?t = "(StreamTransport ?so empty_decoder)\<lparr>tp_queuedBytes := 3, tp_output := [[1, 2, 3]]\<rparr>"
  have "transport_step (StreamTransport ?so empty_decoder, []) (?t, [] @ (if True then [1, 2, 3] else []))"
    by (rule transport_step.queue) (simp add: Transport_Queue_def StreamTransport_def MaximumQueuedBytes_def)
  then have s: "transport_step\<^sup>*\<^sup>* (StreamTransport ?so empty_decoder, []) (?t, [1, 2, 3])" by (simp add: r_into_rtranclp)
  have "snd (Transport_Queue [4] ?t)" using relay_transport_output [OF s, of "[4]"] by (simp add: StreamTransport_def)
  then show ?thesis using s by (intro exI [of _ ?so] exI [of _ ?t]) simp
qed

text \<open>
  C15: on a socket whose writes never wait for input, however the transport cuts the stream into chunks and
  however few frames each call may return, enough calls of \<open>Receive\<close> return exactly the frames that were encoded, in
  order, provided no frame is a fragment and each frame and a read of 64 KiB fit the decoder together.
\<close>

theorem relay_transport_delivers:
  assumes "concat chunks = concat (map encoding fs)" and "[] \<notin> set chunks" and "list_all relayed fs"
    and "st_input (so_stream socket) = map Some chunks" and "so_WriteNeedsRead socket = (\<lambda>_. False)"
    and "0 < maximumReads" and "0 < maximumFrames" and "length (concat chunks) + length fs \<le> k"
  shows "\<exists>t. transport_receives k maximumReads maximumFrames (StreamTransport socket empty_decoder) = Inr (t, fs)"
proof -
  let ?t = "StreamTransport socket empty_decoder"
  have i: "incoming ?t = concat chunks" using assms(4) by (simp add: incoming_def StreamTransport_def chunk_bytes_def comp_def)
  have "readable ?t" using assms(2,4,5) by (auto simp: readable_def StreamTransport_def)
  moreover have "holds_frames ?t fs" using assms(1,3) i
    by (simp add: holds_frames_def StreamTransport_def empty_decoder_def plain_decoder_def unread_def)
  ultimately show ?thesis using transport_receives_frames [OF assms(6,7)] assms(8) i by simp
qed

theorem relay_transport_delivers_witness:
  "\<exists>t. transport_receives 40 1 1 (StreamTransport
     \<lparr>so_stream = \<lparr>st_input = map Some [take 5 (encoding \<lparr>fr_type = Authenticate, fr_payload = [7]\<rparr>),
         drop 5 (encoding \<lparr>fr_type = Authenticate, fr_payload = [7]\<rparr>)], st_writes = [], st_written = []\<rparr>,
      so_ReadNeedsWrite = \<lambda>_. False, so_WriteNeedsRead = \<lambda>_. False,
      so_HasBufferedInput = \<lambda>_. False, so_writeInterest = False, so_nonBlocking = False, so_closed = False\<rparr> empty_decoder) =
     Inr (t, [\<lparr>fr_type = Authenticate, fr_payload = [7]\<rparr>])"
proof (rule relay_transport_delivers [where chunks = "[take 5 (encoding \<lparr>fr_type = Authenticate, fr_payload = [7]\<rparr>),
         drop 5 (encoding \<lparr>fr_type = Authenticate, fr_payload = [7]\<rparr>)]"])
  have "encoding f \<noteq> []" for f
    unfolding length_greater_0_conv [symmetric] length_encoding by (simp add: HeaderSize_def)
  then show "[] \<notin> set [take 5 (encoding \<lparr>fr_type = Authenticate, fr_payload = [7]\<rparr>),
      drop 5 (encoding \<lparr>fr_type = Authenticate, fr_payload = [7]\<rparr>)]" by (simp add: HeaderSize_def)
qed (simp_all add: relayed_def frame_ok_def HeaderSize_def MaximumReadSize_def MaximumEncodedSize_def MaximumPayloadSize_def
      Authenticate_def Fragment_def IsKnownType_def NetworkMapAck_def)

end
