(* ===== verification/Relay_Recovery.thy ===== *)
theory Relay_Recovery
  imports Relay_Frame
begin

text \<open>
  How a hosted node gets its relay back: the retry delays of \<^verbatim>\<open>src/core/control/client/RetryBackoff.cpp\<close> and the
  scheduling of a cancellable bootstrap thread in \<^verbatim>\<open>src/core/hosted/Recovery.cpp\<close>.

  The node's thread and the bootstrap thread interleave as steps of one relation.  The bootstrap itself (name
  resolution, TLS, authentication) is the unspecified result of the thread; a connection is the pair of the
  options it was made with and an arbitrary value.  Of the options four fields of the socket
  are kept; the others are handled alike, as parts of one value that is copied.  Times are nanoseconds, delays milliseconds as in the code.
\<close>

section \<open>RetryBackoff.cpp\<close>

record retry_backoff =
  rb_initialDelay :: int
  rb_maximumDelay :: int
  rb_nextDelay :: int

definition RetryBackoff :: "int \<Rightarrow> int \<Rightarrow> (relay_error, retry_backoff) res" where
  "RetryBackoff initialDelay maximumDelay =
     (if initialDelay \<le> 0 \<or> maximumDelay < initialDelay
      then Inl (Throw (invalid_argument ''Retry backoff delays are invalid.''))
      else Inr \<lparr>rb_initialDelay = initialDelay, rb_maximumDelay = maximumDelay, rb_nextDelay = initialDelay\<rparr>)"

definition NextDelay :: "retry_backoff \<Rightarrow> retry_backoff \<times> int" where
  "NextDelay b =
     (b\<lparr>rb_nextDelay := (if rb_nextDelay b > rb_maximumDelay b - rb_nextDelay b then rb_maximumDelay b else rb_nextDelay b * 2)\<rparr>,
      rb_nextDelay b)"

definition Backoff_Reset :: "retry_backoff \<Rightarrow> retry_backoff" where
  "Backoff_Reset b = b\<lparr>rb_nextDelay := rb_initialDelay b\<rparr>"

section \<open>Recovery.cpp\<close>

record connection_options =
  co_ConnectAddress :: string
  co_Service :: string
  co_NetworkInterface :: "string option"
  co_TlsServerName :: "string option"

type_synonym 'c connection_result = "connection_options \<times> 'c"

record 'c completion =
  cp_Generation :: u64
  cp_Connection :: "'c connection_result option"

text \<open>The joinable thread: what it captured, whether it was asked to stop, whether it has stored its completion.\<close>

record bootstrap_worker =
  wk_generation :: u64
  wk_options :: connection_options
  wk_stop :: bool
  wk_finished :: bool

record 'c recovery =
  rv_options :: "connection_options option"
  rv_deadline :: "int option"
  rv_backoff :: retry_backoff
  rv_generation :: u64
  rv_completion :: "'c completion option"
  rv_worker :: "bootstrap_worker option"

definition new_recovery :: "'c recovery" where
  "new_recovery = \<lparr>rv_options = None, rv_deadline = None,
     rv_backoff = \<lparr>rb_initialDelay = 1000, rb_maximumDelay = 30000, rb_nextDelay = 1000\<rparr>, rv_generation = 0,
     rv_completion = None, rv_worker = None\<rparr>"

definition Recovery_Cancel :: "'c recovery \<Rightarrow> 'c recovery" where
  "Recovery_Cancel r =
     r\<lparr>rv_generation := rv_generation r + 1, rv_worker := map_option (\<lambda>w. w\<lparr>wk_stop := True\<rparr>) (rv_worker r),
       rv_deadline := None, rv_completion := map_option (\<lambda>c. c\<lparr>cp_Connection := None\<rparr>) (rv_completion r)\<rparr>"

definition Recovery_Reset :: "'c recovery \<Rightarrow> 'c recovery" where
  "Recovery_Reset r = (Recovery_Cancel r)\<lparr>rv_worker := None, rv_completion := None, rv_options := None,
     rv_backoff := Backoff_Reset (rv_backoff r)\<rparr>"

definition Configure :: "connection_options \<Rightarrow> 'c recovery \<Rightarrow> 'c recovery" where
  "Configure options r = (Recovery_Cancel r)\<lparr>rv_options := Some options, rv_backoff := Backoff_Reset (rv_backoff r)\<rparr>"

definition Recovery_Failed :: "int \<Rightarrow> 'c recovery \<Rightarrow> 'c recovery" where
  "Recovery_Failed now r =
     (if rv_options r \<noteq> None \<and> rv_deadline r = None
      then r\<lparr>rv_deadline := Some (now + snd (NextDelay (rv_backoff r)) * 1000000), rv_backoff := fst (NextDelay (rv_backoff r))\<rparr>
      else r)"

definition Recovery_ChangeNetwork :: "int \<Rightarrow> string \<Rightarrow> 'c recovery \<Rightarrow> 'c recovery" where
  "Recovery_ChangeNetwork now networkInterface r =
     (case rv_options r of None \<Rightarrow> r
      | Some options \<Rightarrow> (Recovery_Cancel r)\<lparr>rv_options := Some (options\<lparr>co_NetworkInterface := Some networkInterface\<rparr>),
          rv_deadline := Some now\<rparr>)"

text \<open>
  \<^verbatim>\<open>Poll\<close> joins the thread when it has stored a completion; \<^verbatim>\<open>join\<close> of a thread that is not joinable throws, which is
  the fault here.  The second half starts a thread when one is due.
\<close>

definition start_worker :: "int \<Rightarrow> 'c recovery \<Rightarrow> 'c recovery" where
  "start_worker now r =
     (case rv_options r of None \<Rightarrow> r | Some options \<Rightarrow>
      (case rv_deadline r of None \<Rightarrow> r | Some deadline \<Rightarrow>
       if rv_worker r \<noteq> None \<or> now < deadline then r
       else r\<lparr>rv_deadline := None,
         rv_worker := Some \<lparr>wk_generation = rv_generation r, wk_options = options, wk_stop = False, wk_finished = False\<rparr>\<rparr>))"

definition Recovery_Poll :: "int \<Rightarrow> 'c recovery \<Rightarrow> (relay_error, 'c recovery \<times> 'c connection_result option) res" where
  "Recovery_Poll now r =
     (case rv_completion r of
        None \<Rightarrow> Inr (start_worker now r, None)
      | Some completed \<Rightarrow>
          if rv_worker r = None then Inl Fault else
          let r1 = r\<lparr>rv_completion := None, rv_worker := None\<rparr> in
          if cp_Generation completed = rv_generation r then
            (case cp_Connection completed of
               Some connection \<Rightarrow> Inr (r1\<lparr>rv_backoff := Backoff_Reset (rv_backoff r), rv_deadline := None\<rparr>, Some connection)
             | None \<Rightarrow> Inr (start_worker now (Recovery_Failed now (r1\<lparr>rv_deadline := None\<rparr>)), None))
          else Inr (start_worker now r1, None))"

definition Recovery_Deadline :: "'c recovery \<Rightarrow> int option" where
  "Recovery_Deadline r = (if rv_worker r \<noteq> None then None else rv_deadline r)"

text \<open>The end of the bootstrap thread: it stores its completion, without the connection when it was asked to stop.\<close>

definition worker_finish :: "'c option \<Rightarrow> 'c recovery \<Rightarrow> 'c recovery" where
  "worker_finish outcome r =
     (case rv_worker r of None \<Rightarrow> r | Some w \<Rightarrow>
      if wk_finished w then r else
      r\<lparr>rv_worker := Some (w\<lparr>wk_finished := True\<rparr>),
        rv_completion := Some \<lparr>cp_Generation = wk_generation w,
          cp_Connection = (if wk_stop w then None else map_option (\<lambda>c. (wk_options w, c)) outcome)\<rparr>\<rparr>)"

section \<open>Interleavings of the two threads\<close>

inductive recovery_step :: "'c recovery \<Rightarrow> 'c recovery \<Rightarrow> bool" where
  cancel: "recovery_step r (Recovery_Cancel r)"
| reset: "recovery_step r (Recovery_Reset r)"
| configure: "recovery_step r (Configure options r)"
| failed: "recovery_step r (Recovery_Failed now r)"
| change: "recovery_step r (Recovery_ChangeNetwork now networkInterface r)"
| poll: "Recovery_Poll now r = Inr (r', result) \<Longrightarrow> recovery_step r r'"
| worker: "recovery_step r (worker_finish outcome r)"

text \<open>
  A thread that was not asked to stop has the current options and generation, and so has a stored connection; a
  completion belongs to a joinable thread; the next delay is between 1 and 30 seconds.
\<close>

definition backoff_ok :: "retry_backoff \<Rightarrow> bool" where
  "backoff_ok b \<longleftrightarrow> 0 < rb_initialDelay b \<and> rb_initialDelay b \<le> rb_nextDelay b \<and> rb_nextDelay b \<le> rb_maximumDelay b"

definition worker_ok :: "'c recovery \<Rightarrow> bool" where
  "worker_ok r \<longleftrightarrow> (\<forall>w. rv_worker r = Some w \<longrightarrow> \<not> wk_stop w \<longrightarrow> rv_options r = Some (wk_options w) \<and> wk_generation w = rv_generation r) \<and>
     (\<forall>w. rv_worker r = Some w \<longrightarrow> (wk_finished w \<longleftrightarrow> rv_completion r \<noteq> None))"

definition completion_ok :: "'c recovery \<Rightarrow> bool" where
  "completion_ok r \<longleftrightarrow> (\<forall>c. rv_completion r = Some c \<longrightarrow> rv_worker r \<noteq> None \<and>
     (\<forall>options x. cp_Connection c = Some (options, x) \<longrightarrow> rv_options r = Some options \<and> cp_Generation c = rv_generation r))"

definition recovery_ok :: "'c recovery \<Rightarrow> bool" where
  "recovery_ok r \<longleftrightarrow> worker_ok r \<and> completion_ok r \<and> backoff_ok (rv_backoff r) \<and>
     rb_initialDelay (rv_backoff r) = 1000 \<and> rb_maximumDelay (rv_backoff r) = 30000"

lemmas recovery_defs = recovery_ok_def worker_ok_def completion_ok_def

lemma NextDelay_ok: "backoff_ok b \<Longrightarrow> backoff_ok (fst (NextDelay b))"
  by (auto simp: backoff_ok_def NextDelay_def)

lemma Backoff_simps [simp]:
  "rb_initialDelay (fst (NextDelay b)) = rb_initialDelay b" "rb_maximumDelay (fst (NextDelay b)) = rb_maximumDelay b"
  "rb_initialDelay (Backoff_Reset b) = rb_initialDelay b" "rb_maximumDelay (Backoff_Reset b) = rb_maximumDelay b"
  "snd (NextDelay b) = rb_nextDelay b"
  by (simp_all add: NextDelay_def Backoff_Reset_def)

lemma Backoff_Reset_ok: "backoff_ok b \<Longrightarrow> backoff_ok (Backoff_Reset b)"
  by (auto simp: backoff_ok_def Backoff_Reset_def)

lemma Cancel_ok: "recovery_ok r \<Longrightarrow> recovery_ok (Recovery_Cancel r)"
  by (auto simp: recovery_defs Recovery_Cancel_def)

text \<open>After a cancellation nothing depends on the options.\<close>

lemma cancelled_ok:
  assumes "recovery_ok r" and "rv_worker r' = rv_worker (Recovery_Cancel r)" and "rv_completion r' = rv_completion (Recovery_Cancel r)"
    and "rv_backoff r' = rv_backoff r \<or> rv_backoff r' = Backoff_Reset (rv_backoff r)"
  shows "recovery_ok r'"
  using assms Backoff_Reset_ok [of "rv_backoff r"] by (auto simp: recovery_defs Recovery_Cancel_def)

lemma Failed_ok: "recovery_ok r \<Longrightarrow> recovery_ok (Recovery_Failed now r)"
  by (auto simp: recovery_defs Recovery_Failed_def NextDelay_ok)

lemma start_worker_ok: "recovery_ok r \<Longrightarrow> rv_completion r = None \<Longrightarrow> recovery_ok (start_worker now r)"
  by (auto simp: recovery_defs start_worker_def split: option.splits)

lemma Recovery_Poll_ok:
  assumes "recovery_ok r"
  shows "\<exists>r' result. Recovery_Poll now r = Inr (r', result) \<and> recovery_ok r' \<and>
    (\<forall>options x. result = Some (options, x) \<longrightarrow> rv_options r = Some options)"
proof (cases "rv_completion r")
  case None
  then show ?thesis using start_worker_ok [OF assms None] by (simp add: Recovery_Poll_def)
next
  case (Some c)
  let ?r = "r\<lparr>rv_completion := None, rv_worker := None\<rparr>"
  have w: "rv_worker r \<noteq> None" and c: "\<And>options x. cp_Connection c = Some (options, x) \<Longrightarrow> rv_options r = Some options"
    using assms Some by (auto simp: recovery_defs)
  have r: "recovery_ok ?r" "recovery_ok (?r\<lparr>rv_deadline := None\<rparr>)"
    "recovery_ok (?r\<lparr>rv_backoff := Backoff_Reset (rv_backoff r), rv_deadline := None\<rparr>)"
    using assms Backoff_Reset_ok [of "rv_backoff r"] by (auto simp: recovery_defs)
  have s: "recovery_ok (start_worker now ?r)" "recovery_ok (start_worker now (Recovery_Failed now (?r\<lparr>rv_deadline := None\<rparr>)))"
    using r(1) Failed_ok [OF r(2), of now] by (auto intro!: start_worker_ok simp: Recovery_Failed_def)
  show ?thesis
    by (cases "cp_Generation c = rv_generation r"; cases "cp_Connection c")
      (use w c r(3) s Some in \<open>auto simp: Recovery_Poll_def Let_def\<close>)
qed

lemma recovery_step_ok:
  assumes r: "recovery_ok r" and s: "recovery_step r r'"
  shows "recovery_ok r'"
  using s
proof cases
  case cancel
  then show ?thesis using Cancel_ok [OF r] by simp
next
  case reset
  then show ?thesis using r Backoff_Reset_ok [of "rv_backoff r"] by (auto simp: Recovery_Reset_def recovery_defs Recovery_Cancel_def)
next
  case (configure options)
  then show ?thesis by (intro cancelled_ok [OF r]) (simp_all add: Configure_def)
next
  case (failed now)
  then show ?thesis using Failed_ok [OF r] by simp
next
  case (change now networkInterface)
  show ?thesis
  proof (cases "rv_options r")
    case None
    then show ?thesis using change r by (simp add: Recovery_ChangeNetwork_def)
  next
    case (Some options)
    then show ?thesis using change by (intro cancelled_ok [OF r]) (simp_all add: Recovery_ChangeNetwork_def Recovery_Cancel_def)
  qed
next
  case (poll now result)
  then show ?thesis using Recovery_Poll_ok [OF r, of now] by auto
next
  case (worker outcome)
  show ?thesis
  proof (cases "\<exists>w. rv_worker r = Some w \<and> \<not> wk_finished w")
    case True
    then obtain w where w: "rv_worker r = Some w" "\<not> wk_finished w" by blast
    then have "wk_stop w \<or> rv_options r = Some (wk_options w) \<and> wk_generation w = rv_generation r" using r by (auto simp: recovery_defs)
    then show ?thesis using worker w r by (auto simp: worker_finish_def recovery_ok_def worker_ok_def completion_ok_def)
  next
    case False
    then have "worker_finish outcome r = r" by (auto simp: worker_finish_def split: option.splits)
    then show ?thesis using worker r by simp
  qed
qed

interpretation recovery: component_invariant recovery_step recovery_ok
  by unfold_locales (rule recovery_step_ok)

lemma new_recovery_ok: "recovery_ok new_recovery"
  by (simp add: new_recovery_def recovery_defs backoff_ok_def)

section \<open>Properties\<close>

text \<open>
  A bootstrap that failed is retried: the poll that collects it sets the deadline of the next one after the current
  delay, and doubles the delay up to 30 seconds.
\<close>

lemma Poll_schedules_retry:
  assumes "recovery_ok r" and "rv_completion r = Some c" and "cp_Generation c = rv_generation r" and "cp_Connection c = None"
    and "rv_options r = Some options"
  shows "\<exists>r'. Recovery_Poll now r = Inr (r', None) \<and> rv_worker r' = None \<and>
    rv_deadline r' = Some (now + rb_nextDelay (rv_backoff r) * 1000000) \<and>
    rb_nextDelay (rv_backoff r') = min (2 * rb_nextDelay (rv_backoff r)) 30000"
proof -
  have "rv_worker r \<noteq> None" "0 < rb_nextDelay (rv_backoff r)" "rb_nextDelay (rv_backoff r) \<le> 30000" "rb_maximumDelay (rv_backoff r) = 30000"
    using assms(1,2) by (auto simp: recovery_defs backoff_ok_def)
  then show ?thesis using assms(2-5)
    by (auto simp: Recovery_Poll_def Recovery_Failed_def start_worker_def NextDelay_def Let_def)
qed

lemma Poll_connected:
  assumes "recovery_ok r" and "Recovery_Poll now r = Inr (r', Some connection)"
  shows "rv_deadline r' = None \<and> rv_worker r' = None \<and> rb_nextDelay (rv_backoff r') = 1000"
  using assms by (auto simp: Recovery_Poll_def Let_def recovery_ok_def Backoff_Reset_def split: option.splits if_splits)

text \<open>
  C12: however the node's thread and the bootstrap thread interleave, \<open>Poll\<close> never fails and returns a connection only
  if it was made with the options in force now; the next delay is then one second again.  The poll that collects a
  failed bootstrap of the current configuration schedules the next attempt, after a delay between 1 and 30 seconds
  which doubles up to that bound; a report of a lost relay does the same when nothing is scheduled.  The first poll at
  or after a scheduled time starts a bootstrap with the current options, unless one is running.
\<close>

theorem recovery_current:
  assumes "recovery_step\<^sup>*\<^sup>* new_recovery r"
  shows "(\<exists>r' result. Recovery_Poll now r = Inr (r', result) \<and>
      (\<forall>options x. result = Some (options, x) \<longrightarrow> rv_options r = Some options \<and> rv_deadline r' = None \<and>
        rv_worker r' = None \<and> rb_nextDelay (rv_backoff r') = 1000)) \<and>
    1000 \<le> rb_nextDelay (rv_backoff r) \<and> rb_nextDelay (rv_backoff r) \<le> 30000 \<and>
    (\<forall>c options. rv_completion r = Some c \<and> cp_Generation c = rv_generation r \<and> cp_Connection c = None \<and> rv_options r = Some options \<longrightarrow>
      (\<exists>r'. Recovery_Poll now r = Inr (r', None) \<and> rv_worker r' = None \<and>
        rv_deadline r' = Some (now + rb_nextDelay (rv_backoff r) * 1000000) \<and>
        rb_nextDelay (rv_backoff r') = min (2 * rb_nextDelay (rv_backoff r)) 30000)) \<and>
    (\<forall>options. rv_options r = Some options \<and> rv_deadline r = None \<longrightarrow>
      rv_deadline (Recovery_Failed now r) = Some (now + rb_nextDelay (rv_backoff r) * 1000000) \<and>
      rb_nextDelay (rv_backoff (Recovery_Failed now r)) = min (2 * rb_nextDelay (rv_backoff r)) 30000) \<and>
    (\<forall>t options. rv_options r = Some options \<and> rv_deadline r = Some t \<and> t \<le> now \<and> rv_worker r = None \<longrightarrow>
      (\<exists>r'. Recovery_Poll now r = Inr (r', None) \<and> rv_worker r' =
        Some \<lparr>wk_generation = rv_generation r, wk_options = options, wk_stop = False, wk_finished = False\<rparr>))"
proof (intro conjI allI impI)
  have r: "recovery_ok r" by (rule recovery.steps_inv [OF assms new_recovery_ok])
  then show "1000 \<le> rb_nextDelay (rv_backoff r)" "rb_nextDelay (rv_backoff r) \<le> 30000" by (auto simp: recovery_ok_def backoff_ok_def)
  show "\<exists>r' result. Recovery_Poll now r = Inr (r', result) \<and>
      (\<forall>options x. result = Some (options, x) \<longrightarrow> rv_options r = Some options \<and> rv_deadline r' = None \<and>
        rv_worker r' = None \<and> rb_nextDelay (rv_backoff r') = 1000)"
    using Recovery_Poll_ok [OF r, of now] Poll_connected [OF r, of now] by blast
  show "\<exists>r'. Recovery_Poll now r = Inr (r', None) \<and> rv_worker r' = None \<and>
      rv_deadline r' = Some (now + rb_nextDelay (rv_backoff r) * 1000000) \<and>
      rb_nextDelay (rv_backoff r') = min (2 * rb_nextDelay (rv_backoff r)) 30000"
    if "rv_completion r = Some c \<and> cp_Generation c = rv_generation r \<and> cp_Connection c = None \<and> rv_options r = Some options" for c options
    using Poll_schedules_retry [OF r] that by blast
  show "rv_deadline (Recovery_Failed now r) = Some (now + rb_nextDelay (rv_backoff r) * 1000000)"
    "rb_nextDelay (rv_backoff (Recovery_Failed now r)) = min (2 * rb_nextDelay (rv_backoff r)) 30000"
    if "rv_options r = Some options \<and> rv_deadline r = None" for options
    using that r by (auto simp: Recovery_Failed_def NextDelay_def recovery_ok_def backoff_ok_def)
  show "\<exists>r'. Recovery_Poll now r = Inr (r', None) \<and> rv_worker r' =
      Some \<lparr>wk_generation = rv_generation r, wk_options = options, wk_stop = False, wk_finished = False\<rparr>"
    if "rv_options r = Some options \<and> rv_deadline r = Some t \<and> t \<le> now \<and> rv_worker r = None" for t options
  proof -
    have "rv_completion r = None" using r that by (auto simp: recovery_defs)
    then show ?thesis using that by (simp add: Recovery_Poll_def start_worker_def)
  qed
qed

theorem recovery_current_witness:
  "\<exists>r :: nat recovery. recovery_step\<^sup>*\<^sup>* new_recovery r \<and> rv_worker r \<noteq> None \<and>
     (\<exists>r'. Recovery_Poll 5000000000 r = Inr (r', None) \<and> rv_worker r' = None \<and> rv_deadline r' = Some 7000000000)"
proof -
  let ?o = "\<lparr>co_ConnectAddress = ''relay'', co_Service = ''443'', co_NetworkInterface = None, co_TlsServerName = None\<rparr>"
  let ?failing = "Recovery_Failed 0 (Configure ?o new_recovery) :: nat recovery"
  let ?running = "start_worker 1000000000 ?failing"
  let ?done = "worker_finish None ?running"
  have "rv_completion ?failing = None"
    by (simp add: Recovery_Failed_def Configure_def Recovery_Cancel_def new_recovery_def)
  then have "Recovery_Poll 1000000000 ?failing = Inr (?running, None)" by (simp add: Recovery_Poll_def)
  then have s: "recovery_step\<^sup>*\<^sup>* new_recovery ?done"
    by (meson recovery_step.configure recovery_step.failed recovery_step.poll recovery_step.worker r_into_rtranclp rtranclp_trans)
  have d: "rv_worker ?done \<noteq> None" "rv_options ?done = Some ?o" "rb_nextDelay (rv_backoff ?done) = 2000"
    "rv_completion ?done = Some \<lparr>cp_Generation = rv_generation ?done, cp_Connection = None\<rparr>"
    by (simp_all add: worker_finish_def start_worker_def Recovery_Failed_def Configure_def Recovery_Cancel_def new_recovery_def
      Backoff_Reset_def NextDelay_def)
  from recovery_current [OF s, of 5000000000] d
  have "\<exists>r'. Recovery_Poll 5000000000 ?done = Inr (r', None) \<and> rv_worker r' = None \<and> rv_deadline r' = Some 7000000000"
    by force
  then show ?thesis using s d(1) by blast
qed

end
