(* ===== verification/Derp_Connection.thy ===== *)
theory Derp_Connection
  imports Derp_Client
begin

text \<open>
  One DERP connection of the node: the bounded send queue of \<^verbatim>\<open>src/core/derp/SendQueue.cpp\<close> and the
  reconnecting connection of \<^verbatim>\<open>src/core/derp/impl/ConnectionImpl.cpp\<close> over the client of \<open>Derp_Client\<close>.

  Times are nanoseconds; \<^verbatim>\<open>TimePoint::max()\<close> is \<open>None\<close>.  The environment of an operation (\<open>conn_env\<close>) holds
  the clock reading, the result of the dialling thread, and the TLS flags of the socket as functions of
  the stream.  The socket and the client are created and dropped together.
\<close>

section \<open>SendQueue.cpp\<close>

datatype send_priority = Data | Control

record queued_packet =
  qp_Destination :: key32
  qp_Payload :: "byte list"

record push_result =
  pr_Accepted :: bool
  pr_DroppedPackets :: nat

record send_queue =
  sq_maximumPackets :: nat
  sq_maximumBytes :: nat
  sq_bytes :: nat
  sq_control :: "queued_packet list"
  sq_data :: "queued_packet list"

definition DerpSendQueue :: "nat \<Rightarrow> nat \<Rightarrow> (relay_error, send_queue) res" where
  "DerpSendQueue maximumPackets maximumBytes =
     (if maximumPackets = 0 \<or> maximumBytes = 0
      then Inl (Throw (invalid_argument ''DERP queue limits must be positive.''))
      else Inr \<lparr>sq_maximumPackets = maximumPackets, sq_maximumBytes = maximumBytes, sq_bytes = 0,
        sq_control = [], sq_data = []\<rparr>)"

definition Queue_Size :: "send_queue \<Rightarrow> nat" where
  "Queue_Size q = length (sq_control q) + length (sq_data q)"

text \<open>The body of the loop that makes room: the oldest data packet goes first, then the oldest control packet.\<close>

definition drop_oldest :: "send_queue \<Rightarrow> send_queue" where
  "drop_oldest q =
     (if sq_data q = []
      then q\<lparr>sq_bytes := sq_bytes q - length (qp_Payload (hd (sq_control q))), sq_control := tl (sq_control q)\<rparr>
      else q\<lparr>sq_bytes := sq_bytes q - length (qp_Payload (hd (sq_data q))), sq_data := tl (sq_data q)\<rparr>)"

function make_room :: "nat \<Rightarrow> send_queue \<Rightarrow> nat \<Rightarrow> send_queue \<times> nat" where
  "make_room bytes q dropped =
     (if Queue_Size q > 0 \<and> (Queue_Size q \<ge> sq_maximumPackets q \<or> sq_bytes q + bytes > sq_maximumBytes q)
      then make_room bytes (drop_oldest q) (dropped + 1) else (q, dropped))"
  by pat_completeness auto
termination
  by (relation "measure (\<lambda>(bytes, q, dropped). Queue_Size q)")
    (auto simp: Queue_Size_def drop_oldest_def length_greater_0_conv [symmetric] simp del: length_greater_0_conv)

declare make_room.simps [simp del]

definition Queue_Push :: "queued_packet \<Rightarrow> send_priority \<Rightarrow> send_queue \<Rightarrow> send_queue \<times> push_result" where
  "Queue_Push packet priority q =
     (if length (qp_Payload packet) > sq_maximumBytes q then (q, \<lparr>pr_Accepted = False, pr_DroppedPackets = 0\<rparr>) else
      let (q1, dropped) = make_room (length (qp_Payload packet)) q 0;
          q2 = q1\<lparr>sq_bytes := sq_bytes q1 + length (qp_Payload packet)\<rparr> in
      (case priority of
         Control \<Rightarrow> q2\<lparr>sq_control := sq_control q2 @ [packet]\<rparr>
       | Data \<Rightarrow> q2\<lparr>sq_data := sq_data q2 @ [packet]\<rparr>,
       \<lparr>pr_Accepted = True, pr_DroppedPackets = dropped\<rparr>))"

definition Queue_Pop :: "send_queue \<Rightarrow> send_queue \<times> queued_packet option" where
  "Queue_Pop q =
     (case sq_control q of
        p # rest \<Rightarrow> (q\<lparr>sq_control := rest, sq_bytes := sq_bytes q - length (qp_Payload p)\<rparr>, Some p)
      | [] \<Rightarrow> (case sq_data q of
          p # rest \<Rightarrow> (q\<lparr>sq_data := rest, sq_bytes := sq_bytes q - length (qp_Payload p)\<rparr>, Some p)
        | [] \<Rightarrow> (q, None)))"

section \<open>ConnectionImpl.cpp\<close>

definition seconds :: "nat \<Rightarrow> int" where "seconds n = int n * 1000000000"
definition InitialReconnectDelay :: nat where "InitialReconnectDelay = 1"
definition MaximumReconnectDelay :: nat where "MaximumReconnectDelay = 30"
definition MaximumFramesPerFlush :: nat where "MaximumFramesPerFlush = 64"

definition empty_queue :: send_queue where
  "empty_queue = \<lparr>sq_maximumPackets = 4096, sq_maximumBytes = 8 * 1024 * 1024, sq_bytes = 0, sq_control = [], sq_data = []\<rparr>"

record derp_connection =
  cn_token :: nat
  cn_networkInterface :: string
  cn_dial :: bool
  cn_enabled :: bool
  cn_client :: "derp_client option"
  cn_outgoing :: send_queue
  cn_nextReconnect :: "int option"
  cn_reconnectDelay :: nat
  cn_posted :: nat
  cn_writeInterest :: bool

datatype dial_result = DialError | Dialed derp_client

record conn_env =
  ce_now :: int
  ce_dialResult :: "dial_result option"
  ce_bufferedInput :: "byte_stream \<Rightarrow> bool"
  ce_readNeedsWrite :: "byte_stream \<Rightarrow> bool"
  ce_writeNeedsRead :: "byte_stream \<Rightarrow> bool"

text \<open>
  A method that may throw leaves the connection in the state it had then: the exception carries it.  What the
  client throws is caught by the connection, so only that it threw matters.
\<close>

type_synonym 'a conn_res = "(derp_connection, 'a) res"

definition on_client :: "derp_connection \<Rightarrow> (relay_error, 'a) res \<Rightarrow> 'a conn_res" where
  "on_client c m = (case m of Inl Fault \<Rightarrow> Inl Fault | Inl (Throw _) \<Rightarrow> Inl (Throw c) | Inr x \<Rightarrow> Inr x)"

definition Disconnect :: "derp_connection \<Rightarrow> derp_connection" where
  "Disconnect c = c\<lparr>cn_dial := False, cn_client := None\<rparr>"

definition ScheduleReconnect :: "conn_env \<Rightarrow> derp_connection \<Rightarrow> derp_connection" where
  "ScheduleReconnect e c =
     (Disconnect c)\<lparr>cn_nextReconnect := Some (ce_now e + seconds (cn_reconnectDelay c)),
       cn_reconnectDelay := min (cn_reconnectDelay c * 2) MaximumReconnectDelay\<rparr>"

primrec flush_frames :: "nat \<Rightarrow> derp_connection \<Rightarrow> derp_connection conn_res" where
  "flush_frames 0 c = Inr c"
| "flush_frames (Suc n) c =
     (case cn_client c of None \<Rightarrow> Inr c | Some client \<Rightarrow>
      if HasPendingOutput client then Inr c else
      (case Queue_Pop (cn_outgoing c) of
         (q, None) \<Rightarrow> Inr c
       | (q, Some p) \<Rightarrow>
           let c' = c\<lparr>cn_outgoing := q\<rparr> in
           bindE (on_client c' (Client_Send (qp_Destination p) (qp_Payload p) client)) (\<lambda>client'.
             flush_frames n (c'\<lparr>cn_client := Some client'\<rparr>))))"

definition flush_client :: "derp_connection \<Rightarrow> derp_connection conn_res" where
  "flush_client c =
     (case cn_client c of None \<Rightarrow> Inr c | Some client \<Rightarrow>
      if HasPendingOutput client then bindE (on_client c (Flush client)) (\<lambda>client'. Inr (c\<lparr>cn_client := Some client'\<rparr>))
      else Inr c)"

definition FlushOutgoing :: "derp_connection \<Rightarrow> derp_connection conn_res" where
  "FlushOutgoing c = (if cn_client c = None then Inr c else bindE (flush_frames MaximumFramesPerFlush c) flush_client)"

definition DrainIncoming :: "derp_connection \<Rightarrow> (derp_connection \<times> derp_packet list) conn_res" where
  "DrainIncoming c =
     (case cn_client c of None \<Rightarrow> Inr (c, []) | Some client \<Rightarrow>
      bindE (on_client c (ReceiveAvailableBatch client)) (\<lambda>(client', packets). Inr (c\<lparr>cn_client := Some client'\<rparr>, packets)))"

definition UpdateWriteInterest :: "conn_env \<Rightarrow> derp_connection \<Rightarrow> derp_connection conn_res" where
  "UpdateWriteInterest e c =
     (case cn_client c of None \<Rightarrow> Inr c | Some client \<Rightarrow>
      bindE (on_client c (HasBufferedInput (ce_bufferedInput e) client)) (\<lambda>buffered.
        Inr (c\<lparr>cn_posted := (if buffered then cn_posted c + 1 else cn_posted c),
          cn_writeInterest := (ce_readNeedsWrite e (cl_Stream client) \<or>
            (\<not> ce_writeNeedsRead e (cl_Stream client) \<and>
             (HasPendingOutput client \<or> Queue_Size (cn_outgoing c) \<noteq> 0)))\<rparr>)))"

definition Connect :: "conn_env \<Rightarrow> derp_connection \<Rightarrow> derp_connection conn_res" where
  "Connect e c =
     (case ce_dialResult e of
        None \<Rightarrow> Inr (c\<lparr>cn_dial := True\<rparr>)
      | Some DialError \<Rightarrow> Inl (Throw (c\<lparr>cn_dial := False\<rparr>))
      | Some (Dialed client) \<Rightarrow>
          bindE (FlushOutgoing (c\<lparr>cn_dial := False, cn_client := Some client,
            cn_reconnectDelay := InitialReconnectDelay, cn_nextReconnect := None\<rparr>)) (UpdateWriteInterest e))"

text \<open>\<^verbatim>\<open>catch (const std::exception&)\<close> around connection work.\<close>

definition or_reconnect :: "conn_env \<Rightarrow> derp_connection conn_res \<Rightarrow> (relay_error, derp_connection) res" where
  "or_reconnect e m = (case m of Inl Fault \<Rightarrow> Inl Fault | Inl (Throw c) \<Rightarrow> Inr (ScheduleReconnect e c) | Inr c \<Rightarrow> Inr c)"

definition Maintain :: "conn_env \<Rightarrow> derp_connection \<Rightarrow> (relay_error, derp_connection) res" where
  "Maintain e c =
     (if \<not> cn_enabled c then Inr c
      else if cn_client c \<noteq> None then or_reconnect e (bindE (FlushOutgoing c) (UpdateWriteInterest e))
      else if (case cn_nextReconnect c of None \<Rightarrow> True | Some t \<Rightarrow> ce_now e < t) then Inr c
      else or_reconnect e (Connect e c))"

definition ConnectionImpl :: "conn_env \<Rightarrow> nat \<Rightarrow> string \<Rightarrow> bool \<Rightarrow> (relay_error, derp_connection) res" where
  "ConnectionImpl e token networkInterface enabled =
     Maintain e \<lparr>cn_token = token, cn_networkInterface = networkInterface, cn_dial = False, cn_enabled = enabled,
       cn_client = None, cn_outgoing = empty_queue, cn_nextReconnect = Some (ce_now e),
       cn_reconnectDelay = InitialReconnectDelay, cn_posted = 0, cn_writeInterest = False\<rparr>"

definition Connection_SetEnabled :: "conn_env \<Rightarrow> bool \<Rightarrow> derp_connection \<Rightarrow> (relay_error, derp_connection) res" where
  "Connection_SetEnabled e enabled c =
     (if cn_enabled c = enabled then Inr c else
      let c' = (Disconnect c)\<lparr>cn_enabled := enabled, cn_outgoing := empty_queue, cn_posted := 0,
        cn_nextReconnect := Some (ce_now e), cn_reconnectDelay := InitialReconnectDelay\<rparr> in
      if enabled then Maintain e c' else Inr c')"

definition ChangeNetwork :: "conn_env \<Rightarrow> string \<Rightarrow> derp_connection \<Rightarrow> (relay_error, derp_connection) res" where
  "ChangeNetwork e networkInterface c =
     Maintain e ((Disconnect c)\<lparr>cn_networkInterface := networkInterface, cn_posted := 0,
       cn_nextReconnect := Some (ce_now e), cn_reconnectDelay := InitialReconnectDelay\<rparr>)"

definition Connection_Send ::
    "conn_env \<Rightarrow> key32 \<Rightarrow> byte list \<Rightarrow> send_priority \<Rightarrow> derp_connection \<Rightarrow> (relay_error, derp_connection) res" where
  "Connection_Send e destination packet priority c =
     (if \<not> cn_enabled c then Inr c else
      let (q, pushed) = Queue_Push \<lparr>qp_Destination = destination, qp_Payload = packet\<rparr> priority (cn_outgoing c) in
      if \<not> pr_Accepted pushed then Inr (c\<lparr>cn_outgoing := q\<rparr>)
      else Maintain e (c\<lparr>cn_outgoing := q\<rparr>))"

definition Connected :: "derp_connection \<Rightarrow> bool" where
  "Connected c \<longleftrightarrow> cn_client c \<noteq> None"

record derp_event =
  ev_Token :: nat
  ev_Readable :: bool
  ev_Writable :: bool
  ev_Error :: bool
  ev_Closed :: bool

datatype connection_status = StatusReady | Disconnected

record event_result =
  er_Handled :: bool
  er_Status :: connection_status
  er_Packets :: "derp_packet list"

text \<open>
  The body of the \<^verbatim>\<open>try\<close> block of \<^verbatim>\<open>ProcessEvent\<close>.  Packets drained before an exception stay in the result, so
  the exception carries them too.
\<close>

definition with_packets :: "derp_packet list \<Rightarrow> 'a conn_res \<Rightarrow> (derp_connection \<times> derp_packet list, 'a) res" where
  "with_packets ps m = (case m of Inl Fault \<Rightarrow> Inl Fault | Inl (Throw c) \<Rightarrow> Inl (Throw (c, ps)) | Inr x \<Rightarrow> Inr x)"

definition stream_of :: "derp_connection \<Rightarrow> byte_stream" where
  "stream_of c = (case cn_client c of None \<Rightarrow> \<lparr>st_input = [], st_writes = [], st_written = []\<rparr> | Some client \<Rightarrow> cl_Stream client)"

definition pending_output :: "derp_connection \<Rightarrow> bool" where
  "pending_output c = (case cn_client c of None \<Rightarrow> False | Some client \<Rightarrow> HasPendingOutput client)"

definition process_writable ::
    "conn_env \<Rightarrow> derp_connection \<Rightarrow> (derp_connection \<times> derp_packet list, derp_connection \<times> derp_packet list) res" where
  "process_writable e c =
     bindE (if ce_readNeedsWrite e (stream_of c) then with_packets [] (DrainIncoming c) else Inr (c, [])) (\<lambda>(c', packets).
       if \<not> ce_readNeedsWrite e (stream_of c') \<and> pending_output c'
       then bindE (with_packets packets (flush_client c')) (\<lambda>c''. Inr (c'', packets))
       else Inr (c', packets))"

definition process_readable ::
    "conn_env \<Rightarrow> derp_connection \<times> derp_packet list \<Rightarrow> (derp_connection \<times> derp_packet list, derp_connection \<times> derp_packet list) res" where
  "process_readable e = (\<lambda>(c, packets).
     bindE (if pending_output c \<and> ce_writeNeedsRead e (stream_of c) then with_packets packets (flush_client c) else Inr c) (\<lambda>c'.
       if \<not> ce_writeNeedsRead e (stream_of c')
       then bindE (with_packets packets (DrainIncoming c')) (\<lambda>(c'', more). Inr (c'', packets @ more))
       else Inr (c', packets)))"

definition process_io ::
    "conn_env \<Rightarrow> derp_event \<Rightarrow> derp_connection \<Rightarrow> (derp_connection \<times> derp_packet list, derp_connection \<times> derp_packet list) res" where
  "process_io e event c =
     bindE (with_packets [] (FlushOutgoing c)) (\<lambda>c1.
     bindE (if ev_Writable event then process_writable e c1 else Inr (c1, [])) (\<lambda>(c2, packets).
     bindE (if ev_Readable event then Inr True
            else case cn_client c2 of None \<Rightarrow> Inr False
                 | Some client \<Rightarrow> with_packets packets (on_client c2 (HasBufferedInput (ce_bufferedInput e) client))) (\<lambda>readable.
     bindE (if readable then process_readable e (c2, packets) else Inr (c2, packets)) (\<lambda>(c3, packets').
     bindE (with_packets packets' (UpdateWriteInterest e c3)) (\<lambda>c4. Inr (c4, packets'))))))"

definition ProcessEvent :: "conn_env \<Rightarrow> derp_event \<Rightarrow> derp_connection \<Rightarrow> (relay_error, derp_connection \<times> event_result) res" where
  "ProcessEvent e event c =
     (if ev_Token event \<noteq> cn_token c then Inr (c, \<lparr>er_Handled = False, er_Status = StatusReady, er_Packets = []\<rparr>) else
      bindE (if cn_client c = None then Maintain e c else Inr c) (\<lambda>c'.
      if cn_client c' = None then Inr (c', \<lparr>er_Handled = True, er_Status = StatusReady, er_Packets = []\<rparr>)
      else if ev_Error event \<or> ev_Closed event
      then Inr (ScheduleReconnect e c', \<lparr>er_Handled = True, er_Status = Disconnected, er_Packets = []\<rparr>)
      else (case process_io e event c' of
              Inl Fault \<Rightarrow> Inl Fault
            | Inl (Throw (c'', packets)) \<Rightarrow>
                Inr (ScheduleReconnect e c'', \<lparr>er_Handled = True, er_Status = Disconnected, er_Packets = packets\<rparr>)
            | Inr (c'', packets) \<Rightarrow> Inr (c'', \<lparr>er_Handled = True, er_Status = StatusReady, er_Packets = packets\<rparr>))))"

section \<open>The queue keeps its limits and drops the oldest data first\<close>

definition total_bytes :: "queued_packet list \<Rightarrow> nat" where
  "total_bytes ps = sum_list (map (\<lambda>p. length (qp_Payload p)) ps)"

lemma total_bytes_simps [simp]:
  "total_bytes [] = 0" "total_bytes (p # ps) = length (qp_Payload p) + total_bytes ps"
  "total_bytes (ps @ qs) = total_bytes ps + total_bytes qs"
  by (simp_all add: total_bytes_def)

definition counted :: "send_queue \<Rightarrow> bool" where
  "counted q \<longleftrightarrow> sq_bytes q = total_bytes (sq_control q) + total_bytes (sq_data q)"

definition queue_ok :: "send_queue \<Rightarrow> bool" where
  "queue_ok q \<longleftrightarrow> counted q \<and> 0 < sq_maximumPackets q \<and> 0 < sq_maximumBytes q \<and>
     Queue_Size q \<le> sq_maximumPackets q \<and> sq_bytes q \<le> sq_maximumBytes q"

text \<open>The queue without its \<open>k\<close> oldest packets, data before control.\<close>

definition without_oldest :: "nat \<Rightarrow> send_queue \<Rightarrow> send_queue" where
  "without_oldest k q =
     (let control = drop (k - length (sq_data q)) (sq_control q); data = drop k (sq_data q) in
      q\<lparr>sq_control := control, sq_data := data, sq_bytes := total_bytes control + total_bytes data\<rparr>)"

definition has_room :: "nat \<Rightarrow> send_queue \<Rightarrow> bool" where
  "has_room n q \<longleftrightarrow> Queue_Size q = 0 \<or> Queue_Size q < sq_maximumPackets q \<and> sq_bytes q + n \<le> sq_maximumBytes q"

lemma without_oldest_0: "counted q \<Longrightarrow> without_oldest 0 q = q"
  by (simp add: without_oldest_def counted_def)

lemma drop_oldest_without: "counted q \<Longrightarrow> 0 < Queue_Size q \<Longrightarrow> drop_oldest q = without_oldest 1 q \<and> counted (drop_oldest q)"
  by (cases "sq_data q"; cases "sq_control q")
    (auto simp: drop_oldest_def without_oldest_def counted_def Queue_Size_def)

lemma without_oldest_Suc: "without_oldest k (without_oldest 1 q) = without_oldest (Suc k) q"
  by (cases "sq_data q") (auto simp: without_oldest_def Let_def drop_Suc [of k] drop_drop)

lemma Queue_Size_without [simp]: "Queue_Size (without_oldest k q) = Queue_Size q - k"
  by (auto simp: Queue_Size_def without_oldest_def Let_def)

lemma make_room_eq:
  "counted q \<Longrightarrow> \<exists>k. make_room n q d = (without_oldest k q, d + k) \<and> k \<le> Queue_Size q \<and>
     counted (without_oldest k q) \<and> has_room n (without_oldest k q) \<and> (\<forall>j<k. \<not> has_room n (without_oldest j q))"
proof (induction n q d rule: make_room.induct)
  case (1 n q d)
  show ?case
  proof (cases "has_room n q")
    case True
    then have "make_room n q d = (q, d)" by (subst make_room.simps) (auto simp: has_room_def)
    then show ?thesis using 1(2) True by (intro exI [of _ 0]) (simp add: without_oldest_0)
  next
    case False
    then have c: "Queue_Size q > 0 \<and> (Queue_Size q \<ge> sq_maximumPackets q \<or> sq_bytes q + n > sq_maximumBytes q)"
      by (auto simp: has_room_def not_less not_le)
    note d = drop_oldest_without [OF 1(2) conjunct1 [OF c], THEN conjunct1]
      drop_oldest_without [OF 1(2) conjunct1 [OF c], THEN conjunct2]
    obtain k where k: "make_room n (drop_oldest q) (d + 1) = (without_oldest k (drop_oldest q), d + 1 + k)"
      "k \<le> Queue_Size (drop_oldest q)" "counted (without_oldest k (drop_oldest q))"
      "has_room n (without_oldest k (drop_oldest q))" "\<forall>j<k. \<not> has_room n (without_oldest j (drop_oldest q))"
      using 1(1) [OF c d(2)] by (elim exE conjE)
    have less: "\<not> has_room n (without_oldest j q)" if "j < Suc k" for j
    proof (cases j)
      case 0
      then show ?thesis using False without_oldest_0 [OF 1(2)] by simp
    next
      case (Suc i)
      then show ?thesis using that k(5) unfolding d(1) without_oldest_Suc by simp
    qed
    have "make_room n q d = make_room n (drop_oldest q) (d + 1)"
      using c by (subst make_room.simps) simp
    then show ?thesis
      using k(1-4) less conjunct1 [OF c] unfolding d(1) without_oldest_Suc by (intro exI [of _ "Suc k"]) simp
  qed
qed

lemma queue_ok_room:
  "queue_ok q \<Longrightarrow> counted q' \<Longrightarrow> has_room n q' \<Longrightarrow> n \<le> sq_maximumBytes q' \<Longrightarrow> 0 < sq_maximumPackets q' \<Longrightarrow>
     sq_bytes q' + n \<le> sq_maximumBytes q' \<and> Queue_Size q' + 1 \<le> sq_maximumPackets q'"
  by (auto simp: has_room_def counted_def Queue_Size_def)

lemma Queue_Push_ok: "queue_ok q \<Longrightarrow> queue_ok (fst (Queue_Push p pr q))"
proof (cases "length (qp_Payload p) > sq_maximumBytes q")
  case False
  assume q: "queue_ok q"
  obtain k where k: "make_room (length (qp_Payload p)) q 0 = (without_oldest k q, 0 + k)"
    "counted (without_oldest k q)" "has_room (length (qp_Payload p)) (without_oldest k q)"
    using make_room_eq [of q "length (qp_Payload p)" 0] q by (auto simp: queue_ok_def)
  have lim: "sq_maximumPackets (without_oldest k q) = sq_maximumPackets q" "sq_maximumBytes (without_oldest k q) = sq_maximumBytes q"
    by (simp_all add: without_oldest_def Let_def)
  have "sq_bytes (without_oldest k q) + length (qp_Payload p) \<le> sq_maximumBytes q"
    "Queue_Size (without_oldest k q) + 1 \<le> sq_maximumPackets q"
    using queue_ok_room [OF q k(2,3)] q False unfolding lim queue_ok_def by auto
  then show ?thesis
    using q k(1,2) False lim unfolding Queue_Push_def
    by (cases pr) (simp_all add: queue_ok_def counted_def Queue_Size_def)
qed (simp add: Queue_Push_def)

lemma Queue_Pop_ok: "queue_ok q \<Longrightarrow> queue_ok (fst (Queue_Pop q))"
  by (auto simp: Queue_Pop_def queue_ok_def counted_def Queue_Size_def split: list.split)

section \<open>The invariant of a connection\<close>

text \<open>
  A connection is dialling, connected or waiting for its next attempt; a disabled one has no client, no dial in
  progress and no queued packet.
\<close>

definition bounded_queue :: "send_queue \<Rightarrow> bool" where
  "bounded_queue q \<longleftrightarrow> queue_ok q \<and> sq_maximumPackets q = 4096 \<and> sq_maximumBytes q = 8388608"

definition conn_ok :: "derp_connection \<Rightarrow> bool" where
  "conn_ok c \<longleftrightarrow> bounded_queue (cn_outgoing c) \<and> 1 \<le> cn_reconnectDelay c \<and> cn_reconnectDelay c \<le> 30 \<and>
     (cn_client c = None \<longleftrightarrow> cn_nextReconnect c \<noteq> None) \<and> (cn_dial c \<longrightarrow> cn_client c = None) \<and>
     (\<forall>client. cn_client c = Some client \<longrightarrow> client_ok client) \<and>
     (\<not> cn_enabled c \<longrightarrow> cn_client c = None \<and> \<not> cn_dial c \<and> Queue_Size (cn_outgoing c) = 0)"

text \<open>What an exception may leave behind, and what holds while the client is in use.\<close>

definition weak_ok :: "derp_connection \<Rightarrow> bool" where
  "weak_ok c \<longleftrightarrow> cn_enabled c \<and> bounded_queue (cn_outgoing c) \<and> 1 \<le> cn_reconnectDelay c \<and> cn_reconnectDelay c \<le> 30"

definition live_ok :: "derp_connection \<Rightarrow> bool" where
  "live_ok c \<longleftrightarrow> weak_ok c \<and> cn_nextReconnect c = None \<and> \<not> cn_dial c \<and>
     (\<exists>client. cn_client c = Some client \<and> client_ok client)"

definition env_ok :: "conn_env \<Rightarrow> bool" where
  "env_ok e \<longleftrightarrow> (\<forall>client. ce_dialResult e = Some (Dialed client) \<longrightarrow> client_ok client)"

lemma live_weak: "live_ok c \<Longrightarrow> weak_ok c" by (simp add: live_ok_def)

lemma live_conn: "live_ok c \<Longrightarrow> conn_ok c" by (auto simp: live_ok_def conn_ok_def weak_ok_def)

lemma conn_live: "conn_ok c \<Longrightarrow> cn_client c \<noteq> None \<Longrightarrow> live_ok c"
  by (auto simp: conn_ok_def live_ok_def weak_ok_def)

lemma bounded_Pop: "bounded_queue q \<Longrightarrow> Queue_Pop q = (q', r) \<Longrightarrow> bounded_queue q'"
  using Queue_Pop_ok [of q] by (auto simp: bounded_queue_def Queue_Pop_def split: list.splits)

lemma bounded_Push: "bounded_queue q \<Longrightarrow> Queue_Push p pr q = (q', r) \<Longrightarrow> bounded_queue q'"
proof -
  assume a: "bounded_queue q" "Queue_Push p pr q = (q', r)"
  then have "counted q" by (simp add: bounded_queue_def queue_ok_def)
  from make_room_eq [OF this, of "length (qp_Payload p)" 0] obtain k where
    "make_room (length (qp_Payload p)) q 0 = (without_oldest k q, 0 + k)" by blast
  with a(2) have "sq_maximumPackets q' = sq_maximumPackets q \<and> sq_maximumBytes q' = sq_maximumBytes q"
    by (auto simp: Queue_Push_def without_oldest_def Let_def split: if_splits send_priority.splits)
  then show ?thesis using a Queue_Push_ok [of q p pr] by (auto simp: bounded_queue_def)
qed

lemma bounded_empty [simp]: "bounded_queue empty_queue" "Queue_Size empty_queue = 0"
  by (simp_all add: bounded_queue_def queue_ok_def counted_def empty_queue_def Queue_Size_def)

lemma keeps_on_client: "safe m \<Longrightarrow> Q c \<Longrightarrow> (\<And>x. m = Inr x \<Longrightarrow> P x) \<Longrightarrow> keeps Q P (on_client c m)"
  by (cases m) (auto simp: on_client_def split: exn.splits)

lemma Client_Send_ok: "Client_Send d p c = Inr c' \<Longrightarrow> client_ok c \<Longrightarrow> client_ok c'"
  using WriteFrame_sent by (simp add: Client_Send_def)

lemma flush_frames_ok: "live_ok c \<Longrightarrow> keeps weak_ok live_ok (flush_frames n c)"
proof (induction n arbitrary: c)
  case (Suc n)
  then obtain client where cl: "cn_client c = Some client" "client_ok client" by (auto simp: live_ok_def)
  obtain q r where q: "Queue_Pop (cn_outgoing c) = (q, r)" by fastforce
  show ?case
  proof (cases "HasPendingOutput client \<or> r = None")
    case True
    then show ?thesis using Suc.prems cl q by auto
  next
    case False
    then obtain p where p: "r = Some p" by blast
    let ?c = "c\<lparr>cn_outgoing := q\<rparr>"
    have w: "weak_ok ?c" "\<And>client'. client_ok client' \<Longrightarrow> live_ok (?c\<lparr>cn_client := Some client'\<rparr>)"
      using Suc.prems bounded_Pop [OF _ q] by (auto simp: live_ok_def weak_ok_def)
    have "keeps weak_ok client_ok (on_client ?c (Client_Send (qp_Destination p) (qp_Payload p) client))"
      using w(1) cl(2) Client_Send_ok by (intro keeps_on_client) (auto simp: Client_Send_def WriteFrame_safe)
    then show ?thesis
      using False cl(1) q p Suc.IH w(2) by (auto simp: Let_def intro!: keeps_bindE)
  qed
qed simp

lemma flush_client_ok: "live_ok c \<Longrightarrow> keeps weak_ok live_ok (flush_client c)"
proof -
  assume c: "live_ok c"
  then obtain client where cl: "cn_client c = Some client" "client_ok client" by (auto simp: live_ok_def)
  have "keeps weak_ok client_ok (on_client c (Flush client))"
    using live_weak [OF c] Flush_sent [of client] cl(2) by (intro keeps_on_client Flush_safe) auto
  then show ?thesis
    using c cl(1) by (auto simp: flush_client_def live_ok_def weak_ok_def intro!: keeps_bindE)
qed

lemma FlushOutgoing_ok: "live_ok c \<Longrightarrow> keeps weak_ok live_ok (FlushOutgoing c)"
  unfolding FlushOutgoing_def by (auto intro: keeps_bindE [OF flush_frames_ok flush_client_ok] simp: live_ok_def)

lemma DrainIncoming_ok: "live_ok c \<Longrightarrow> keeps weak_ok (\<lambda>(c', _). live_ok c') (DrainIncoming c)"
proof -
  assume c: "live_ok c"
  then obtain client where cl: "cn_client c = Some client" "client_ok client" by (auto simp: live_ok_def)
  have "keeps weak_ok (\<lambda>(client', _). client_ok client') (on_client c (ReceiveAvailableBatch client))"
    using live_weak [OF c] cl(2) receive_batch_client_ok unfolding ReceiveAvailableBatch_def
    by (intro keeps_on_client receive_batch_safe) auto
  then show ?thesis
    using c cl(1) by (auto simp: DrainIncoming_def live_ok_def weak_ok_def intro!: keeps_bindE)
qed

lemma UpdateWriteInterest_ok: "live_ok c \<Longrightarrow> keeps weak_ok live_ok (UpdateWriteInterest e c)"
proof -
  assume c: "live_ok c"
  then obtain client where cl: "cn_client c = Some client" "client_ok client" by (auto simp: live_ok_def)
  have "keeps weak_ok (\<lambda>_. True) (on_client c (HasBufferedInput (ce_bufferedInput e) client))"
    using live_weak [OF c] by (intro keeps_on_client HasBufferedInput_safe) auto
  then show ?thesis
    using c cl by (auto simp: UpdateWriteInterest_def live_ok_def weak_ok_def intro!: keeps_bindE)
qed

lemma ScheduleReconnect_ok: "weak_ok c \<Longrightarrow> conn_ok (ScheduleReconnect e c)"
  by (auto simp: weak_ok_def conn_ok_def ScheduleReconnect_def Disconnect_def MaximumReconnectDelay_def)

abbreviation up_ok :: "derp_connection \<Rightarrow> bool" where
  "up_ok c \<equiv> conn_ok c \<and> cn_enabled c"

lemma live_up: "live_ok c \<Longrightarrow> up_ok c"
  by (simp add: live_conn live_ok_def weak_ok_def)

lemma ScheduleReconnect_up: "weak_ok c \<Longrightarrow> up_ok (ScheduleReconnect e c)"
  by (simp add: ScheduleReconnect_ok weak_ok_def) (simp add: ScheduleReconnect_def Disconnect_def)

lemma or_reconnect_ok: "keeps weak_ok up_ok m \<Longrightarrow> \<exists>c'. or_reconnect e m = Inr c' \<and> up_ok c'"
  by (cases m) (auto simp: or_reconnect_def keeps_def ScheduleReconnect_up split: exn.splits)

lemma Connect_ok:
  assumes "conn_ok c" "cn_enabled c" "cn_client c = None" "env_ok e"
  shows "keeps weak_ok up_ok (Connect e c)"
proof -
  have "keeps weak_ok live_ok (bindE (FlushOutgoing c') (UpdateWriteInterest e))" if "live_ok c'" for c'
    using that by (intro keeps_bindE [OF FlushOutgoing_ok UpdateWriteInterest_ok])
  note work = keeps_mono [OF this _ live_up, of _ weak_ok]
  show ?thesis
  proof (cases "ce_dialResult e")
    case (Some r)
    show ?thesis
    proof (cases r)
      case (Dialed client)
      then have "client_ok client" using assms(4) Some by (simp add: env_ok_def)
      then show ?thesis
        using assms(1,2) Some Dialed unfolding Connect_def
        by simp (rule work, auto simp: live_ok_def weak_ok_def conn_ok_def InitialReconnectDelay_def)
    qed (use assms Some in \<open>auto simp: Connect_def weak_ok_def conn_ok_def\<close>)
  qed (use assms in \<open>auto simp: Connect_def conn_ok_def\<close>)
qed

lemma Maintain_ok:
  "conn_ok c \<Longrightarrow> env_ok e \<Longrightarrow> \<exists>c'. Maintain e c = Inr c' \<and> conn_ok c' \<and> cn_enabled c' = cn_enabled c"
proof -
  assume c: "conn_ok c" and e: "env_ok e"
  have "keeps weak_ok up_ok (bindE (FlushOutgoing c) (UpdateWriteInterest e))" if "cn_client c \<noteq> None"
    using keeps_bindE [OF FlushOutgoing_ok UpdateWriteInterest_ok, OF conn_live [OF c that]]
    by (rule keeps_mono) (auto dest: live_up)
  then show ?thesis
    using c or_reconnect_ok Connect_ok [OF c _ _ e] unfolding Maintain_def by (auto split: option.split)
qed

lemma SetEnabled_ok:
  "conn_ok c \<Longrightarrow> env_ok e \<Longrightarrow> \<exists>c'. Connection_SetEnabled e enabled c = Inr c' \<and> conn_ok c' \<and> cn_enabled c' = enabled"
proof -
  assume c: "conn_ok c" and e: "env_ok e"
  have "conn_ok ((Disconnect c)\<lparr>cn_enabled := enabled, cn_outgoing := empty_queue, cn_posted := 0,
        cn_nextReconnect := Some (ce_now e), cn_reconnectDelay := InitialReconnectDelay\<rparr>)"
    by (simp add: conn_ok_def Disconnect_def InitialReconnectDelay_def)
  then show ?thesis using c Maintain_ok [OF _ e] unfolding Connection_SetEnabled_def Let_def by (cases enabled) force+
qed

lemma ChangeNetwork_ok:
  "conn_ok c \<Longrightarrow> env_ok e \<Longrightarrow> \<exists>c'. ChangeNetwork e i c = Inr c' \<and> conn_ok c' \<and> cn_enabled c' = cn_enabled c"
proof -
  assume c: "conn_ok c" and e: "env_ok e"
  have "conn_ok ((Disconnect c)\<lparr>cn_networkInterface := i, cn_posted := 0,
       cn_nextReconnect := Some (ce_now e), cn_reconnectDelay := InitialReconnectDelay\<rparr>)"
    using c by (auto simp: conn_ok_def Disconnect_def InitialReconnectDelay_def)
  then show ?thesis using Maintain_ok [OF _ e] unfolding ChangeNetwork_def by (fastforce simp: Disconnect_def)
qed

lemma Send_ok:
  "conn_ok c \<Longrightarrow> env_ok e \<Longrightarrow> \<exists>c'. Connection_Send e d p pr c = Inr c' \<and> conn_ok c' \<and> cn_enabled c' = cn_enabled c"
proof -
  assume c: "conn_ok c" and e: "env_ok e"
  obtain q r where q: "Queue_Push \<lparr>qp_Destination = d, qp_Payload = p\<rparr> pr (cn_outgoing c) = (q, r)" by fastforce
  have "conn_ok (c\<lparr>cn_outgoing := q\<rparr>)" if "cn_enabled c"
    using c that bounded_Push [OF _ q] by (auto simp: conn_ok_def)
  then show ?thesis using c q Maintain_ok [OF _ e, of "c\<lparr>cn_outgoing := q\<rparr>"] unfolding Connection_Send_def by auto
qed

lemma keeps_with_packets: "keeps weak_ok P m \<Longrightarrow> keeps (\<lambda>(c, _). weak_ok c) P (with_packets ps m)"
  by (cases m) (auto simp: with_packets_def keeps_def split: exn.splits)

abbreviation io_ok :: "(derp_connection \<times> derp_packet list, derp_connection \<times> derp_packet list) res \<Rightarrow> bool" where
  "io_ok \<equiv> keeps (\<lambda>(c, _). weak_ok c) (\<lambda>(c, _). live_ok c)"

lemma process_writable_ok: "live_ok c \<Longrightarrow> io_ok (process_writable e c)"
  unfolding process_writable_def
  by (rule keeps_bindE [where P = "\<lambda>(c, _). live_ok c"])
    (auto intro!: keeps_with_packets DrainIncoming_ok keeps_bindE [where P = live_ok] flush_client_ok)

lemma process_readable_ok: "live_ok c \<Longrightarrow> io_ok (process_readable e (c, packets))"
  unfolding process_readable_def prod.case
  by (rule keeps_bindE [where P = live_ok])
    (auto intro!: keeps_with_packets flush_client_ok keeps_bindE [where P = "\<lambda>(c, _). live_ok c"] DrainIncoming_ok)

lemma process_io_ok: "live_ok c \<Longrightarrow> io_ok (process_io e event c)"
proof -
  assume c: "live_ok c"
  have buffered: "keeps (\<lambda>(c, _). weak_ok c) (\<lambda>_. True)
      (case cn_client c of None \<Rightarrow> Inr False
       | Some client \<Rightarrow> with_packets ps (on_client c (HasBufferedInput (ce_bufferedInput e) client)))" if "live_ok c" for c ps
    using live_weak [OF that] by (auto split: option.split intro!: keeps_with_packets keeps_on_client HasBufferedInput_safe)
  show ?thesis
    unfolding process_io_def
    by (rule keeps_bindE [where P = live_ok], rule keeps_with_packets, rule FlushOutgoing_ok [OF c],
        rule keeps_bindE [where P = "\<lambda>(c, _). live_ok c"], simp add: process_writable_ok, clarify,
        rule keeps_bindE [where P = "\<lambda>_. True"], simp add: buffered,
        rule keeps_bindE [where P = "\<lambda>(c, _). live_ok c"], simp add: process_readable_ok, clarify,
        rule keeps_bindE [where P = live_ok], rule keeps_with_packets, rule UpdateWriteInterest_ok, assumption, simp)
qed

lemma ProcessEvent_ok:
  "conn_ok c \<Longrightarrow> env_ok e \<Longrightarrow> \<exists>c' r. ProcessEvent e event c = Inr (c', r) \<and> conn_ok c' \<and> cn_enabled c' = cn_enabled c"
proof (cases "ev_Token event = cn_token c")
  case True
  assume c: "conn_ok c" and e: "env_ok e"
  obtain c1 where c1: "(if cn_client c = None then Maintain e c else Inr c) = Inr c1" "conn_ok c1" "cn_enabled c1 = cn_enabled c"
    using Maintain_ok [OF c e] c by (cases "cn_client c = None") auto
  show ?thesis
  proof (cases "cn_client c1 = None")
    case False
    then have live: "live_ok c1" using conn_live c1(2) by blast
    have "\<exists>c' r. (case process_io e event c1 of Inl Fault \<Rightarrow> Inl Fault
            | Inl (Throw (c'', packets)) \<Rightarrow>
                Inr (ScheduleReconnect e c'', \<lparr>er_Handled = True, er_Status = Disconnected, er_Packets = packets\<rparr>)
            | Inr (c'', packets) \<Rightarrow> Inr (c'', \<lparr>er_Handled = True, er_Status = StatusReady, er_Packets = packets\<rparr>)) =
          (Inr (c', r) :: (relay_error, _) res) \<and> up_ok c'"
      using process_io_ok [OF live, of e event]
      by (cases "process_io e event c1") (auto simp: keeps_def ScheduleReconnect_up live_up split: exn.splits prod.splits)
    then show ?thesis
      using True c1(1,3) False ScheduleReconnect_up [OF live_weak [OF live]] live_up [OF live] by (auto simp: ProcessEvent_def)
  qed (use True c1 in \<open>simp add: ProcessEvent_def\<close>)
qed (simp add: ProcessEvent_def)

datatype conn_op = OpMaintain | OpSetEnabled bool | OpChangeNetwork string | OpSend key32 "byte list" send_priority
  | OpEvent derp_event

fun conn_apply :: "conn_env \<Rightarrow> conn_op \<Rightarrow> derp_connection \<Rightarrow> (relay_error, derp_connection) res" where
  "conn_apply e OpMaintain c = Maintain e c"
| "conn_apply e (OpSetEnabled b) c = Connection_SetEnabled e b c"
| "conn_apply e (OpChangeNetwork i) c = ChangeNetwork e i c"
| "conn_apply e (OpSend d p pr) c = Connection_Send e d p pr c"
| "conn_apply e (OpEvent event) c = bindE (ProcessEvent e event c) (\<lambda>(c', _). Inr c')"

definition conn_step :: "derp_connection \<Rightarrow> derp_connection \<Rightarrow> bool" where
  "conn_step c c' \<longleftrightarrow> (\<exists>e op. env_ok e \<and> conn_apply e op c = Inr c')"

definition enabled_after :: "conn_op \<Rightarrow> bool \<Rightarrow> bool" where
  "enabled_after op b = (case op of OpSetEnabled b' \<Rightarrow> b' | _ \<Rightarrow> b)"

lemma conn_apply_ok:
  "conn_ok c \<Longrightarrow> env_ok e \<Longrightarrow>
     \<exists>c'. conn_apply e op c = Inr c' \<and> conn_ok c' \<and> cn_enabled c' = enabled_after op (cn_enabled c)"
proof (cases op)
  case (OpEvent event)
  assume "conn_ok c" "env_ok e"
  from ProcessEvent_ok [OF this, of event] OpEvent show ?thesis by (auto simp: enabled_after_def)
qed (simp_all add: enabled_after_def Maintain_ok SetEnabled_ok ChangeNetwork_ok Send_ok)

lemma conn_step_ok: "conn_ok c \<Longrightarrow> conn_step c c' \<Longrightarrow> conn_ok c'"
  unfolding conn_step_def using conn_apply_ok by (metis sum.inject(2))

interpretation derp_conn: component_invariant conn_step conn_ok
  by unfold_locales (rule conn_step_ok)

lemma ConnectionImpl_ok: "env_ok e \<Longrightarrow> \<exists>c. ConnectionImpl e token i enabled = Inr c \<and> conn_ok c \<and> cn_enabled c = enabled"
  unfolding ConnectionImpl_def
  using Maintain_ok [of "\<lparr>cn_token = token, cn_networkInterface = i, cn_dial = False, cn_enabled = enabled,
       cn_client = None, cn_outgoing = empty_queue, cn_nextReconnect = Some (ce_now e),
       cn_reconnectDelay = InitialReconnectDelay, cn_posted = 0, cn_writeInterest = False\<rparr>" e]
  by (simp add: conn_ok_def InitialReconnectDelay_def)

text \<open>
  C6: in every state a DERP connection can reach, the queue holds at most 4096 packets and 8 MiB, the
  reconnect delay is between 1 and 30 seconds, the connection either has a client or a time for its next
  attempt, and a disabled connection has no client, no dial in progress and nothing queued; no operation
  throws or touches memory out of bounds.
\<close>

theorem derp_connection_invariant:
  assumes "env_ok e" and "ConnectionImpl e token i enabled = Inr c0" and "conn_step\<^sup>*\<^sup>* c0 c"
  shows "Queue_Size (cn_outgoing c) \<le> 4096 \<and> sq_bytes (cn_outgoing c) \<le> 8 * 1024 * 1024 \<and>
    1 \<le> cn_reconnectDelay c \<and> cn_reconnectDelay c \<le> 30 \<and>
    (Connected c \<longleftrightarrow> cn_nextReconnect c = None) \<and>
    (\<not> cn_enabled c \<longrightarrow> \<not> Connected c \<and> \<not> cn_dial c \<and> Queue_Size (cn_outgoing c) = 0) \<and>
    (\<forall>e op. env_ok e \<longrightarrow> (\<exists>c'. conn_apply e op c = Inr c'))"
proof -
  have "conn_ok c" using derp_conn.steps_inv [OF assms(3)] ConnectionImpl_ok [OF assms(1), of token i enabled] assms(2) by simp
  moreover from this have "\<forall>e op. env_ok e \<longrightarrow> (\<exists>c'. conn_apply e op c = Inr c')" using conn_apply_ok by blast
  ultimately show ?thesis by (simp add: conn_ok_def bounded_queue_def queue_ok_def Connected_def)
qed

theorem derp_connection_invariant_witness:
  "\<exists>c0 c. conn_step c0 c \<and> \<not> cn_enabled c \<and> \<not> Connected c"
proof -
  let ?e = "\<lparr>ce_now = 5, ce_dialResult = Some DialError, ce_bufferedInput = (\<lambda>_. False), ce_readNeedsWrite = (\<lambda>_. False),
    ce_writeNeedsRead = (\<lambda>_. False)\<rparr>"
  have e: "env_ok ?e" by (simp add: env_ok_def)
  obtain c0 where c0: "ConnectionImpl ?e 7 ''eth0'' True = Inr c0" "cn_enabled c0"
    by (simp add: ConnectionImpl_def Maintain_def Connect_def or_reconnect_def ScheduleReconnect_def Disconnect_def)
  obtain c where c: "conn_apply ?e (OpSetEnabled False) c0 = Inr c" "\<not> cn_enabled c"
    using c0(2) by (simp add: Connection_SetEnabled_def Disconnect_def)
  have step: "conn_step c0 c" using e c(1) unfolding conn_step_def by blast
  from derp_connection_invariant [OF e c0(1) r_into_rtranclp [of conn_step, OF step]] c(2) step show ?thesis by blast
qed

text \<open>
  C26: \<open>Push\<close> refuses only packets larger than the byte limit.  Otherwise it drops the least number of oldest
  packets that makes room, data packets before control packets, appends the packet to its class and keeps
  both limits.
\<close>

theorem Queue_Push_spec:
  assumes "queue_ok q"
  shows "\<exists>k. Queue_Push p priority q =
    (if length (qp_Payload p) > sq_maximumBytes q then (q, \<lparr>pr_Accepted = False, pr_DroppedPackets = 0\<rparr>)
     else (let q' = without_oldest k q in
       (q'\<lparr>sq_bytes := sq_bytes q' + length (qp_Payload p),
           sq_control := sq_control q' @ (if priority = Control then [p] else []),
           sq_data := sq_data q' @ (if priority = Data then [p] else [])\<rparr>, \<lparr>pr_Accepted = True, pr_DroppedPackets = k\<rparr>))) \<and>
    k \<le> Queue_Size q \<and> has_room (length (qp_Payload p)) (without_oldest k q) \<and>
    (\<forall>j<k. \<not> has_room (length (qp_Payload p)) (without_oldest j q)) \<and> queue_ok (fst (Queue_Push p priority q))"
proof -
  have "counted q" using assms by (simp add: queue_ok_def)
  from make_room_eq [OF this, of "length (qp_Payload p)" 0] obtain k where
    k: "make_room (length (qp_Payload p)) q 0 = (without_oldest k q, 0 + k)" "k \<le> Queue_Size q"
    "has_room (length (qp_Payload p)) (without_oldest k q)"
    "\<forall>j<k. \<not> has_room (length (qp_Payload p)) (without_oldest j q)" by blast
  moreover have "Queue_Push p priority q =
    (if length (qp_Payload p) > sq_maximumBytes q then (q, \<lparr>pr_Accepted = False, pr_DroppedPackets = 0\<rparr>)
     else (let q' = without_oldest k q in
       (q'\<lparr>sq_bytes := sq_bytes q' + length (qp_Payload p),
           sq_control := sq_control q' @ (if priority = Control then [p] else []),
           sq_data := sq_data q' @ (if priority = Data then [p] else [])\<rparr>, \<lparr>pr_Accepted = True, pr_DroppedPackets = k\<rparr>)))"
    unfolding Queue_Push_def k(1) by (cases priority) (simp_all add: Let_def)
  ultimately show ?thesis using Queue_Push_ok [OF assms] by blast
qed

theorem Queue_Push_spec_witness:
  "\<exists>q. DerpSendQueue 1 10 = Inr q \<and> queue_ok q \<and>
     queue_ok (fst (Queue_Push \<lparr>qp_Destination = [], qp_Payload = [1, 2]\<rparr> Control q))"
proof -
  obtain q where q: "DerpSendQueue 1 10 = Inr q" "queue_ok q"
    by (simp add: DerpSendQueue_def queue_ok_def counted_def Queue_Size_def)
  from Queue_Push_spec [OF q(2), of "\<lparr>qp_Destination = [], qp_Payload = [1, 2]\<rparr>" Control] q show ?thesis by blast
qed















end
