(* ===== verification/Delegation.thy ===== *)
theory Delegation
  imports Relay_Frame
begin

text \<open>
  The messages by which client and relay hand over the ownership of the DERP connections:
  \<^verbatim>\<open>src/core/hosted/Delegation.cpp\<close>.  The enumerations are datatypes; a byte outside their range is
  rejected by the decoders.
\<close>

section \<open>Delegation.h\<close>

datatype delegation_action = Prepare | Release | Acquire | Commit

datatype delegation_status = Prepared | Released | Ready | Committed | Failed

datatype delegation_failure = NoFailure | StaleGeneration | StaleMap | InvalidState | UnknownRegion | LeaseExpired

record delegation_request =
  rq_Generation :: u64
  rq_RequestId :: u64
  rq_MapRevision :: u64
  rq_Action :: delegation_action
  rq_Regions :: "u16 list"

record delegation_reply =
  rp_Generation :: u64
  rp_RequestId :: u64
  rp_MapRevision :: u64
  rp_Status :: delegation_status
  rp_Failure :: delegation_failure

text \<open>\<^verbatim>\<open>static_cast\<close> between an enumeration and its byte.\<close>

fun action_code :: "delegation_action \<Rightarrow> byte" where
  "action_code Prepare = 0" | "action_code Release = 1" | "action_code Acquire = 2" | "action_code Commit = 3"

fun status_code :: "delegation_status \<Rightarrow> byte" where
  "status_code Prepared = 0" | "status_code Released = 1" | "status_code Ready = 2" | "status_code Committed = 3"
| "status_code Failed = 4"

fun failure_code :: "delegation_failure \<Rightarrow> byte" where
  "failure_code NoFailure = 0" | "failure_code StaleGeneration = 1" | "failure_code StaleMap = 2"
| "failure_code InvalidState = 3" | "failure_code UnknownRegion = 4" | "failure_code LeaseExpired = 5"

definition action_of :: "byte \<Rightarrow> delegation_action option" where
  "action_of b = List.find (\<lambda>a. action_code a = b) [Prepare, Release, Acquire, Commit]"

definition status_of :: "byte \<Rightarrow> delegation_status option" where
  "status_of b = List.find (\<lambda>a. status_code a = b) [Prepared, Released, Ready, Committed, Failed]"

definition failure_of :: "byte \<Rightarrow> delegation_failure option" where
  "failure_of b = List.find (\<lambda>a. failure_code a = b)
     [NoFailure, StaleGeneration, StaleMap, InvalidState, UnknownRegion, LeaseExpired]"

definition DelegationType :: message_type where "DelegationType = 24"
definition DelegationReplyType :: message_type where "DelegationReplyType = 25"

section \<open>Delegation.cpp\<close>

definition Identity :: "u64 \<Rightarrow> u64 \<Rightarrow> u64 \<Rightarrow> (relay_error, byte list) res" where
  "Identity generation request revision =
     (if generation = 0 \<or> request = 0 \<or> revision = 0
      then Inl (Throw (invalid_argument ''delegation identity must be nonzero''))
      else Inr (Append64 generation @ Append64 request @ Append64 revision))"

definition EncodeMapAcknowledgement :: "u64 \<Rightarrow> (relay_error, frame) res" where
  "EncodeMapAcknowledgement revision =
     (if revision = 0 then Inl (Throw (invalid_argument ''map revision must be nonzero''))
      else Inr \<lparr>fr_type = NetworkMapAck, fr_payload = Append64 revision\<rparr>)"

definition DecodeMapAcknowledgement :: "frame \<Rightarrow> (relay_error, u64 option) res" where
  "DecodeMapAcknowledgement f =
     (if fr_type f \<noteq> NetworkMapAck \<or> length (fr_payload f) \<noteq> 8 then Inr None
      else bindE (Read64 (fr_payload f) 0) (\<lambda>revision. Inr (if revision = 0 then None else Some revision)))"

definition EncodeDelegationRequest :: "delegation_request \<Rightarrow> (relay_error, frame) res" where
  "EncodeDelegationRequest r =
     (if rq_Regions r = [] \<or> length (rq_Regions r) > 255 \<or> \<not> sorted (rq_Regions r) \<or>
         \<not> distinct_adj (rq_Regions r) \<or> hd (rq_Regions r) = 0
      then Inl (Throw (invalid_argument ''invalid delegation request''))
      else bindE (Identity (rq_Generation r) (rq_RequestId r) (rq_MapRevision r)) (\<lambda>bytes.
        Inr \<lparr>fr_type = DelegationType,
             fr_payload = bytes @ [action_code (rq_Action r), word_of_nat (length (rq_Regions r))] @
               concat (map Append16 (rq_Regions r))\<rparr>))"

definition EncodeDelegationReply :: "delegation_reply \<Rightarrow> (relay_error, frame) res" where
  "EncodeDelegationReply r =
     (if (rp_Status r = Failed) \<noteq> (rp_Failure r \<noteq> NoFailure)
      then Inl (Throw (invalid_argument ''invalid delegation reply''))
      else bindE (Identity (rp_Generation r) (rp_RequestId r) (rp_MapRevision r)) (\<lambda>bytes.
        Inr \<lparr>fr_type = DelegationReplyType, fr_payload = bytes @ [status_code (rp_Status r), failure_code (rp_Failure r)]\<rparr>))"

text \<open>The loop over the regions: each is nonzero and above its predecessor.\<close>

fun read_regions :: "byte list \<Rightarrow> nat \<Rightarrow> nat \<Rightarrow> u16 list \<Rightarrow> (relay_error, u16 list option) res" where
  "read_regions bytes offset 0 regions = Inr (Some regions)"
| "read_regions bytes offset (Suc n) regions =
     bindE (Read16 bytes offset) (\<lambda>region.
       if region = 0 \<or> (regions \<noteq> [] \<and> region \<le> last regions) then Inr None
       else read_regions bytes (offset + 2) n (regions @ [region]))"

definition DecodeDelegationRequest :: "frame \<Rightarrow> (relay_error, delegation_request option) res" where
  "DecodeDelegationRequest f =
     (let bytes = fr_payload f in
      if fr_type f \<noteq> DelegationType \<or> length bytes < 26 then Inr None else
      bindE (at bytes 24) (\<lambda>action. case action_of action of None \<Rightarrow> Inr None | Some act \<Rightarrow>
      bindE (at bytes 25) (\<lambda>count.
        if count = 0 \<or> length bytes \<noteq> 26 + unat count * 2 then Inr None else
        bindE (Read64 bytes 0) (\<lambda>generation. bindE (Read64 bytes 8) (\<lambda>request. bindE (Read64 bytes 16) (\<lambda>revision.
          if generation = 0 \<or> request = 0 \<or> revision = 0 then Inr None else
          bindE (read_regions bytes 26 (unat count) []) (\<lambda>regions.
            Inr (map_option (\<lambda>regions. \<lparr>rq_Generation = generation, rq_RequestId = request,
              rq_MapRevision = revision, rq_Action = act, rq_Regions = regions\<rparr>) regions))))))))"

definition DecodeDelegationReply :: "frame \<Rightarrow> (relay_error, delegation_reply option) res" where
  "DecodeDelegationReply f =
     (let bytes = fr_payload f in
      if fr_type f \<noteq> DelegationReplyType \<or> length bytes \<noteq> 26 then Inr None else
      bindE (at bytes 24) (\<lambda>status. bindE (at bytes 25) (\<lambda>failure.
        case (status_of status, failure_of failure) of
          (Some st, Some fl) \<Rightarrow>
            bindE (Read64 bytes 0) (\<lambda>generation. bindE (Read64 bytes 8) (\<lambda>request. bindE (Read64 bytes 16) (\<lambda>revision.
              if generation = 0 \<or> request = 0 \<or> revision = 0 \<or> (st = Failed) \<noteq> (fl \<noteq> NoFailure) then Inr None
              else Inr (Some \<lparr>rp_Generation = generation, rp_RequestId = request, rp_MapRevision = revision,
                rp_Status = st, rp_Failure = fl\<rparr>))))
        | _ \<Rightarrow> Inr None)))"

section \<open>Round trips\<close>

text \<open>A decoder that answers \<open>nullopt\<close>, seen as one that fails.\<close>

definition accepted :: "(relay_error, 'a option) res \<Rightarrow> (relay_error, 'a) res" where
  "accepted m = bindE m (\<lambda>r. case r of None \<Rightarrow> Inl (Throw (runtime_error ''rejected'')) | Some x \<Rightarrow> Inr x)"

lemma accepted_Inr [simp]: "accepted m = Inr x \<longleftrightarrow> m = Inr (Some x)"
  by (auto simp: accepted_def bindE_eq_Inr_iff split: option.splits)

lemma codes [simp]:
  "action_of (action_code a) = Some a" "status_of (status_code s) = Some s" "failure_of (failure_code f) = Some f"
proof -
  show "action_of (action_code a) = Some a" by (cases a) (simp_all add: action_of_def)
  show "status_of (status_code s) = Some s" by (cases s) (simp_all add: status_of_def)
  show "failure_of (failure_code f) = Some f" by (cases f) (simp_all add: failure_of_def)
qed

lemma codes_Some:
  "action_of b = Some a \<Longrightarrow> action_code a = b" "status_of b = Some s \<Longrightarrow> status_code s = b"
  "failure_of b = Some f \<Longrightarrow> failure_code f = b"
  unfolding action_of_def status_of_def failure_of_def find_Some_iff by blast+

definition regions_ok :: "u16 list \<Rightarrow> bool" where
  "regions_ok rs \<longleftrightarrow> sorted_wrt (<) rs \<and> 0 \<notin> set rs"

lemma distinct_adj_sorted: "sorted rs \<Longrightarrow> distinct_adj rs \<longleftrightarrow> sorted_wrt (<) (rs :: u16 list)"
proof (induction rs rule: induct_list012)
  case (3 x y zs)
  then show ?case by (auto simp: less_le intro: order.trans)
qed auto

lemma regions_ok_iff:
  "rs \<noteq> [] \<Longrightarrow> regions_ok rs \<longleftrightarrow> sorted rs \<and> distinct_adj rs \<and> hd rs \<noteq> 0"
proof -
  assume ne: "rs \<noteq> []"
  have "sorted_wrt (<) rs \<longleftrightarrow> sorted rs \<and> distinct_adj rs"
    using distinct_adj_sorted [of rs] strict_sorted_imp_sorted [of rs] by blast
  moreover have "0 \<notin> set rs \<longleftrightarrow> hd rs \<noteq> 0" if "sorted_wrt (<) rs"
    using that ne by (cases rs) auto
  ultimately show ?thesis unfolding regions_ok_def by blast
qed

lemma regions_ok_snoc: "regions_ok rs \<Longrightarrow> regions_ok (rs @ [r]) \<longleftrightarrow> r \<noteq> 0 \<and> (rs = [] \<or> last rs < r)"
  by (cases rs rule: rev_cases) (auto simp: regions_ok_def sorted_wrt_append)

lemma regions_ok_append: "regions_ok (rs @ rs') \<Longrightarrow> regions_ok rs"
  by (simp add: regions_ok_def sorted_wrt_append)

lemma read_regions_eq:
  "regions_ok acc \<Longrightarrow> read_regions (pre @ concat (map Append16 rs)) (length pre) (length rs) acc =
     Inr (if regions_ok (acc @ rs) then Some (acc @ rs) else None)"
proof (induction rs arbitrary: pre acc)
  case (Cons r rs)
  have "Read16 (pre @ concat (map Append16 (r # rs))) (length pre) = (Inr r :: (relay_error, _) res)"
    using Read16_Append16 [of pre "length pre" r "concat (map Append16 rs)"] by simp
  moreover have "read_regions (pre @ concat (map Append16 (r # rs))) (length pre + 2) (length rs) (acc @ [r]) =
      Inr (if regions_ok (acc @ r # rs) then Some (acc @ r # rs) else None)" if "regions_ok (acc @ [r])"
    using Cons.IH [OF that, of "pre @ Append16 r"] by simp
  moreover have "\<not> regions_ok (acc @ r # rs)" if "\<not> regions_ok (acc @ [r])"
    using that regions_ok_append [of "acc @ [r]" rs] by auto
  ultimately show ?case using regions_ok_snoc [OF Cons.prems, of r] by (auto simp: not_le not_less)
qed simp

lemma u16_shape: "length w = 2 * n \<Longrightarrow> \<exists>rs. length rs = n \<and> w = concat (map Append16 rs)"
proof (induction n arbitrary: w)
  case (Suc n)
  then obtain a b v where w: "w = a # b # v" "length v = 2 * n"
    by (metis Suc_length_conv mult_2 add_Suc_right add_Suc)
  then obtain rs where "length rs = n" "v = concat (map Append16 rs)" using Suc.IH by blast
  then show ?case using w by (intro exI [of _ "be16 a b # rs"]) simp
qed simp

lemma take_u64: "8 \<le> length w \<Longrightarrow> \<exists>v w'. w = Append64 v @ w'"
  by (intro exI [of _ "be64 (take 8 w)"] exI [of _ "drop 8 w"]) simp

lemma payload_shape:
  assumes "26 \<le> length w"
  obtains g r v a c rest where "w = Append64 g @ Append64 r @ Append64 v @ [a, c] @ rest"
proof -
  obtain g w1 where 1: "w = Append64 g @ w1" using take_u64 [of w] assms by auto
  obtain r w2 where 2: "w1 = Append64 r @ w2" using take_u64 [of w1] assms 1 by auto
  obtain v w3 where 3: "w2 = Append64 v @ w3" using take_u64 [of w2] assms 1 2 by auto
  obtain a c rest where "w3 = [a, c] @ rest" using assms 1 2 3 by (cases w3; cases "tl w3") auto
  then show thesis using that 1 2 3 by simp
qed

definition identity_ok :: "u64 \<Rightarrow> u64 \<Rightarrow> u64 \<Rightarrow> bool" where
  "identity_ok g r v \<longleftrightarrow> g \<noteq> 0 \<and> r \<noteq> 0 \<and> v \<noteq> 0"

lemma read_identity:
  fixes g r v :: u64 and a c :: byte and rest :: "byte list"
  defines "w \<equiv> Append64 g @ Append64 r @ Append64 v @ [a, c] @ rest"
  shows "Read64 w 0 = (Inr g :: (relay_error, _) res)" "Read64 w 8 = (Inr r :: (relay_error, _) res)"
    "Read64 w 16 = (Inr v :: (relay_error, _) res)" "at w 24 = (Inr a :: (relay_error, _) res)"
    "at w 25 = (Inr c :: (relay_error, _) res)" "length w = 26 + length rest"
  using Read64_Append64 [of "[]" 0 g] Read64_Append64 [of "Append64 g" 8 r]
    Read64_Append64 [of "Append64 g @ Append64 r" 16 v] unfolding w_def
  by (simp_all add: nth_append)

lemma DecodeDelegationReply_shape:
  "DecodeDelegationReply \<lparr>fr_type = t, fr_payload = Append64 g @ Append64 r @ Append64 v @ [a, c] @ rest\<rparr> =
    Inr (if t = DelegationReplyType \<and> rest = [] \<and> identity_ok g r v then
      case (status_of a, failure_of c) of
        (Some st, Some fl) \<Rightarrow> if (st = Failed) = (fl \<noteq> NoFailure) then
          Some \<lparr>rp_Generation = g, rp_RequestId = r, rp_MapRevision = v, rp_Status = st, rp_Failure = fl\<rparr> else None
      | _ \<Rightarrow> None
     else None)"
  unfolding DecodeDelegationReply_def Let_def frame.select_convs read_identity
  by (auto simp: identity_ok_def split: option.splits)

lemma DecodeDelegationRequest_shape:
  "DecodeDelegationRequest \<lparr>fr_type = t, fr_payload = Append64 g @ Append64 r @ Append64 v @ [a, c] @ concat (map Append16 rs)\<rparr> =
    Inr (if t = DelegationType \<and> rs \<noteq> [] \<and> length rs = unat c \<and> identity_ok g r v \<and> regions_ok rs then
      map_option (\<lambda>act. \<lparr>rq_Generation = g, rq_RequestId = r, rq_MapRevision = v, rq_Action = act, rq_Regions = rs\<rparr>) (action_of a)
     else None)"
proof -
  let ?w = "Append64 g @ Append64 r @ Append64 v @ [a, c] @ concat (map Append16 rs)"
  have len: "length (concat (map Append16 rs)) = 2 * length rs" by (induction rs) simp_all
  have "c \<noteq> 0 \<and> 26 + 2 * length rs = 26 + unat c * 2 \<longleftrightarrow> rs \<noteq> [] \<and> length rs = unat c"
    using unat_eq_zero [of c] by auto
  moreover have "read_regions ?w 26 (length rs) [] = Inr (if regions_ok rs then Some rs else None)"
    using read_regions_eq [of "[]" "Append64 g @ Append64 r @ Append64 v @ [a, c]" rs]
    by (simp add: regions_ok_def)
  ultimately show ?thesis
    unfolding DecodeDelegationRequest_def Let_def frame.select_convs read_identity len
    by (cases "action_of a"; cases "length rs = unat c") (auto simp: identity_ok_def)
qed

interpretation map_ack: strict_codec EncodeMapAcknowledgement "\<lambda>f. accepted (DecodeMapAcknowledgement f)" "\<lambda>_. True" "\<lambda>v. v"
proof unfold_locales
  fix v f
  assume "EncodeMapAcknowledgement v = Inr f"
  then show "accepted (DecodeMapAcknowledgement f) = Inr v"
    by (auto simp: EncodeMapAcknowledgement_def DecodeMapAcknowledgement_def split: if_splits)
next
  fix f v
  assume "accepted (DecodeMapAcknowledgement f) = Inr v"
  then have "fr_type f = NetworkMapAck" "length (fr_payload f) = 8" "v = be64 (fr_payload f)" "v \<noteq> 0"
    by (auto simp: DecodeMapAcknowledgement_def split: if_splits)
  then show "True \<and> EncodeMapAcknowledgement v = Inr f"
    by (cases f) (simp add: EncodeMapAcknowledgement_def)
qed simp

interpretation delegation_request: strict_codec EncodeDelegationRequest "\<lambda>f. accepted (DecodeDelegationRequest f)" "\<lambda>_. True" "\<lambda>r. r"
proof unfold_locales
  fix r f
  assume "EncodeDelegationRequest r = Inr f"
  then show "accepted (DecodeDelegationRequest f) = Inr r"
    using DecodeDelegationRequest_shape [of DelegationType "rq_Generation r" "rq_RequestId r" "rq_MapRevision r"
      "action_code (rq_Action r)" "word_of_nat (length (rq_Regions r))" "rq_Regions r"] regions_ok_iff [of "rq_Regions r"]
    by (cases r) (auto simp: EncodeDelegationRequest_def Identity_def identity_ok_def unat_of_nat split: if_splits)
next
  fix f r
  assume d: "accepted (DecodeDelegationRequest f) = Inr r"
  then have "26 \<le> length (fr_payload f)" by (auto simp: DecodeDelegationRequest_def Let_def split: if_splits)
  then obtain g q v a c rest where w: "fr_payload f = Append64 g @ Append64 q @ Append64 v @ [a, c] @ rest"
    by (rule payload_shape)
  have "length (fr_payload f) = 26 + unat c * 2"
    using d unfolding DecodeDelegationRequest_def Let_def w read_identity
    by (auto split: if_splits option.splits)
  then obtain rs where rs: "rest = concat (map Append16 rs)" "length rs = unat c"
    using u16_shape [of rest "unat c"] w by auto
  have f: "f = \<lparr>fr_type = fr_type f, fr_payload = Append64 g @ Append64 q @ Append64 v @ [a, c] @ concat (map Append16 rs)\<rparr>"
    using w rs by (cases f) simp
  obtain act where "fr_type f = DelegationType" "rs \<noteq> []" "identity_ok g q v" "regions_ok rs" "action_of a = Some act"
    "r = \<lparr>rq_Generation = g, rq_RequestId = q, rq_MapRevision = v, rq_Action = act, rq_Regions = rs\<rparr>"
    using d DecodeDelegationRequest_shape [of "fr_type f" g q v a c rs] unfolding accepted_Inr f [symmetric]
    by (auto split: if_splits)
  moreover have "\<not> 255 < length rs" unfolding rs(2) not_less by simp
  ultimately show "True \<and> EncodeDelegationRequest r = Inr f"
    using f rs(2) regions_ok_iff [of rs]
    by (auto simp: EncodeDelegationRequest_def Identity_def identity_ok_def dest: codes_Some)
qed simp

interpretation delegation_reply: strict_codec EncodeDelegationReply "\<lambda>f. accepted (DecodeDelegationReply f)" "\<lambda>_. True" "\<lambda>r. r"
proof unfold_locales
  fix r f
  assume "EncodeDelegationReply r = Inr f"
  then show "accepted (DecodeDelegationReply f) = Inr r"
    using DecodeDelegationReply_shape [of DelegationReplyType "rp_Generation r" "rp_RequestId r" "rp_MapRevision r"
      "status_code (rp_Status r)" "failure_code (rp_Failure r)" "[]"]
    by (cases r) (auto simp: EncodeDelegationReply_def Identity_def identity_ok_def split: if_splits)
next
  fix f r
  assume d: "accepted (DecodeDelegationReply f) = Inr r"
  then have "26 \<le> length (fr_payload f)" by (auto simp: DecodeDelegationReply_def Let_def split: if_splits)
  then obtain g q v a c rest where w: "fr_payload f = Append64 g @ Append64 q @ Append64 v @ [a, c] @ rest"
    by (rule payload_shape)
  have f: "f = \<lparr>fr_type = fr_type f, fr_payload = Append64 g @ Append64 q @ Append64 v @ [a, c] @ rest\<rparr>"
    using w by (cases f) simp
  obtain st fl where "fr_type f = DelegationReplyType" "rest = []" "identity_ok g q v" "status_of a = Some st"
    "failure_of c = Some fl" "(st = Failed) = (fl \<noteq> NoFailure)"
    "r = \<lparr>rp_Generation = g, rp_RequestId = q, rp_MapRevision = v, rp_Status = st, rp_Failure = fl\<rparr>"
    using d DecodeDelegationReply_shape [of "fr_type f" g q v a c rest] unfolding accepted_Inr f [symmetric]
    by (auto split: if_splits option.splits)
  then show "True \<and> EncodeDelegationReply r = Inr f"
    using f by (auto simp: EncodeDelegationReply_def Identity_def identity_ok_def dest: codes_Some)
qed simp

lemma delegation_decoders_total:
  "(\<exists>x. DecodeDelegationRequest f = Inr x) \<and> (\<exists>x. DecodeDelegationReply f = Inr x) \<and>
   (\<exists>x. DecodeMapAcknowledgement f = Inr x)"
proof (intro conjI)
  show "\<exists>x. DecodeMapAcknowledgement f = Inr x" by (auto simp: DecodeMapAcknowledgement_def)
  have short: ?thesis if "length (fr_payload f) < 26"
    using that by (auto simp: DecodeDelegationRequest_def DecodeDelegationReply_def DecodeMapAcknowledgement_def Let_def)
  have long: "(\<exists>x. DecodeDelegationRequest f = Inr x) \<and> (\<exists>x. DecodeDelegationReply f = Inr x)"
    if l: "26 \<le> length (fr_payload f)"
  proof -
    obtain g q v a c rest where w: "fr_payload f = Append64 g @ Append64 q @ Append64 v @ [a, c] @ rest"
      using payload_shape [OF l] by blast
    have "\<exists>x. DecodeDelegationRequest f = Inr x" if "length rest \<noteq> unat c * 2"
      using that unfolding DecodeDelegationRequest_def Let_def w read_identity
      by (auto split: option.split)
    moreover have "\<exists>x. DecodeDelegationRequest f = Inr x" if "length rest = unat c * 2"
      using that u16_shape [of rest "unat c"] w DecodeDelegationRequest_shape [of "fr_type f" g q v a c] by (cases f) force
    ultimately show ?thesis
      using w DecodeDelegationReply_shape [of "fr_type f" g q v a c rest] by (cases f) auto
  qed
  show "\<exists>x. DecodeDelegationRequest f = Inr x" "\<exists>x. DecodeDelegationReply f = Inr x"
    using short long by (cases "length (fr_payload f) < 26"; simp)+
qed

text \<open>
  C28: the delegation messages are canonical.  A frame is accepted as a request, reply or map
  acknowledgement exactly when it is the encoding of that message, every accepted request names a
  nonempty, strictly increasing list of nonzero regions, and no decoder reads outside the payload.
\<close>

theorem delegation_codecs_canonical:
  "(DecodeDelegationRequest f = Inr (Some r) \<longleftrightarrow> EncodeDelegationRequest r = Inr f) \<and>
   (DecodeDelegationReply f = Inr (Some p) \<longleftrightarrow> EncodeDelegationReply p = Inr f) \<and>
   (DecodeMapAcknowledgement f = Inr (Some v) \<longleftrightarrow> EncodeMapAcknowledgement v = Inr f) \<and>
   (EncodeDelegationRequest r = Inr f \<longleftrightarrow>
      rq_Generation r \<noteq> 0 \<and> rq_RequestId r \<noteq> 0 \<and> rq_MapRevision r \<noteq> 0 \<and> rq_Regions r \<noteq> [] \<and>
      length (rq_Regions r) \<le> 255 \<and> sorted_wrt (<) (rq_Regions r) \<and> 0 \<notin> set (rq_Regions r) \<and>
      fr_type f = DelegationType \<and>
      fr_payload f = Append64 (rq_Generation r) @ Append64 (rq_RequestId r) @ Append64 (rq_MapRevision r) @
        [action_code (rq_Action r), word_of_nat (length (rq_Regions r))] @ concat (map Append16 (rq_Regions r))) \<and>
   (\<exists>x. DecodeDelegationRequest f = Inr x) \<and> (\<exists>x. DecodeDelegationReply f = Inr x) \<and>
   (\<exists>x. DecodeMapAcknowledgement f = Inr x)"
proof (intro conjI)
  show "EncodeDelegationRequest r = Inr f \<longleftrightarrow>
      rq_Generation r \<noteq> 0 \<and> rq_RequestId r \<noteq> 0 \<and> rq_MapRevision r \<noteq> 0 \<and> rq_Regions r \<noteq> [] \<and>
      length (rq_Regions r) \<le> 255 \<and> sorted_wrt (<) (rq_Regions r) \<and> 0 \<notin> set (rq_Regions r) \<and>
      fr_type f = DelegationType \<and>
      fr_payload f = Append64 (rq_Generation r) @ Append64 (rq_RequestId r) @ Append64 (rq_MapRevision r) @
        [action_code (rq_Action r), word_of_nat (length (rq_Regions r))] @ concat (map Append16 (rq_Regions r))"
    using regions_ok_iff [of "rq_Regions r"]
    by (cases f) (auto simp: EncodeDelegationRequest_def Identity_def regions_ok_def not_less)
qed (use delegation_request.dec_iff_enc delegation_reply.dec_iff_enc map_ack.dec_iff_enc delegation_decoders_total in simp_all)

end
