(* ===== verification/Derp_Ownership.thy ===== *)
theory Derp_Ownership
  imports Derp_Connection Delegation
begin

text \<open>
  Who owns the node's DERP connections: the route table of \<^verbatim>\<open>src/core/hosted/DerpRouteTable.cpp\<close>, the set of
  connections of \<^verbatim>\<open>src/core/ipn/ipnlocal/DerpConnections.cpp\<close> (with the table of the session they are stored in,
  \<^verbatim>\<open>src/core/wgengine/impl/SessionImpl.cpp\<close>), and the ownership transaction of one relay session,
  \<^verbatim>\<open>src/core/ipn/ipnlocal/DelegationLease.cpp\<close>.

  The environment \<open>derps_env\<close> gives the clock, the environment of each connection and the readiness token of
  each index; the transport factory creates a \<open>ConnectionImpl\<close>, as \<^verbatim>\<open>src/platform/linux/DerpTransports.cpp\<close>
  does.  One operation runs at one clock reading.
\<close>

section \<open>DerpRouteTable.cpp\<close>

datatype ownership_error = InvalidDerpRegion | DerpNotProvisioned | no_buffer_space | RelayError relay_error
  | overflow_error string | out_of_range string | ownership_argument string

definition lift_relay :: "(relay_error, 'a) res \<Rightarrow> (ownership_error, 'a) res" where
  "lift_relay m = (case m of Inl Fault \<Rightarrow> Inl Fault | Inl (Throw e) \<Rightarrow> Inl (Throw (RelayError e)) | Inr x \<Rightarrow> Inr x)"

record route_entry =
  re_Route :: derp_route
  re_Connection :: nat

text \<open>\<open>token\<close> is the process-wide counter \<^verbatim>\<open>NextRouteToken\<close>; \<^verbatim>\<open>fetch_add\<close> wraps at 64 bits.\<close>

definition Register ::
    "nat \<Rightarrow> u16 \<Rightarrow> u64 \<Rightarrow> route_entry list \<Rightarrow> (ownership_error, u64 \<times> route_entry list \<times> derp_route) res" where
  "Register connection region token entries =
     (if region = 0 then Inl (Throw (ownership_argument ''Hosted DERP route has no region.''))
      else if token = 0 then Inl (Throw (overflow_error ''Hosted DERP route tokens are exhausted.''))
      else let route = \<lparr>dr_token = token, dr_region = region\<rparr> in
        Inr (token + 1, entries @ [\<lparr>re_Route = route, re_Connection = connection\<rparr>], route))"

definition Resolve :: "derp_route \<Rightarrow> route_entry list \<Rightarrow> nat option" where
  "Resolve route entries = map_option re_Connection (List.find (\<lambda>entry. re_Route entry = route) entries)"

section \<open>DerpConnections.cpp\<close>

record derp_runtime =
  rt_Region :: int
  rt_Host :: string
  rt_Connection :: nat
  rt_Route :: derp_route

record derp_connections =
  dcs_session :: "(int \<times> derp_connection) list"
  dcs_networkInterface :: string
  dcs_routes :: "route_entry list"
  dcs_nextToken :: u64
  dcs_entries :: "derp_runtime list"
  dcs_enabled :: bool

record derps_env =
  de_now :: int
  de_conn :: "nat \<Rightarrow> conn_env"
  de_token :: "nat \<Rightarrow> nat"

definition AddDerpConnection ::
    "int \<Rightarrow> derp_connection \<Rightarrow> (int \<times> derp_connection) list \<Rightarrow> (ownership_error, (int \<times> derp_connection) list \<times> nat) res" where
  "AddDerpConnection region connection derps =
     (if region = 0 then Inl (Throw (ownership_argument ''The DERP connection is required.''))
      else Inr (derps @ [(region, connection)], length derps))"

definition DerpConnection :: "nat \<Rightarrow> (int \<times> derp_connection) list \<Rightarrow> (ownership_error, derp_connection) res" where
  "DerpConnection connection derps =
     (if connection \<ge> length derps then Inl (Throw (out_of_range ''The DERP connection does not exist.''))
      else Inr (snd (derps ! connection)))"

text \<open>A method call on the connection stored at an index.\<close>

definition on_connection ::
    "nat \<Rightarrow> (derp_connection \<Rightarrow> (relay_error, derp_connection) res) \<Rightarrow> derp_connections \<Rightarrow> (ownership_error, derp_connections) res" where
  "on_connection i f d =
     bindE (DerpConnection i (dcs_session d)) (\<lambda>c. bindE (lift_relay (f c)) (\<lambda>c'.
       Inr (d\<lparr>dcs_session := (dcs_session d)[i := (fst (dcs_session d ! i), c')]\<rparr>)))"

fun for_entries ::
    "(nat \<Rightarrow> derp_connection \<Rightarrow> (relay_error, derp_connection) res) \<Rightarrow> derp_runtime list \<Rightarrow> derp_connections \<Rightarrow>
      (ownership_error, derp_connections) res" where
  "for_entries f [] d = Inr d"
| "for_entries f (entry # rest) d =
     bindE (on_connection (rt_Connection entry) (f (rt_Connection entry)) d) (for_entries f rest)"

definition Ensure :: "derps_env \<Rightarrow> int \<Rightarrow> string \<Rightarrow> derp_connections \<Rightarrow> (ownership_error, derp_connections) res" where
  "Ensure e region host d =
     (if \<exists>entry \<in> set (dcs_entries d). rt_Region entry = region then Inr d
      else if region \<le> 0 \<or> region > 65535 \<or> host = [] then Inl (Throw InvalidDerpRegion) else
      let index = length (dcs_entries d) in
      bindE (lift_relay (ConnectionImpl (de_conn e index) (de_token e index) (dcs_networkInterface d) (dcs_enabled d))) (\<lambda>connection.
      bindE (AddDerpConnection region connection (dcs_session d)) (\<lambda>(session, connectionId).
      bindE (Register connectionId (word_of_int region) (dcs_nextToken d) (dcs_routes d)) (\<lambda>(token, routes, route).
        Inr (d\<lparr>dcs_session := session, dcs_nextToken := token, dcs_routes := routes,
          dcs_entries := dcs_entries d @ [\<lparr>rt_Region = region, rt_Host = host, rt_Connection = connectionId, rt_Route = route\<rparr>]\<rparr>)))))"

text \<open>The part of a network map this needs: the node's own region and those of its peers.\<close>

record derp_map =
  dm_region :: int
  dm_host :: string
  dm_peers :: "(int \<times> string) list"

text \<open>
  An exception of \<^verbatim>\<open>ApplyNetworkMap\<close> carries the connections it leaves: those provisioned before it stay.  A call of \<^verbatim>\<open>Ensure\<close>
  that throws is taken to change nothing.  This is so for an invalid region; when the route tokens are exhausted,
  after \<open>2 ^ 64\<close> registrations, the code would leave the new connection in the session without an entry.
\<close>

definition in_derps :: "derp_connections \<Rightarrow> (ownership_error, 'a) res \<Rightarrow> (ownership_error \<times> derp_connections, 'a) res" where
  "in_derps d m = (case m of Inl Fault \<Rightarrow> Inl Fault | Inl (Throw x) \<Rightarrow> Inl (Throw (x, d)) | Inr x \<Rightarrow> Inr x)"

fun ensure_peers :: "derps_env \<Rightarrow> (int \<times> string) list \<Rightarrow> derp_connections \<Rightarrow> (ownership_error \<times> derp_connections, derp_connections) res" where
  "ensure_peers e [] d = Inr d"
| "ensure_peers e ((region, host) # rest) d =
     bindE (if region \<noteq> 0 \<and> host \<noteq> [] then in_derps d (Ensure e region host d) else Inr d) (ensure_peers e rest)"

definition ApplyNetworkMap :: "derps_env \<Rightarrow> derp_map \<Rightarrow> derp_connections \<Rightarrow> (ownership_error \<times> derp_connections, derp_connections) res" where
  "ApplyNetworkMap e config d =
     bindE (in_derps d (Ensure e (dm_region config) (dm_host config) d)) (ensure_peers e (dm_peers config))"

definition Derps_ChangeNetwork :: "derps_env \<Rightarrow> string \<Rightarrow> derp_connections \<Rightarrow> (ownership_error, derp_connections) res" where
  "Derps_ChangeNetwork e networkInterface d =
     for_entries (\<lambda>i. ChangeNetwork (de_conn e i) networkInterface) (dcs_entries d)
       (d\<lparr>dcs_networkInterface := networkInterface\<rparr>)"

definition Derps_SetEnabled :: "derps_env \<Rightarrow> bool \<Rightarrow> derp_connections \<Rightarrow> (ownership_error, derp_connections) res" where
  "Derps_SetEnabled e enabled d =
     for_entries (\<lambda>i. Connection_SetEnabled (de_conn e i) enabled) (dcs_entries d) (d\<lparr>dcs_enabled := enabled\<rparr>)"

definition ForRegion :: "int \<Rightarrow> derp_connections \<Rightarrow> (ownership_error, derp_connection) res" where
  "ForRegion region d =
     (case dcs_entries d of
        [] \<Rightarrow> Inl (Throw DerpNotProvisioned)
      | front # _ \<Rightarrow>
          DerpConnection (case List.find (\<lambda>entry. rt_Region entry = region) (dcs_entries d) of
              Some found \<Rightarrow> rt_Connection found | None \<Rightarrow> rt_Connection front) (dcs_session d))"

definition ForRoute :: "derp_route \<Rightarrow> derp_connections \<Rightarrow> (ownership_error, derp_connection option) res" where
  "ForRoute route d =
     (case Resolve route (dcs_routes d) of
        None \<Rightarrow> Inr None
      | Some connection \<Rightarrow> bindE (DerpConnection connection (dcs_session d)) (\<lambda>c. Inr (Some c)))"

section \<open>DelegationLease.cpp\<close>

definition LeaseDuration :: int where "LeaseDuration = seconds 20"
definition MaximumReplies :: nat where "MaximumReplies = 64"

record lease =
  ls_derps :: derp_connections
  ls_revision :: u64
  ls_request :: "delegation_request option"
  ls_reply :: "delegation_reply option"
  ls_deadline :: "int option"
  ls_output :: "frame list"
  ls_changedOwnership :: bool

text \<open>An exception leaves the lease in the state it had reached.\<close>

type_synonym lease_res = "(ownership_error \<times> lease, lease) res"

definition in_lease :: "lease \<Rightarrow> (ownership_error, 'a) res \<Rightarrow> (ownership_error \<times> lease, 'a) res" where
  "in_lease l m = (case m of Inl Fault \<Rightarrow> Inl Fault | Inl (Throw x) \<Rightarrow> Inl (Throw (x, l)) | Inr x \<Rightarrow> Inr x)"

definition ApplyMap :: "u64 \<Rightarrow> lease \<Rightarrow> lease" where
  "ApplyMap revision l = l\<lparr>ls_revision := revision\<rparr>"

definition push_reply :: "delegation_reply \<Rightarrow> lease \<Rightarrow> lease_res" where
  "push_reply reply l =
     bindE (in_lease l (lift_relay (EncodeDelegationReply reply))) (\<lambda>f. Inr (l\<lparr>ls_output := ls_output l @ [f]\<rparr>))"

definition Lease_Fail :: "delegation_request \<Rightarrow> delegation_failure \<Rightarrow> lease \<Rightarrow> lease_res" where
  "Lease_Fail request failure l =
     (if length (ls_output l) \<ge> MaximumReplies then Inl (Throw (no_buffer_space, l))
      else push_reply \<lparr>rp_Generation = rq_Generation request, rp_RequestId = rq_RequestId request,
        rp_MapRevision = rq_MapRevision request, rp_Status = Failed, rp_Failure = failure\<rparr> l)"

text \<open>\<open>m_request\<close> is dereferenced: an empty optional would be undefined behaviour.\<close>

definition Lease_Reply :: "delegation_status \<Rightarrow> delegation_failure \<Rightarrow> lease \<Rightarrow> lease_res" where
  "Lease_Reply status failure l =
     (if length (ls_output l) \<ge> MaximumReplies then Inl (Throw (no_buffer_space, l)) else
      case ls_request l of None \<Rightarrow> Inl Fault | Some request \<Rightarrow>
      let reply = \<lparr>rp_Generation = rq_Generation request, rp_RequestId = rq_RequestId request,
        rp_MapRevision = rq_MapRevision request, rp_Status = status, rp_Failure = failure\<rparr> in
      push_reply reply (l\<lparr>ls_reply := Some reply\<rparr>))"

definition Enable :: "derps_env \<Rightarrow> bool \<Rightarrow> lease \<Rightarrow> lease_res" where
  "Enable e enabled l =
     bindE (in_lease l (Derps_SetEnabled e enabled (ls_derps l))) (\<lambda>d. Inr (l\<lparr>ls_derps := d\<rparr>))"

fun all_connected :: "u16 list \<Rightarrow> derp_connections \<Rightarrow> (ownership_error, bool) res" where
  "all_connected [] d = Inr True"
| "all_connected (region # rest) d =
     bindE (ForRegion (uint region) d) (\<lambda>c. if Connected c then all_connected rest d else Inr False)"

definition Lease_Ready :: "lease \<Rightarrow> (ownership_error, bool) res" where
  "Lease_Ready l = (case ls_request l of None \<Rightarrow> Inl Fault | Some request \<Rightarrow> all_connected (rq_Regions request) (ls_derps l))"

definition Poll :: "derps_env \<Rightarrow> lease \<Rightarrow> lease_res" where
  "Poll e l =
     (case ls_deadline l of None \<Rightarrow> Inr l | Some deadline \<Rightarrow>
      if de_now e \<ge> deadline then
        bindE (if ls_changedOwnership l then Enable e False l else Inr l) (\<lambda>l'.
          Lease_Reply Failed LeaseExpired (l'\<lparr>ls_deadline := None\<rparr>))
      else (case ls_request l of None \<Rightarrow> Inl Fault | Some request \<Rightarrow>
        if rq_Action request = Acquire \<and> ls_reply l = None then
          bindE (in_lease l (Lease_Ready l)) (\<lambda>ready. if ready then Lease_Reply Ready NoFailure l else Inr l)
        else Inr l))"

text \<open>The checks of \<^verbatim>\<open>Accept\<close> before anything changes, in the order of the code.\<close>

definition stale_request :: "delegation_request \<Rightarrow> lease \<Rightarrow> bool" where
  "stale_request request l =
     (case ls_request l of None \<Rightarrow> False
      | Some r \<Rightarrow> rq_Generation request < rq_Generation r \<or>
          (rq_Generation request = rq_Generation r \<and> rq_RequestId request \<le> rq_RequestId r))"

definition unknown_region :: "delegation_request \<Rightarrow> lease \<Rightarrow> bool" where
  "unknown_region request l =
     (\<exists>region \<in> set (rq_Regions request). \<forall>entry \<in> set (dcs_entries (ls_derps l)). rt_Region entry \<noteq> uint region)"

definition outside_transaction :: "delegation_request \<Rightarrow> lease \<Rightarrow> bool" where
  "outside_transaction request l \<longleftrightarrow>
     rq_Action request \<noteq> Prepare \<and>
     (case ls_request l of None \<Rightarrow> True
      | Some r \<Rightarrow> rq_Generation request \<noteq> rq_Generation r \<or> rq_Regions request \<noteq> rq_Regions r \<or> ls_deadline l = None)"

definition reply_status :: "lease \<Rightarrow> delegation_status option" where
  "reply_status l = map_option rp_Status (ls_reply l)"

definition wrong_order :: "delegation_request \<Rightarrow> lease \<Rightarrow> bool" where
  "wrong_order request l \<longleftrightarrow>
     (rq_Action request = Prepare \<and> (case ls_request l of None \<Rightarrow> False | Some r \<Rightarrow> rq_Generation request = rq_Generation r)) \<or>
     ((rq_Action request = Release \<or> rq_Action request = Acquire) \<and> reply_status l \<noteq> Some Prepared)"

definition commit_too_early :: "delegation_request \<Rightarrow> lease \<Rightarrow> bool" where
  "commit_too_early request l \<longleftrightarrow>
     rq_Action request = Commit \<and> reply_status l \<noteq> Some Ready \<and> reply_status l \<noteq> Some Released"

definition refusal :: "delegation_request \<Rightarrow> lease \<Rightarrow> delegation_failure option" where
  "refusal request l =
     (if stale_request request l then Some StaleGeneration
      else if rq_MapRevision request \<noteq> ls_revision l then Some StaleMap
      else if unknown_region request l then Some UnknownRegion
      else if outside_transaction request l then Some InvalidState
      else if wrong_order request l then Some InvalidState
      else if commit_too_early request l then Some InvalidState
      else None)"

definition perform :: "derps_env \<Rightarrow> delegation_request \<Rightarrow> lease \<Rightarrow> lease_res" where
  "perform e request l =
     bindE (if ls_changedOwnership l \<and> (case ls_request l of None \<Rightarrow> False | Some r \<Rightarrow> rq_Generation request > rq_Generation r)
            then Enable e False l else Inr l) (\<lambda>l1.
     let l2 = l1\<lparr>ls_request := Some request, ls_reply := None, ls_deadline := Some (de_now e + LeaseDuration)\<rparr> in
     case rq_Action request of
       Prepare \<Rightarrow> Lease_Reply Prepared NoFailure (l2\<lparr>ls_changedOwnership := False\<rparr>)
     | Release \<Rightarrow> bindE (Enable e False l2) (\<lambda>l3. Lease_Reply Released NoFailure (l3\<lparr>ls_changedOwnership := True\<rparr>))
     | Acquire \<Rightarrow> bindE (Enable e True l2) (\<lambda>l3. Poll e (l3\<lparr>ls_changedOwnership := True\<rparr>))
     | Commit \<Rightarrow> Lease_Reply Committed NoFailure (l2\<lparr>ls_deadline := None, ls_changedOwnership := False\<rparr>))"

definition Lease_Accept :: "derps_env \<Rightarrow> delegation_request \<Rightarrow> lease \<Rightarrow> lease_res" where
  "Lease_Accept e request l0 =
     bindE (Poll e l0) (\<lambda>l.
     if ls_request l = Some request then
       (case ls_reply l of None \<Rightarrow> Inr l
        | Some reply \<Rightarrow>
            if length (ls_output l) \<ge> MaximumReplies then Inl (Throw (no_buffer_space, l)) else push_reply reply l)
     else (case refusal request l of
        Some failure \<Rightarrow> Lease_Fail request failure l
      | None \<Rightarrow> perform e request l))"

definition TakeOutput :: "lease \<Rightarrow> lease \<times> frame list" where
  "TakeOutput l = (l\<lparr>ls_output := []\<rparr>, ls_output l)"

section \<open>All connections of a node share one owner\<close>

definition de_ok :: "derps_env \<Rightarrow> bool" where
  "de_ok e \<longleftrightarrow> (\<forall>i. env_ok (de_conn e i))"

definition conns_ok :: "bool \<Rightarrow> (int \<times> derp_connection) list \<Rightarrow> bool" where
  "conns_ok b s \<longleftrightarrow> (\<forall>i < length s. conn_ok (snd (s ! i)) \<and> cn_enabled (snd (s ! i)) = b)"

definition entry_ok :: "derp_runtime \<Rightarrow> bool" where
  "entry_ok r \<longleftrightarrow> 0 < rt_Region r \<and> rt_Region r \<le> 65535 \<and> dr_region (rt_Route r) = word_of_int (rt_Region r)"

definition table_ok :: "derp_connections \<Rightarrow> bool" where
  "table_ok d \<longleftrightarrow> map rt_Connection (dcs_entries d) = [0..<length (dcs_session d)] \<and>
     map fst (dcs_session d) = map rt_Region (dcs_entries d) \<and> distinct (map rt_Region (dcs_entries d)) \<and>
     list_all entry_ok (dcs_entries d) \<and>
     dcs_routes d = map (\<lambda>r. \<lparr>re_Route = rt_Route r, re_Connection = rt_Connection r\<rparr>) (dcs_entries d)"

definition owner_ok :: "derp_connections \<Rightarrow> bool" where
  "owner_ok d \<longleftrightarrow> table_ok d \<and> conns_ok (dcs_enabled d) (dcs_session d)"

lemma keeps_lift_relay [simp]: "keeps Q P (lift_relay m) \<longleftrightarrow> keeps (\<lambda>x. Q (RelayError x)) P m"
  by (cases m) (auto simp: lift_relay_def keeps_def split: exn.splits)

lemma lift_relay_Inr [simp]: "lift_relay (Inr x) = Inr x"
  by (simp add: lift_relay_def)

lemma for_entries_ok:
  assumes f: "\<And>i c. P c \<Longrightarrow> \<exists>c'. f i c = Inr c' \<and> Q c'"
  shows "map rt_Connection es = [k..<length (dcs_session d)] \<Longrightarrow>
    (\<forall>i < k. Q (snd (dcs_session d ! i))) \<Longrightarrow> (\<forall>i. k \<le> i \<and> i < length (dcs_session d) \<longrightarrow> P (snd (dcs_session d ! i))) \<Longrightarrow>
    \<exists>s. for_entries f es d = Inr (d\<lparr>dcs_session := s\<rparr>) \<and> map fst s = map fst (dcs_session d) \<and>
      (\<forall>i < length s. Q (snd (s ! i)))"
proof (induction es arbitrary: k d)
  case Nil
  have "length (dcs_session d) \<le> k" using Nil.prems(1) [symmetric] by auto
  then show ?case using Nil.prems(2) by (intro exI [of _ "dcs_session d"]) auto
next
  case (Cons r es)
  have k: "rt_Connection r = k" "k < length (dcs_session d)" "map rt_Connection es = [Suc k..<length (dcs_session d)]"
    using Cons.prems(1) [symmetric] unfolding list.map upt_eq_Cons_conv by auto
  obtain c where c: "f k (snd (dcs_session d ! k)) = Inr c" "Q c" using f Cons.prems(3) k(2) by blast
  let ?d = "d\<lparr>dcs_session := (dcs_session d)[k := (fst (dcs_session d ! k), c)]\<rparr>"
  have on: "on_connection (rt_Connection r) (f (rt_Connection r)) d = Inr ?d"
    using k c by (simp add: on_connection_def DerpConnection_def)
  have "\<exists>s. for_entries f es ?d = Inr (?d\<lparr>dcs_session := s\<rparr>) \<and> map fst s = map fst (dcs_session ?d) \<and>
      (\<forall>i < length s. Q (snd (s ! i)))"
    using Cons.prems(2,3) c(2) k by (intro Cons.IH [of "Suc k"]) (auto simp: nth_list_update less_Suc_eq)
  moreover have "map fst (dcs_session ?d) = map fst (dcs_session d)"
    using k(2) by (auto intro!: nth_equalityI simp: nth_list_update)
  ultimately show ?case using on by simp
qed

lemma for_entries_owner:
  assumes "owner_ok d" and "dcs_session d0 = dcs_session d" and "\<And>i c. conn_ok c \<Longrightarrow> cn_enabled c = dcs_enabled d \<Longrightarrow>
      \<exists>c'. f i c = Inr c' \<and> conn_ok c' \<and> cn_enabled c' = b"
  shows "\<exists>s. for_entries f (dcs_entries d) d0 = Inr (d0\<lparr>dcs_session := s\<rparr>) \<and> map fst s = map fst (dcs_session d) \<and> conns_ok b s"
  using for_entries_ok [of "\<lambda>c. conn_ok c \<and> cn_enabled c = dcs_enabled d" f "\<lambda>c. conn_ok c \<and> cn_enabled c = b"
      "dcs_entries d" 0 d0] assms
  by (auto simp: owner_ok_def table_ok_def conns_ok_def)

lemma length_map_fst: "map fst xs = map fst ys \<Longrightarrow> length xs = length ys"
  by (metis length_map)

lemma SetEnabled_owner:
  assumes "owner_ok d" and "de_ok e"
  shows "\<exists>s. Derps_SetEnabled e b d = Inr (d\<lparr>dcs_enabled := b, dcs_session := s\<rparr>) \<and> owner_ok (d\<lparr>dcs_enabled := b, dcs_session := s\<rparr>)"
proof -
  have "\<exists>c'. Connection_SetEnabled (de_conn e i) b c = Inr c' \<and> conn_ok c' \<and> cn_enabled c' = b" if "conn_ok c" for i c
    using SetEnabled_ok [OF that] assms(2) by (simp add: de_ok_def)
  then obtain s where "Derps_SetEnabled e b d = Inr (d\<lparr>dcs_enabled := b, dcs_session := s\<rparr>)"
    "map fst s = map fst (dcs_session d)" "conns_ok b s"
    using for_entries_owner [OF assms(1), of "d\<lparr>dcs_enabled := b\<rparr>" "\<lambda>i. Connection_SetEnabled (de_conn e i) b" b]
    unfolding Derps_SetEnabled_def by auto
  then show ?thesis using assms(1) length_map_fst [of s "dcs_session d"] by (auto simp: owner_ok_def table_ok_def)
qed

lemma ChangeNetwork_owner:
  assumes "owner_ok d" and "de_ok e"
  shows "\<exists>s. Derps_ChangeNetwork e n d = Inr (d\<lparr>dcs_networkInterface := n, dcs_session := s\<rparr>) \<and>
    owner_ok (d\<lparr>dcs_networkInterface := n, dcs_session := s\<rparr>)"
proof -
  have "\<exists>c'. ChangeNetwork (de_conn e i) n c = Inr c' \<and> conn_ok c' \<and> cn_enabled c' = dcs_enabled d"
    if "conn_ok c" "cn_enabled c = dcs_enabled d" for i c
    using ChangeNetwork_ok [OF that(1)] assms(2) that(2) by (auto simp: de_ok_def)
  then obtain s where "Derps_ChangeNetwork e n d = Inr (d\<lparr>dcs_networkInterface := n, dcs_session := s\<rparr>)"
    "map fst s = map fst (dcs_session d)" "conns_ok (dcs_enabled d) s"
    using for_entries_owner [OF assms(1), of "d\<lparr>dcs_networkInterface := n\<rparr>" "\<lambda>i. ChangeNetwork (de_conn e i) n" "dcs_enabled d"]
    unfolding Derps_ChangeNetwork_def by auto
  then show ?thesis using assms(1) length_map_fst [of s "dcs_session d"] by (auto simp: owner_ok_def table_ok_def)
qed

text \<open>Provisioning only adds connections, with the node's owner.\<close>

definition extends :: "derp_connections \<Rightarrow> derp_connections \<Rightarrow> bool" where
  "extends d d' \<longleftrightarrow> owner_ok d' \<and> dcs_enabled d' = dcs_enabled d \<and> prefix (dcs_entries d) (dcs_entries d')"

lemma Ensure_owner:
  assumes "owner_ok d" and "de_ok e"
  shows "keeps (\<lambda>_. True) (extends d) (Ensure e region host d)"
proof (cases "(\<exists>entry \<in> set (dcs_entries d). rt_Region entry = region) \<or> region \<le> 0 \<or> region > 65535 \<or> host = []")
  case True
  then show ?thesis using assms(1) by (auto simp: Ensure_def extends_def)
next
  case False
  obtain c where c: "ConnectionImpl (de_conn e (length (dcs_entries d))) (de_token e (length (dcs_entries d)))
      (dcs_networkInterface d) (dcs_enabled d) = Inr c" "conn_ok c" "cn_enabled c = dcs_enabled d"
    using ConnectionImpl_ok assms(2) unfolding de_ok_def by blast
  have "(word_of_int region :: u16) \<noteq> 0"
  proof
    assume "(word_of_int region :: u16) = 0"
    then have "uint (word_of_int region :: u16) = 0" by simp
    then show False using False by (simp add: uint_word_of_int)
  qed
  moreover have "length (dcs_entries d) = length (dcs_session d)"
    using assms(1) by (metis owner_ok_def table_ok_def length_map length_upt minus_nat.diff_0)
  ultimately show ?thesis
    using False c assms(1)
    by (auto simp: Ensure_def Let_def AddDerpConnection_def Register_def extends_def owner_ok_def table_ok_def entry_ok_def
        conns_ok_def nth_append less_Suc_eq)
qed

lemma extends_trans: "extends a b \<Longrightarrow> extends b c \<Longrightarrow> extends a c"
  by (auto simp: extends_def intro: prefix_order.trans)

lemma extends_refl: "owner_ok d \<Longrightarrow> extends d d"
  by (simp add: extends_def)

lemma in_derps_owner:
  assumes "owner_ok d" and "de_ok e"
  shows "keeps (\<lambda>(_, d'). extends d d') (extends d) (in_derps d (Ensure e region host d))"
  using Ensure_owner [OF assms, of region host] extends_refl [OF assms(1)]
  by (cases "Ensure e region host d") (auto simp: in_derps_def keeps_def split: exn.splits)

lemma ensure_peers_owner:
  "owner_ok d \<Longrightarrow> de_ok e \<Longrightarrow> keeps (\<lambda>(_, d'). extends d d') (extends d) (ensure_peers e ps d)"
proof (induction ps arbitrary: d)
  case (Cons p ps)
  obtain region host where p: "p = (region, host)" by fastforce
  have "keeps (\<lambda>(_, d'). extends d d') (extends d) (if region \<noteq> 0 \<and> host \<noteq> [] then in_derps d (Ensure e region host d) else Inr d)"
    using in_derps_owner [OF Cons.prems] extends_refl [OF Cons.prems(1)] by simp
  then show ?case unfolding p ensure_peers.simps
  proof (rule keeps_bindE)
    fix d1 assume d1: "extends d d1"
    then have "owner_ok d1" by (simp add: extends_def)
    from Cons.IH [OF this Cons.prems(2)] show "keeps (\<lambda>(_, d'). extends d d') (extends d) (ensure_peers e ps d1)"
      by (rule keeps_mono) (auto intro: extends_trans [OF d1])
  qed
qed (simp add: extends_refl)

lemma ApplyNetworkMap_owner:
  "owner_ok d \<Longrightarrow> de_ok e \<Longrightarrow> keeps (\<lambda>(_, d'). extends d d') (extends d) (ApplyNetworkMap e config d)"
  unfolding ApplyNetworkMap_def
proof (rule keeps_bindE [OF in_derps_owner])
  fix d1 assume e: "de_ok e" and d1: "extends d d1"
  then have "owner_ok d1" by (simp add: extends_def)
  from ensure_peers_owner [OF this e] show "keeps (\<lambda>(_, d'). extends d d') (extends d) (ensure_peers e (dm_peers config) d1)"
    by (rule keeps_mono) (auto intro: extends_trans [OF d1])
qed

section \<open>The lease tells the truth about the ownership\<close>

definition owned :: "lease \<Rightarrow> bool" where
  "owned l = dcs_enabled (ls_derps l)"

definition known_regions :: "delegation_request \<Rightarrow> derp_connections \<Rightarrow> bool" where
  "known_regions r d \<longleftrightarrow> (\<forall>region \<in> set (rq_Regions r). \<exists>entry \<in> set (dcs_entries d). rt_Region entry = uint region)"

definition request_ids :: "delegation_request \<Rightarrow> bool" where
  "request_ids r \<longleftrightarrow> identity_ok (rq_Generation r) (rq_RequestId r) (rq_MapRevision r)"

definition reply_for :: "delegation_request \<Rightarrow> delegation_reply \<Rightarrow> bool" where
  "reply_for r p \<longleftrightarrow> rp_Generation p = rq_Generation r \<and> rp_RequestId p = rq_RequestId r \<and>
     rp_MapRevision p = rq_MapRevision r \<and> (rp_Status p = Failed \<longleftrightarrow> rp_Failure p \<noteq> NoFailure)"

definition lease_ok :: "lease \<Rightarrow> bool" where
  "lease_ok l \<longleftrightarrow> owner_ok (ls_derps l) \<and> length (ls_output l) \<le> MaximumReplies \<and>
     (ls_deadline l \<noteq> None \<longrightarrow> ls_request l \<noteq> None) \<and>
     (\<forall>r. ls_request l = Some r \<longrightarrow> request_ids r \<and> known_regions r (ls_derps l)) \<and>
     (\<forall>p. ls_reply l = Some p \<longrightarrow> (\<exists>r. ls_request l = Some r \<and> reply_for r p)) \<and>
     (reply_status l = Some Released \<longrightarrow> \<not> owned l) \<and> (reply_status l = Some Ready \<and> ls_deadline l \<noteq> None \<longrightarrow> owned l) \<and>
     (\<forall>r. ls_request l = Some r \<and> rq_Action r = Acquire \<and> ls_deadline l \<noteq> None \<longrightarrow> owned l)"

lemma lease_owner: "lease_ok l \<Longrightarrow> owner_ok (ls_derps l)"
  by (simp add: lease_ok_def)

lemma lease_request: "lease_ok l \<Longrightarrow> ls_request l = Some r \<Longrightarrow> request_ids r \<and> known_regions r (ls_derps l)"
  by (simp add: lease_ok_def)

lemma push_reply_ok:
  "request_ids r \<Longrightarrow> reply_for r p \<Longrightarrow> \<exists>f. push_reply p l = Inr (l\<lparr>ls_output := ls_output l @ [f]\<rparr>)"
  by (auto simp: push_reply_def in_lease_def lift_relay_def EncodeDelegationReply_def Identity_def identity_ok_def
      request_ids_def reply_for_def)

text \<open>A reply is stored and queued, or the queue is full and nothing changes.\<close>

lemma Lease_Reply_cases:
  assumes "ls_request l = Some r" and "request_ids r" and "status = Failed \<longleftrightarrow> failure \<noteq> NoFailure"
  obtains (full) "MaximumReplies \<le> length (ls_output l)" "Lease_Reply status failure l = Inl (Throw (no_buffer_space, l))"
  | (stored) p f where "length (ls_output l) < MaximumReplies" "reply_for r p" "rp_Status p = status"
      "Lease_Reply status failure l = Inr (l\<lparr>ls_reply := Some p, ls_output := ls_output l @ [f]\<rparr>)"
proof (cases "MaximumReplies \<le> length (ls_output l)")
  case True
  then show thesis using full by (simp add: Lease_Reply_def)
next
  case False
  let ?p = "\<lparr>rp_Generation = rq_Generation r, rp_RequestId = rq_RequestId r, rp_MapRevision = rq_MapRevision r,
    rp_Status = status, rp_Failure = failure\<rparr>"
  have p: "reply_for r ?p" using assms(3) by (simp add: reply_for_def)
  from push_reply_ok [OF assms(2) p, of "l\<lparr>ls_reply := Some ?p\<rparr>"] show thesis
    using stored [OF _ p] False assms(1) by (auto simp: Lease_Reply_def Let_def)
qed

lemma Enable_ok:
  assumes "owner_ok (ls_derps l)" and "de_ok e"
  obtains s where "Enable e b l = Inr (l\<lparr>ls_derps := (ls_derps l)\<lparr>dcs_enabled := b, dcs_session := s\<rparr>\<rparr>)"
    "owner_ok ((ls_derps l)\<lparr>dcs_enabled := b, dcs_session := s\<rparr>)"
  using SetEnabled_owner [OF assms, of b] by (auto simp: Enable_def in_lease_def)

lemma known_regions_same [simp]:
  "known_regions r (d\<lparr>dcs_enabled := b, dcs_session := s\<rparr>) = known_regions r d"
  by (simp add: known_regions_def)

lemma table_lookup:
  "owner_ok d \<Longrightarrow> entry \<in> set (dcs_entries d) \<Longrightarrow> rt_Connection entry < length (dcs_session d)"
proof -
  assume "owner_ok d" "entry \<in> set (dcs_entries d)"
  then have "rt_Connection entry \<in> set [0..<length (dcs_session d)]"
    unfolding owner_ok_def table_ok_def by (metis image_eqI list.set_map)
  then show ?thesis by simp
qed

lemma ForRegion_ok: "owner_ok d \<Longrightarrow> dcs_entries d \<noteq> [] \<Longrightarrow> \<exists>c. ForRegion region d = Inr c"
  using table_lookup [of d]
  by (cases "dcs_entries d") (auto simp: ForRegion_def DerpConnection_def find_Some_iff not_le split: option.splits)

lemma Lease_Ready_ok:
  assumes "lease_ok l" and "ls_request l = Some r"
  shows "\<exists>b. Lease_Ready l = Inr b"
proof -
  have "\<exists>b. all_connected rs (ls_derps l) = Inr b" if "set rs \<subseteq> set (rq_Regions r)" for rs
    using that
  proof (induction rs)
    case (Cons region rs)
    then have "dcs_entries (ls_derps l) \<noteq> []" using lease_request [OF assms] by (auto simp: known_regions_def)
    then obtain c where "ForRegion (uint region) (ls_derps l) = Inr c"
      using ForRegion_ok [OF lease_owner [OF assms(1)]] by blast
    then show ?case using Cons by (cases "Connected c") auto
  qed auto
  then show ?thesis using assms(2) by (simp add: Lease_Ready_def)
qed

definition expired :: "derps_env \<Rightarrow> lease \<Rightarrow> bool" where
  "expired e l \<longleftrightarrow> (\<exists>t. ls_deadline l = Some t \<and> t \<le> de_now e)"

definition polled :: "derps_env \<Rightarrow> lease \<Rightarrow> lease \<Rightarrow> bool" where
  "polled e l l' \<longleftrightarrow> lease_ok l' \<and> ls_request l' = ls_request l \<and> ls_revision l' = ls_revision l \<and>
     dcs_entries (ls_derps l') = dcs_entries (ls_derps l) \<and> (owned l' \<longrightarrow> owned l) \<and>
     (expired e l \<longrightarrow> ls_deadline l' = None \<and> (ls_changedOwnership l \<longrightarrow> \<not> owned l'))"

lemma lease_release:
  "lease_ok l \<Longrightarrow> owner_ok d \<Longrightarrow> dcs_entries d = dcs_entries (ls_derps l) \<Longrightarrow> \<not> dcs_enabled d \<Longrightarrow>
     lease_ok (l\<lparr>ls_derps := d, ls_deadline := None\<rparr>)"
  by (simp add: lease_ok_def owned_def reply_status_def known_regions_def)

lemma lease_end: "lease_ok l \<Longrightarrow> lease_ok (l\<lparr>ls_deadline := None\<rparr>)"
  by (simp add: lease_ok_def owned_def reply_status_def)

lemma expire_ok:
  assumes l: "lease_ok l" and e: "de_ok e" and x: "expired e l" and r: "ls_request l = Some r"
  obtains l1 where "(if ls_changedOwnership l then Enable e False l else Inr l) = Inr l1" "polled e l (l1\<lparr>ls_deadline := None\<rparr>)"
    "ls_output l1 = ls_output l" "ls_request l1 = Some r"
proof (cases "ls_changedOwnership l")
  case True
  obtain s where s: "Enable e False l = Inr (l\<lparr>ls_derps := (ls_derps l)\<lparr>dcs_enabled := False, dcs_session := s\<rparr>\<rparr>)"
    "owner_ok ((ls_derps l)\<lparr>dcs_enabled := False, dcs_session := s\<rparr>)"
    using Enable_ok [OF lease_owner [OF l] e] by blast
  have "lease_ok (l\<lparr>ls_derps := (ls_derps l)\<lparr>dcs_enabled := False, dcs_session := s\<rparr>, ls_deadline := None\<rparr>)"
    using s(2) by (intro lease_release [OF l]) simp_all
  then show thesis using True s(1) r
    by (intro that [of "l\<lparr>ls_derps := (ls_derps l)\<lparr>dcs_enabled := False, dcs_session := s\<rparr>\<rparr>"]) (simp_all add: polled_def owned_def)
next
  case False
  then show thesis using lease_end [OF l] r by (intro that [of l]) (simp_all add: polled_def owned_def)
qed

lemma lease_reply:
  assumes "lease_ok l" and "ls_request l = Some r" and "reply_for r p" and "length (ls_output l) < MaximumReplies"
    and "rp_Status p = Released \<Longrightarrow> \<not> owned l" and "rp_Status p = Ready \<Longrightarrow> ls_deadline l \<noteq> None \<Longrightarrow> owned l"
  shows "lease_ok (l\<lparr>ls_reply := Some p, ls_output := ls_output l @ [f]\<rparr>)"
  using assms by (simp add: lease_ok_def owned_def reply_status_def)

lemma Poll_pending:
  assumes "lease_ok l" and "ls_deadline l = Some t" and "de_now e < t" and "ls_request l = Some r"
    and "rq_Action r = Acquire" and "ls_reply l = None"
  shows "\<exists>b. Poll e l = (if b then Lease_Reply Ready NoFailure l else Inr l)"
proof -
  obtain b where b: "Lease_Ready l = Inr b" using Lease_Ready_ok [OF assms(1,4)] by blast
  show ?thesis using assms(2-6) by (intro exI [of _ b]) (simp add: Poll_def in_lease_def b)
qed

lemma Poll_ok:
  assumes l: "lease_ok l" and e: "de_ok e"
  shows "keeps (\<lambda>(x, l'). x = no_buffer_space \<and> polled e l l')
    (\<lambda>l'. polled e l l' \<and> (l' = l \<or> reply_status l' = Some Failed \<or> reply_status l' = Some Ready)) (Poll e l)"
proof (cases "ls_deadline l")
  case None
  then show ?thesis using l by (auto simp: Poll_def polled_def expired_def)
next
  case (Some t)
  then obtain r where r: "ls_request l = Some r" "request_ids r" using l by (auto simp: lease_ok_def)
  show ?thesis
  proof (cases "t \<le> de_now e")
    case True
    then have x: "expired e l" using Some by (simp add: expired_def)
    obtain l1 where l1: "(if ls_changedOwnership l then Enable e False l else Inr l) = Inr l1"
      "polled e l (l1\<lparr>ls_deadline := None\<rparr>)" "ls_output l1 = ls_output l" "ls_request l1 = Some r"
      using expire_ok [OF l e x r(1)] by blast
    have poll: "Poll e l = Lease_Reply Failed LeaseExpired (l1\<lparr>ls_deadline := None\<rparr>)"
      using Some True l1(1) unfolding Poll_def by simp
    have r1: "ls_request (l1\<lparr>ls_deadline := None\<rparr>) = Some r" using l1(4) by simp
    show ?thesis
    proof (rule Lease_Reply_cases [OF r1 r(2), of Failed LeaseExpired])
      assume "Lease_Reply Failed LeaseExpired (l1\<lparr>ls_deadline := None\<rparr>) = Inl (Throw (no_buffer_space, l1\<lparr>ls_deadline := None\<rparr>))"
      then show ?thesis unfolding poll using l1(2) by simp
    next
      fix p f
      assume "length (ls_output (l1\<lparr>ls_deadline := None\<rparr>)) < MaximumReplies" "reply_for r p" "rp_Status p = Failed"
        "Lease_Reply Failed LeaseExpired (l1\<lparr>ls_deadline := None\<rparr>) =
          Inr (l1\<lparr>ls_deadline := None, ls_reply := Some p, ls_output := ls_output (l1\<lparr>ls_deadline := None\<rparr>) @ [f]\<rparr>)"
      moreover from this have "lease_ok (l1\<lparr>ls_deadline := None, ls_reply := Some p, ls_output := ls_output (l1\<lparr>ls_deadline := None\<rparr>) @ [f]\<rparr>)"
        using l1(2) r1 by (intro lease_reply) (simp_all add: polled_def)
      ultimately show ?thesis unfolding poll using l1(2) by (simp add: polled_def owned_def reply_status_def)
    qed simp
  next
    case False
    show ?thesis
    proof (cases "rq_Action r = Acquire \<and> ls_reply l = None")
      case True
      obtain b where poll: "Poll e l = (if b then Lease_Reply Ready NoFailure l else Inr l)"
        using Poll_pending [OF l Some _ r(1) conjunct1 [OF True] conjunct2 [OF True], of e] False by auto
      show ?thesis
      proof (rule Lease_Reply_cases [OF r, of Ready NoFailure])
        assume "Lease_Reply Ready NoFailure l = Inl (Throw (no_buffer_space, l))"
        then show ?thesis unfolding poll using l Some False by (simp add: polled_def expired_def)
      next
        fix p f
        assume "length (ls_output l) < MaximumReplies" "reply_for r p" "rp_Status p = Ready"
          "Lease_Reply Ready NoFailure l = Inr (l\<lparr>ls_reply := Some p, ls_output := ls_output l @ [f]\<rparr>)"
        moreover from this have "lease_ok (l\<lparr>ls_reply := Some p, ls_output := ls_output l @ [f]\<rparr>)"
          using l r(1) True by (intro lease_reply) (simp_all add: lease_ok_def)
        ultimately show ?thesis unfolding poll using l Some False
          by (simp add: polled_def expired_def owned_def reply_status_def)
      qed simp
    next
      case noreply: False
      then have "Poll e l = Inr l" using Some False r(1) by (auto simp: Poll_def)
      then show ?thesis using l Some False by (simp add: polled_def expired_def)
    qed
  qed
qed

text \<open>What the accepted request does.\<close>

definition performed :: "delegation_request \<Rightarrow> lease \<Rightarrow> lease \<Rightarrow> bool" where
  "performed request l l' \<longleftrightarrow> lease_ok l' \<and> ls_request l' = Some request \<and> ls_revision l' = ls_revision l \<and>
     dcs_entries (ls_derps l') = dcs_entries (ls_derps l) \<and>
     (rq_Action request = Release \<longrightarrow> \<not> owned l') \<and> (rq_Action request = Acquire \<longrightarrow> owned l') \<and>
     (rq_Action request \<noteq> Acquire \<and> owned l' \<longrightarrow> owned l)"

lemma start_ok:
  assumes l: "lease_ok l" and e: "de_ok e"
  obtains d where "(if ls_changedOwnership l \<and> (case ls_request l of None \<Rightarrow> False | Some r \<Rightarrow> rq_Generation request > rq_Generation r)
      then Enable e False l else Inr l) = Inr (l\<lparr>ls_derps := d\<rparr>)"
    "owner_ok d" "dcs_entries d = dcs_entries (ls_derps l)" "dcs_enabled d \<Longrightarrow> owned l"
proof (cases "ls_changedOwnership l \<and> (case ls_request l of None \<Rightarrow> False | Some r \<Rightarrow> rq_Generation request > rq_Generation r)")
  case True
  obtain s where "Enable e False l = Inr (l\<lparr>ls_derps := (ls_derps l)\<lparr>dcs_enabled := False, dcs_session := s\<rparr>\<rparr>)"
    "owner_ok ((ls_derps l)\<lparr>dcs_enabled := False, dcs_session := s\<rparr>)"
    using Enable_ok [OF lease_owner [OF l] e] by blast
  then show thesis using that [of "(ls_derps l)\<lparr>dcs_enabled := False, dcs_session := s\<rparr>"] unfolding if_P [OF True] by simp
next
  case False
  show thesis using lease_owner [OF l] that [of "ls_derps l"] unfolding if_not_P [OF False] by (simp add: owned_def)
qed

lemma reply_performed:
  assumes "request_ids request" and "status = Failed \<longleftrightarrow> failure \<noteq> NoFailure"
    and "performed request l l2" and "status = Released \<longrightarrow> \<not> owned l2" and "status = Ready \<longrightarrow> owned l2"
  shows "keeps (\<lambda>(x, l'). x = no_buffer_space \<and> performed request l l') (performed request l) (Lease_Reply status failure l2)"
proof -
  have r: "ls_request l2 = Some request" "lease_ok l2" using assms(3) by (simp_all add: performed_def)
  show ?thesis
  proof (rule Lease_Reply_cases [OF r(1) assms(1,2)])
    assume "Lease_Reply status failure l2 = Inl (Throw (no_buffer_space, l2))"
    then show ?thesis using assms(3) by simp
  next
    fix p f
    assume a: "length (ls_output l2) < MaximumReplies" "reply_for request p" "rp_Status p = status"
      "Lease_Reply status failure l2 = Inr (l2\<lparr>ls_reply := Some p, ls_output := ls_output l2 @ [f]\<rparr>)"
    then have "lease_ok (l2\<lparr>ls_reply := Some p, ls_output := ls_output l2 @ [f]\<rparr>)"
      using assms(4,5) by (intro lease_reply [OF r(2,1)]) simp_all
    then show ?thesis using a(4) assms(3) by (simp add: performed_def owned_def)
  qed
qed

lemma perform_ok:
  assumes l: "lease_ok l" and e: "de_ok e" and ids: "request_ids request" and known: "\<not> unknown_region request l"
  shows "keeps (\<lambda>(x, l'). x = no_buffer_space \<and> performed request l l') (performed request l) (perform e request l)"
proof -
  obtain d where d: "(if ls_changedOwnership l \<and> (case ls_request l of None \<Rightarrow> False | Some r \<Rightarrow> rq_Generation request > rq_Generation r)
      then Enable e False l else Inr l) = Inr (l\<lparr>ls_derps := d\<rparr>)"
    "owner_ok d" "dcs_entries d = dcs_entries (ls_derps l)" "dcs_enabled d \<Longrightarrow> owned l"
    using start_ok [OF l e] by blast
  let ?t = "Some (de_now e + LeaseDuration)"
  let ?l2 = "l\<lparr>ls_derps := d, ls_request := Some request, ls_reply := None, ls_deadline := ?t\<rparr>"
  have len: "length (ls_output l) \<le> MaximumReplies" using l by (simp add: lease_ok_def)
  have regions: "known_regions request d'" if "dcs_entries d' = dcs_entries (ls_derps l)" for d'
    using known that by (auto simp: unknown_region_def known_regions_def)
  have base: "performed request l l2"
    if "owner_ok (ls_derps l2)" "dcs_entries (ls_derps l2) = dcs_entries (ls_derps l)" "ls_request l2 = Some request"
      "ls_reply l2 = None" "ls_output l2 = ls_output l" "ls_revision l2 = ls_revision l"
      "rq_Action request = Release \<longrightarrow> \<not> owned l2" "rq_Action request = Acquire \<longrightarrow> owned l2"
      "rq_Action request \<noteq> Acquire \<and> owned l2 \<longrightarrow> owned l" for l2
    using that len ids regions [OF that(2)] by (simp add: performed_def lease_ok_def reply_status_def)
  show ?thesis
  proof (cases "rq_Action request")
    case Prepare
    have "performed request l (?l2\<lparr>ls_changedOwnership := False\<rparr>)"
      using d Prepare by (intro base) (simp_all add: owned_def)
    from reply_performed [OF ids _ this, of Prepared NoFailure] show ?thesis
      using Prepare d(1) unfolding perform_def by (simp add: Let_def)
  next
    case Commit
    have "performed request l (?l2\<lparr>ls_deadline := None, ls_changedOwnership := False\<rparr>)"
      using d Commit by (intro base) (simp_all add: owned_def)
    from reply_performed [OF ids _ this, of Committed NoFailure] show ?thesis
      using Commit d(1) unfolding perform_def by (simp add: Let_def)
  next
    case Release
    obtain s where s: "Enable e False ?l2 = Inr (?l2\<lparr>ls_derps := d\<lparr>dcs_enabled := False, dcs_session := s\<rparr>\<rparr>)"
      "owner_ok (d\<lparr>dcs_enabled := False, dcs_session := s\<rparr>)"
      using Enable_ok [of ?l2 e False] d(2) e by auto
    let ?l3 = "(?l2\<lparr>ls_derps := d\<lparr>dcs_enabled := False, dcs_session := s\<rparr>\<rparr>)\<lparr>ls_changedOwnership := True\<rparr>"
    have "performed request l ?l3" "\<not> owned ?l3"
      using s(2) d(3) Release by (intro base, simp_all add: owned_def)
    from reply_performed [OF ids _ this(1), of Released NoFailure] this(2) show ?thesis
      using s(1) Release d(1) unfolding perform_def by (simp add: Let_def)
  next
    case Acquire
    obtain s where s: "Enable e True ?l2 = Inr (?l2\<lparr>ls_derps := d\<lparr>dcs_enabled := True, dcs_session := s\<rparr>\<rparr>)"
      "owner_ok (d\<lparr>dcs_enabled := True, dcs_session := s\<rparr>)"
      using Enable_ok [of ?l2 e True] d(2) e by auto
    let ?l3 = "(?l2\<lparr>ls_derps := d\<lparr>dcs_enabled := True, dcs_session := s\<rparr>\<rparr>)\<lparr>ls_changedOwnership := True\<rparr>"
    have l3: "performed request l ?l3" using s(2) d(3) Acquire by (intro base) (simp_all add: owned_def)
    then have ok: "lease_ok ?l3" by (simp add: performed_def)
    obtain b where "Poll e ?l3 = (if b then Lease_Reply Ready NoFailure ?l3 else Inr ?l3)"
      using Poll_pending [OF ok, of "de_now e + LeaseDuration" e request] Acquire
      by (simp add: LeaseDuration_def seconds_def) blast
    moreover have "perform e request l = Poll e ?l3"
      using s(1) Acquire d(1) unfolding perform_def by (simp add: Let_def)
    ultimately show ?thesis
      using reply_performed [OF ids _ l3, of Ready NoFailure] l3 Acquire by (simp add: performed_def)
  qed
qed

definition older :: "delegation_request \<Rightarrow> delegation_request \<Rightarrow> bool" where
  "older r q \<longleftrightarrow> rq_Generation r < rq_Generation q \<or> rq_Generation r = rq_Generation q \<and> rq_RequestId r < rq_RequestId q"

lemma not_stale: "\<not> stale_request q l \<Longrightarrow> ls_request l = Some r \<Longrightarrow> older r q"
  by (auto simp: stale_request_def older_def not_less not_le)

definition may_acquire :: "derps_env \<Rightarrow> delegation_request \<Rightarrow> lease \<Rightarrow> bool" where
  "may_acquire e request l \<longleftrightarrow> rq_Action request = Acquire \<and> rq_MapRevision request = ls_revision l \<and>
     reply_status l = Some Prepared \<and> \<not> expired e l \<and>
     (\<exists>r. ls_request l = Some r \<and> rq_Generation r = rq_Generation request \<and> rq_Regions r = rq_Regions request)"

definition answered :: "derps_env \<Rightarrow> delegation_request \<Rightarrow> lease \<Rightarrow> lease \<Rightarrow> bool" where
  "answered e request l l' \<longleftrightarrow> lease_ok l' \<and> dcs_entries (ls_derps l') = dcs_entries (ls_derps l) \<and>
     ls_revision l' = ls_revision l \<and>
     (ls_request l' = ls_request l \<or>
       ls_request l' = Some request \<and> (\<forall>r. ls_request l = Some r \<longrightarrow> older r request)) \<and>
     (owned l' \<and> \<not> owned l \<longrightarrow> may_acquire e request l)"

lemma polled_answered: "polled e l l' \<Longrightarrow> answered e request l l'"
  by (auto simp: polled_def answered_def)

lemma output_answered:
  "polled e l l1 \<Longrightarrow> length (ls_output l1) < MaximumReplies \<Longrightarrow> answered e request l (l1\<lparr>ls_output := ls_output l1 @ [f]\<rparr>)"
  by (auto simp: polled_def answered_def lease_ok_def owned_def reply_status_def)

lemma Lease_Fail_ok:
  assumes "polled e l l1" and "request_ids request" and "failure \<noteq> NoFailure"
  shows "keeps (\<lambda>(x, l'). x = no_buffer_space \<and> answered e request l l') (answered e request l) (Lease_Fail request failure l1)"
proof (cases "MaximumReplies \<le> length (ls_output l1)")
  case True
  then show ?thesis using polled_answered [OF assms(1)] by (simp add: Lease_Fail_def)
next
  case False
  let ?p = "\<lparr>rp_Generation = rq_Generation request, rp_RequestId = rq_RequestId request,
        rp_MapRevision = rq_MapRevision request, rp_Status = Failed, rp_Failure = failure\<rparr>"
  have "reply_for request ?p" using assms(3) by (simp add: reply_for_def)
  from push_reply_ok [OF assms(2) this, of l1] obtain f where
    "push_reply ?p l1 = Inr (l1\<lparr>ls_output := ls_output l1 @ [f]\<rparr>)" by blast
  then show ?thesis using False output_answered [OF assms(1)] by (simp add: Lease_Fail_def not_le)
qed

lemma refusal_failure: "refusal q l = Some fl \<Longrightarrow> fl \<noteq> NoFailure"
  by (auto simp: refusal_def split: if_splits)

lemma refusal_None: "refusal q l = None \<longleftrightarrow> \<not> stale_request q l \<and> rq_MapRevision q = ls_revision l \<and> \<not> unknown_region q l \<and>
    \<not> outside_transaction q l \<and> \<not> wrong_order q l \<and> \<not> commit_too_early q l"
  by (simp add: refusal_def)

lemma perform_answered:
  assumes p: "polled e l l1" and last: "l1 = l \<or> reply_status l1 = Some Failed \<or> reply_status l1 = Some Ready"
    and none: "refusal request l1 = None" and perf: "performed request l1 l'"
  shows "answered e request l l'"
proof -
  have may: "may_acquire e request l" if "owned l'" "\<not> owned l"
  proof -
    have acq: "rq_Action request = Acquire" using that perf p by (auto simp: performed_def polled_def)
    then have "reply_status l1 = Some Prepared" "\<not> outside_transaction request l1"
      using none by (auto simp: refusal_None wrong_order_def)
    moreover from this last have "l1 = l" by auto
    moreover from this have "\<not> expired e l" using p calculation(2) acq
      by (auto simp: polled_def outside_transaction_def split: option.splits)
    ultimately show ?thesis using acq none
      by (auto simp: may_acquire_def refusal_None outside_transaction_def split: option.splits)
  qed
  have "older r request" if "ls_request l = Some r" for r
    using not_stale [of request l1 r] none p that by (auto simp: refusal_None polled_def)
  then show ?thesis using may perf p by (auto simp: answered_def performed_def polled_def)
qed

lemma Lease_Accept_ok:
  assumes l: "lease_ok l" and e: "de_ok e" and ids: "request_ids request"
  shows "keeps (\<lambda>(x, l'). x = no_buffer_space \<and> answered e request l l') (answered e request l) (Lease_Accept e request l)"
  unfolding Lease_Accept_def
proof (rule keeps_bindE)
  show "keeps (\<lambda>(x, l'). x = no_buffer_space \<and> answered e request l l')
      (\<lambda>l'. polled e l l' \<and> (l' = l \<or> reply_status l' = Some Failed \<or> reply_status l' = Some Ready)) (Poll e l)"
    using Poll_ok [OF l e] by (rule keeps_mono) (auto intro: polled_answered)
next
  fix l1
  assume a: "polled e l l1 \<and> (l1 = l \<or> reply_status l1 = Some Failed \<or> reply_status l1 = Some Ready)"
  then have l1: "lease_ok l1" and p: "polled e l l1" by (simp_all add: polled_def)
  show "keeps (\<lambda>(x, l'). x = no_buffer_space \<and> answered e request l l') (answered e request l)
     (if ls_request l1 = Some request then
       (case ls_reply l1 of None \<Rightarrow> Inr l1
        | Some reply \<Rightarrow>
            if length (ls_output l1) \<ge> MaximumReplies then Inl (Throw (no_buffer_space, l1)) else push_reply reply l1)
      else (case refusal request l1 of
        Some failure \<Rightarrow> Lease_Fail request failure l1
      | None \<Rightarrow> perform e request l1))"
  proof (cases "ls_request l1 = Some request")
    case True
    show ?thesis
    proof (cases "ls_reply l1")
      case (Some reply)
      have "reply_for request reply" using l1 True Some by (auto simp: lease_ok_def)
      from push_reply_ok [OF ids this, of l1] obtain f where
        "push_reply reply l1 = Inr (l1\<lparr>ls_output := ls_output l1 @ [f]\<rparr>)" by blast
      then show ?thesis using True Some polled_answered [OF p] output_answered [OF p] by (simp add: not_le)
    qed (use True polled_answered [OF p] in simp)
  next
    case False
    show ?thesis
    proof (cases "refusal request l1")
      case None
      then have "\<not> unknown_region request l1" by (simp add: refusal_None)
      from perform_ok [OF l1 e ids this] show ?thesis
        unfolding if_not_P [OF False] None option.case
        by (rule keeps_mono) (use a None in \<open>auto intro: perform_answered\<close>)
    qed (use False Lease_Fail_ok [OF p ids] refusal_failure in simp)
  qed
qed

section \<open>Reachable states\<close>

datatype lease_op = OpApplyMap u64 | OpAccept delegation_request | OpPoll | OpTakeOutput | OpNetworkMap derp_map
  | OpNetwork string | OpConnection nat conn_op

fun lease_apply :: "derps_env \<Rightarrow> lease_op \<Rightarrow> lease \<Rightarrow> lease_res" where
  "lease_apply e (OpApplyMap revision) l = Inr (ApplyMap revision l)"
| "lease_apply e (OpAccept request) l = Lease_Accept e request l"
| "lease_apply e OpPoll l = Poll e l"
| "lease_apply e OpTakeOutput l = Inr (fst (TakeOutput l))"
| "lease_apply e (OpNetworkMap config) l =
     (case ApplyNetworkMap e config (ls_derps l) of
        Inl Fault \<Rightarrow> Inl Fault
      | Inl (Throw (x, d)) \<Rightarrow> Inl (Throw (x, l\<lparr>ls_derps := d\<rparr>))
      | Inr d \<Rightarrow> Inr (l\<lparr>ls_derps := d\<rparr>))"
| "lease_apply e (OpNetwork interface) l =
     bindE (in_lease l (Derps_ChangeNetwork e interface (ls_derps l))) (\<lambda>d. Inr (l\<lparr>ls_derps := d\<rparr>))"
| "lease_apply e (OpConnection i op) l =
     bindE (in_lease l (on_connection i (conn_apply (de_conn e i) op) (ls_derps l))) (\<lambda>d. Inr (l\<lparr>ls_derps := d\<rparr>))"

text \<open>
  Requests come from the decoder, whose requests have nonzero identities; only the lease enables and disables
  connections.
\<close>

fun lease_op_ok :: "lease_op \<Rightarrow> bool" where
  "lease_op_ok (OpAccept request) = request_ids request"
| "lease_op_ok (OpConnection i op) = (case op of OpSetEnabled _ \<Rightarrow> False | _ \<Rightarrow> True)"
| "lease_op_ok _ = True"

inductive lease_step :: "lease \<Rightarrow> lease \<Rightarrow> bool" where
  returns: "de_ok e \<Longrightarrow> lease_op_ok op \<Longrightarrow> lease_apply e op l = Inr l' \<Longrightarrow> lease_step l l'"
| throws: "de_ok e \<Longrightarrow> lease_op_ok op \<Longrightarrow> lease_apply e op l = Inl (Throw (x, l')) \<Longrightarrow> lease_step l l'"

lemma lease_derps:
  assumes "lease_ok l" and "owner_ok d" and "dcs_enabled d = dcs_enabled (ls_derps l)"
    and "set (dcs_entries (ls_derps l)) \<subseteq> set (dcs_entries d)"
  shows "lease_ok (l\<lparr>ls_derps := d\<rparr>)"
proof -
  have "known_regions r d" if "known_regions r (ls_derps l)" for r
    using that assms(4) by (fastforce simp: known_regions_def)
  then show ?thesis using assms(1-3) by (simp add: lease_ok_def owned_def reply_status_def)
qed

lemma on_connection_ok:
  assumes d: "owner_ok d" and e: "de_ok e" and op: "lease_op_ok (OpConnection i op)"
  shows "keeps (\<lambda>_. True) (\<lambda>d'. owner_ok d' \<and> dcs_enabled d' = dcs_enabled d \<and> dcs_entries d' = dcs_entries d)
    (on_connection i (conn_apply (de_conn e i) op) d)"
proof (cases "i < length (dcs_session d)")
  case True
  let ?c = "snd (dcs_session d ! i)"
  have c: "conn_ok ?c" "cn_enabled ?c = dcs_enabled d" using d True by (simp_all add: owner_ok_def conns_ok_def)
  have after: "enabled_after op b = b" for b using op by (cases op) (simp_all add: enabled_after_def)
  obtain c' where c': "conn_apply (de_conn e i) op ?c = Inr c'" "conn_ok c'" "cn_enabled c' = dcs_enabled d"
    using conn_apply_ok [OF c(1), of "de_conn e i" op] e c(2) unfolding after de_ok_def by auto
  have "map fst ((dcs_session d)[i := (fst (dcs_session d ! i), c')]) = map fst (dcs_session d)"
    using True by (auto intro!: nth_equalityI simp: nth_list_update)
  then show ?thesis using True c' d
    by (auto simp: on_connection_def DerpConnection_def owner_ok_def table_ok_def conns_ok_def nth_list_update)
qed (simp add: on_connection_def DerpConnection_def)

lemma keeps_in_lease:
  "keeps (\<lambda>_. True) P m \<Longrightarrow> lease_ok l \<Longrightarrow> keeps (\<lambda>(x, l'). lease_ok l') P (in_lease l m)"
  by (cases m) (auto simp: in_lease_def keeps_def split: exn.splits)

lemma network_map_extends:
  assumes "owner_ok (ls_derps l)" and "de_ok e"
  obtains d where "extends (ls_derps l) d"
    "(\<exists>x. lease_apply e (OpNetworkMap config) l = Inl (Throw (x, l\<lparr>ls_derps := d\<rparr>))) \<or>
     lease_apply e (OpNetworkMap config) l = Inr (l\<lparr>ls_derps := d\<rparr>)"
  using ApplyNetworkMap_owner [OF assms, of config] that
  by (cases "ApplyNetworkMap e config (ls_derps l)") (fastforce simp: keeps_def split: exn.splits prod.splits)+

lemma lease_extends: "lease_ok l \<Longrightarrow> extends (ls_derps l) d \<Longrightarrow> lease_ok (l\<lparr>ls_derps := d\<rparr>)"
  by (rule lease_derps) (auto simp: extends_def dest: set_mono_prefix)

lemma lease_apply_ok:
  assumes l: "lease_ok l" and e: "de_ok e" and op: "lease_op_ok op"
  shows "keeps (\<lambda>(x, l'). lease_ok l') lease_ok (lease_apply e op l)"
proof -
  have derps: "keeps (\<lambda>(x, l'). lease_ok l') lease_ok (bindE (in_lease l m) (\<lambda>d. Inr (l\<lparr>ls_derps := d\<rparr>)))"
    if "keeps (\<lambda>_. True) (\<lambda>d. owner_ok d \<and> dcs_enabled d = dcs_enabled (ls_derps l) \<and>
      set (dcs_entries (ls_derps l)) \<subseteq> set (dcs_entries d)) m" for m
    using keeps_in_lease [OF that l] lease_derps [OF l] by (auto intro!: keeps_bindE)
  note owner = lease_owner [OF l]
  show ?thesis
  proof (cases op)
    case (OpAccept request)
    with op have "request_ids request" by simp
    from Lease_Accept_ok [OF l e this] show ?thesis unfolding OpAccept lease_apply.simps
      by (rule keeps_mono) (auto simp: answered_def)
  next
    case OpPoll
    show ?thesis unfolding OpPoll lease_apply.simps
      using Poll_ok [OF l e] by (rule keeps_mono) (auto simp: polled_def)
  next
    case (OpNetworkMap config)
    show ?thesis unfolding OpNetworkMap
      by (rule network_map_extends [OF owner e, of config]) (use lease_extends [OF l] in \<open>auto simp del: lease_apply.simps\<close>)
  next
    case (OpNetwork interface)
    obtain s where "Derps_ChangeNetwork e interface (ls_derps l) =
        Inr ((ls_derps l)\<lparr>dcs_networkInterface := interface, dcs_session := s\<rparr>)"
      "owner_ok ((ls_derps l)\<lparr>dcs_networkInterface := interface, dcs_session := s\<rparr>)"
      using ChangeNetwork_owner [OF owner e] by blast
    then show ?thesis unfolding OpNetwork lease_apply.simps by (intro derps) simp
  next
    case (OpConnection i c)
    with op have ok: "lease_op_ok (OpConnection i c)" by simp
    show ?thesis unfolding OpConnection lease_apply.simps
      by (rule derps, rule keeps_mono [OF on_connection_ok [OF owner e ok]]) auto
  qed (use l in \<open>simp_all add: ApplyMap_def TakeOutput_def lease_ok_def owned_def reply_status_def\<close>)
qed

lemma lease_step_ok: "lease_ok l \<Longrightarrow> lease_step l l' \<Longrightarrow> lease_ok l'"
  by (erule lease_step.cases) (use lease_apply_ok in \<open>fastforce simp: keeps_def\<close>)+

interpretation lease: component_invariant lease_step lease_ok
  by unfold_locales (rule lease_step_ok)

definition new_derps :: derp_connections where
  "new_derps = \<lparr>dcs_session = [], dcs_networkInterface = [], dcs_routes = [], dcs_nextToken = 1, dcs_entries = [], dcs_enabled = True\<rparr>"

definition new_lease :: lease where
  "new_lease = \<lparr>ls_derps = new_derps, ls_revision = 0, ls_request = None, ls_reply = None, ls_deadline = None,
     ls_output = [], ls_changedOwnership = False\<rparr>"

lemma new_lease_ok: "lease_ok new_lease"
  by (simp add: new_lease_def new_derps_def lease_ok_def owner_ok_def table_ok_def conns_ok_def reply_status_def)

lemma owned_conns:
  "lease_ok l \<Longrightarrow> (r, c) \<in> set (dcs_session (ls_derps l)) \<Longrightarrow> conn_ok c \<and> cn_enabled c = owned l"
  by (auto simp: lease_ok_def owner_ok_def conns_ok_def owned_def in_set_conv_nth dest!: spec)

lemma lease_apply_request:
  assumes l: "lease_ok l" and e: "de_ok e" and op: "lease_op_ok op" and r: "ls_request l = Some r"
  shows "keeps (\<lambda>(x, l'). \<exists>q. ls_request l' = Some q \<and> (q = r \<or> older r q))
    (\<lambda>l'. \<exists>q. ls_request l' = Some q \<and> (q = r \<or> older r q)) (lease_apply e op l)"
proof -
  have derps: "keeps (\<lambda>(x, l'). \<exists>q. ls_request l' = Some q \<and> (q = r \<or> older r q))
    (\<lambda>l'. \<exists>q. ls_request l' = Some q \<and> (q = r \<or> older r q)) (bindE (in_lease l m) (\<lambda>d. Inr (l\<lparr>ls_derps := d\<rparr>)))"
    if "safe m" for m
    using that r by (cases m) (auto simp: in_lease_def split: exn.splits)
  note owner = lease_owner [OF l]
  show ?thesis
  proof (cases op)
    case (OpAccept request)
    with op have "request_ids request" by simp
    from Lease_Accept_ok [OF l e this] show ?thesis unfolding OpAccept lease_apply.simps
      by (rule keeps_mono) (use r in \<open>auto simp: answered_def\<close>)
  next
    case OpPoll
    show ?thesis unfolding OpPoll lease_apply.simps
      using Poll_ok [OF l e] by (rule keeps_mono) (use r in \<open>auto simp: polled_def\<close>)
  next
    case (OpNetworkMap config)
    show ?thesis unfolding OpNetworkMap
      by (rule network_map_extends [OF owner e, of config]) (use r in \<open>auto simp del: lease_apply.simps\<close>)
  next
    case (OpNetwork interface)
    show ?thesis unfolding OpNetwork lease_apply.simps
      using ChangeNetwork_owner [OF owner e, of interface] by (intro derps) auto
  next
    case (OpConnection i c)
    with op have ok: "lease_op_ok (OpConnection i c)" by simp
    show ?thesis unfolding OpConnection lease_apply.simps
      by (rule derps, rule keeps_safe [OF on_connection_ok [OF owner e ok]])
  qed (use r in \<open>simp_all add: ApplyMap_def TakeOutput_def\<close>)
qed

lemma lease_step_request:
  "lease_ok l \<Longrightarrow> lease_step l l' \<Longrightarrow> ls_request l = Some r \<Longrightarrow>
     ls_request l' = Some r \<or> (\<exists>q. ls_request l' = Some q \<and> older r q)"
  by (erule lease_step.cases) (use lease_apply_request in \<open>fastforce simp: keeps_def\<close>)+

text \<open>A connection that is closed and holds nothing to send.\<close>

definition idle :: "derp_connection \<Rightarrow> bool" where
  "idle c \<longleftrightarrow> \<not> Connected c \<and> \<not> cn_dial c \<and> Queue_Size (cn_outgoing c) = 0"

lemma released_idle: "lease_ok l \<Longrightarrow> \<not> owned l \<Longrightarrow> (r, c) \<in> set (dcs_session (ls_derps l)) \<Longrightarrow> idle c"
  using owned_conns [of l r c] by (auto simp: idle_def conn_ok_def Connected_def)

lemmas lease_reachable = lease.steps_inv [OF _ new_lease_ok]

text \<open>
  C2: in every state the relay session can reach, all DERP connections of the node have the same owner;
  while the node does not own them every connection is closed, dials nothing and has nothing queued; when the
  last reply is \<open>Released\<close> the node does not own them, and when it is \<open>Ready\<close> and a lease is running the node does; and at
  most 64 replies are queued.  Nothing is claimed of a \<open>Ready\<close> that is left from a lease that has ended, nor of other replies.
\<close>

theorem lease_ownership_invariant:
  assumes "lease_step\<^sup>*\<^sup>* new_lease l"
  shows "(\<forall>(r, c) \<in> set (dcs_session (ls_derps l)). cn_enabled c = dcs_enabled (ls_derps l) \<and>
      (\<not> dcs_enabled (ls_derps l) \<longrightarrow> idle c)) \<and>
    (reply_status l = Some Released \<longrightarrow> \<not> dcs_enabled (ls_derps l)) \<and>
    (reply_status l = Some Ready \<and> ls_deadline l \<noteq> None \<longrightarrow> dcs_enabled (ls_derps l)) \<and>
    length (ls_output l) \<le> 64"
proof -
  have l: "lease_ok l" using lease_reachable [OF assms] .
  have "cn_enabled c = dcs_enabled (ls_derps l) \<and> (\<not> dcs_enabled (ls_derps l) \<longrightarrow> idle c)"
    if "(r, c) \<in> set (dcs_session (ls_derps l))" for r c
    using owned_conns [OF l that] released_idle [OF l _ that] by (simp add: owned_def)
  then show ?thesis using l by (auto simp: lease_ok_def owned_def MaximumReplies_def)
qed

text \<open>
  C10: only an \<open>Acquire\<close> of the running transaction gives the node the connections: it must be for the current
  map, of the generation and regions that were prepared, with \<open>Prepared\<close> as the last reply, and before the
  lease ended.  Polling never takes ownership.  Apart from a full reply queue neither throws.
\<close>

theorem lease_acquire_only:
  assumes "lease_step\<^sup>*\<^sup>* new_lease l" and "de_ok e" and "request_ids request"
  shows "(\<exists>l'. (Lease_Accept e request l = Inr l' \<or> Lease_Accept e request l = Inl (Throw (no_buffer_space, l'))) \<and>
      (dcs_enabled (ls_derps l') \<and> \<not> dcs_enabled (ls_derps l) \<longrightarrow> may_acquire e request l)) \<and>
    (\<exists>l'. (Poll e l = Inr l' \<or> Poll e l = Inl (Throw (no_buffer_space, l'))) \<and>
      (dcs_enabled (ls_derps l') \<longrightarrow> dcs_enabled (ls_derps l)))"
proof -
  have l: "lease_ok l" using lease_reachable [OF assms(1)] .
  have "\<exists>l'. (m = Inr l' \<or> m = Inl (Throw (no_buffer_space, l'))) \<and> P l'"
    if "keeps (\<lambda>(x, l'). x = no_buffer_space \<and> P l') P m" for m :: lease_res and P
    using that by (cases m) (auto simp: keeps_def split: exn.splits)
  note some = this
  have "\<exists>l'. (Lease_Accept e request l = Inr l' \<or> Lease_Accept e request l = Inl (Throw (no_buffer_space, l'))) \<and>
      answered e request l l'"
    by (rule some [OF Lease_Accept_ok [OF l assms(2,3)]])
  moreover have "\<exists>l'. (Poll e l = Inr l' \<or> Poll e l = Inl (Throw (no_buffer_space, l'))) \<and> polled e l l'"
    by (rule some) (rule keeps_mono [OF Poll_ok [OF l assms(2)]], auto)
  ultimately show ?thesis unfolding answered_def polled_def owned_def by blast
qed

text \<open>
  C14: when a lease ends that changed the ownership, the next poll closes every connection of the node and ends
  the transaction, whether or not the failure reply can be queued.
\<close>

theorem lease_expiry_releases:
  assumes "lease_step\<^sup>*\<^sup>* new_lease l" and "de_ok e"
    and "ls_deadline l = Some t" and "t \<le> de_now e" and "ls_changedOwnership l"
  shows "\<exists>l'. (Poll e l = Inr l' \<or> Poll e l = Inl (Throw (no_buffer_space, l'))) \<and> ls_deadline l' = None \<and>
    \<not> dcs_enabled (ls_derps l') \<and> (\<forall>(r, c) \<in> set (dcs_session (ls_derps l')). idle c)"
proof -
  have l: "lease_ok l" using lease_reachable [OF assms(1)] .
  have x: "expired e l" using assms(3,4) by (simp add: expired_def)
  obtain l' where l': "Poll e l = Inr l' \<or> Poll e l = Inl (Throw (no_buffer_space, l'))" "polled e l l'"
    using Poll_ok [OF l assms(2)] by (cases "Poll e l") (auto simp: keeps_def split: exn.splits)
  then have "lease_ok l'" "\<not> owned l'" "ls_deadline l' = None" using x assms(5) by (auto simp: polled_def)
  then show ?thesis using l'(1) released_idle [of l'] by (auto simp: owned_def)
qed

text \<open>
  the request a session holds is only ever replaced by a newer one: by generation, then by request number.
\<close>

theorem lease_request_monotone:
  assumes "lease_step\<^sup>*\<^sup>* new_lease l" and "lease_step\<^sup>*\<^sup>* l l'" and "ls_request l = Some r"
  shows "\<exists>r'. ls_request l' = Some r' \<and> (r' = r \<or> older r r')"
  using assms(2)
proof (induction rule: rtranclp_induct)
  case base
  then show ?case using assms(3) by simp
next
  case (step l1 l2)
  obtain r1 where r1: "ls_request l1 = Some r1" "r1 = r \<or> older r r1" using step.IH by blast
  have l1: "lease_ok l1" using lease_reachable [OF rtranclp_trans [OF assms(1) step.hyps(1)]] .
  have "ls_request l2 = Some r1 \<or> (\<exists>q. ls_request l2 = Some q \<and> older r1 q)"
    using step.hyps(2) by (rule lease_step_request [OF l1 _ r1(1)])
  moreover have "older r q" if "older r r1" "older r1 q" for q using that by (auto simp: older_def)
  ultimately show ?case using r1(2) by auto
qed

section \<open>An example run\<close>

text \<open>The relay provisions region 1, is asked to prepare and then to release its connections.\<close>

definition example_env :: "int \<Rightarrow> derps_env" where
  "example_env now = \<lparr>de_now = now, de_conn = (\<lambda>_. \<lparr>ce_now = now, ce_dialResult = None, ce_bufferedInput = (\<lambda>_. False),
     ce_readNeedsWrite = (\<lambda>_. False), ce_writeNeedsRead = (\<lambda>_. False)\<rparr>), de_token = (\<lambda>i. i)\<rparr>"

definition example_request :: "u64 \<Rightarrow> delegation_action \<Rightarrow> delegation_request" where
  "example_request n act = \<lparr>rq_Generation = 1, rq_RequestId = n, rq_MapRevision = 3, rq_Action = act, rq_Regions = [1]\<rparr>"

definition example_map :: derp_map where
  "example_map = \<lparr>dm_region = 1, dm_host = ''derp1'', dm_peers = []\<rparr>"

primrec lease_run :: "(derps_env \<times> lease_op) list \<Rightarrow> lease \<Rightarrow> lease_res" where
  "lease_run [] l = Inr l"
| "lease_run (o1 # rest) l = bindE (lease_apply (fst o1) (snd o1) l) (lease_run rest)"

lemma lease_run_steps:
  "list_all (\<lambda>(e, op). de_ok e \<and> lease_op_ok op) ops \<Longrightarrow> lease_run ops l = Inr l' \<Longrightarrow> lease_step\<^sup>*\<^sup>* l l'"
proof (induction ops arbitrary: l)
  case (Cons o1 ops)
  then obtain l1 where "lease_apply (fst o1) (snd o1) l = Inr l1" "lease_run ops l1 = Inr l'"
    by (auto simp: bindE_eq_Inr_iff)
  then show ?case using Cons converse_rtranclp_into_rtranclp [of lease_step l l1 l'] lease_step.returns [of "fst o1" "snd o1" l l1]
    by (auto simp: case_prod_beta)
qed simp

definition example_ops :: "(derps_env \<times> lease_op) list" where
  "example_ops = [(example_env 0, OpNetworkMap example_map), (example_env 0, OpApplyMap 3),
     (example_env 0, OpAccept (example_request 1 Prepare)), (example_env 0, OpAccept (example_request 2 Release))]"

lemmas example_eval = example_ops_def example_env_def example_map_def example_request_def new_lease_def new_derps_def
  ApplyNetworkMap_def in_derps_def Ensure_def ConnectionImpl_def Maintain_def Connect_def or_reconnect_def lift_relay_def in_lease_def
  AddDerpConnection_def Register_def ApplyMap_def Lease_Accept_def Poll_def refusal_def stale_request_def
  unknown_region_def outside_transaction_def wrong_order_def commit_too_early_def reply_status_def perform_def
  Lease_Reply_def push_reply_def EncodeDelegationReply_def Identity_def MaximumReplies_def Enable_def
  Derps_SetEnabled_def on_connection_def DerpConnection_def Connection_SetEnabled_def Disconnect_def
  LeaseDuration_def seconds_def Let_def

lemma example_ok: "de_ok (example_env t)" "request_ids (example_request 1 a)" "request_ids (example_request 2 a)"
    "request_ids (example_request 3 a)"
  by (simp_all add: de_ok_def env_ok_def example_env_def request_ids_def identity_ok_def example_request_def)

lemma example_run:
  obtains l where "lease_step\<^sup>*\<^sup>* new_lease l" "ls_deadline l = Some 20000000000" "ls_changedOwnership l"
    "reply_status l = Some Released" "ls_request l = Some (example_request 2 Release)" "length (dcs_session (ls_derps l)) = 1"
proof -
  have "list_all (\<lambda>(e, op). de_ok e \<and> lease_op_ok op) example_ops"
    by (simp add: example_ops_def example_ok)
  moreover have "\<exists>l. lease_run example_ops new_lease = Inr l \<and> ls_deadline l = Some 20000000000 \<and> ls_changedOwnership l \<and>
    reply_status l = Some Released \<and> ls_request l = Some (example_request 2 Release) \<and> length (dcs_session (ls_derps l)) = 1"
    by (simp add: example_eval word_le_nat_alt word_less_nat_alt)
  ultimately show thesis using that lease_run_steps by blast
qed

theorem lease_ownership_invariant_witness:
  "\<exists>l. lease_step\<^sup>*\<^sup>* new_lease l \<and> reply_status l = Some Released \<and> \<not> dcs_enabled (ls_derps l) \<and>
     (\<forall>(r, c) \<in> set (dcs_session (ls_derps l)). idle c) \<and> length (dcs_session (ls_derps l)) = 1"
proof -
  obtain l where l: "lease_step\<^sup>*\<^sup>* new_lease l" "reply_status l = Some Released" "length (dcs_session (ls_derps l)) = 1"
    using example_run by metis
  from lease_ownership_invariant [OF l(1)] l show ?thesis by blast
qed

theorem lease_acquire_only_witness:
  "\<exists>l l'. lease_step\<^sup>*\<^sup>* new_lease l \<and> reply_status l = Some Released \<and>
     (Lease_Accept (example_env 1) (example_request 3 Acquire) l = Inr l' \<or>
      Lease_Accept (example_env 1) (example_request 3 Acquire) l = Inl (Throw (no_buffer_space, l'))) \<and>
     \<not> dcs_enabled (ls_derps l')"
proof -
  obtain l where l: "lease_step\<^sup>*\<^sup>* new_lease l" "reply_status l = Some Released" using example_run by metis
  have "\<not> dcs_enabled (ls_derps l)" using l lease_reachable [OF l(1)] by (simp add: lease_ok_def owned_def)
  moreover have "\<not> may_acquire (example_env 1) (example_request 3 Acquire) l" using l(2) by (simp add: may_acquire_def)
  ultimately show ?thesis
    using lease_acquire_only [OF l(1) example_ok(1) example_ok(4), of 1 Acquire] l by blast
qed

theorem lease_expiry_releases_witness:
  "\<exists>l l'. lease_step\<^sup>*\<^sup>* new_lease l \<and> ls_deadline l = Some 20000000000 \<and>
     (Poll (example_env 20000000000) l = Inr l' \<or> Poll (example_env 20000000000) l = Inl (Throw (no_buffer_space, l'))) \<and>
     ls_deadline l' = None \<and> \<not> dcs_enabled (ls_derps l')"
proof -
  obtain l where l: "lease_step\<^sup>*\<^sup>* new_lease l" "ls_deadline l = Some 20000000000" "ls_changedOwnership l"
    using example_run by metis
  have now: "20000000000 \<le> de_now (example_env 20000000000)" by (simp add: example_env_def)
  from lease_expiry_releases [OF l(1) example_ok(1) l(2) now l(3)] l show ?thesis by blast
qed

theorem lease_request_monotone_witness:
  "\<exists>l l' r'. lease_step\<^sup>*\<^sup>* new_lease l \<and> ls_request l = Some (example_request 2 Release) \<and> lease_step l l' \<and> ls_request l' = Some r' \<and>
     (r' = example_request 2 Release \<or> older (example_request 2 Release) r')"
proof -
  obtain l where l: "lease_step\<^sup>*\<^sup>* new_lease l" "ls_request l = Some (example_request 2 Release)"
    using example_run by metis
  have step: "lease_step l (ApplyMap 9 l)"
    using lease_step.returns [OF example_ok(1), of "OpApplyMap 9" 0 l] by simp
  from lease_request_monotone [OF l(1) r_into_rtranclp [of lease_step, OF step] l(2)] l step show ?thesis by blast
qed

end
