(* ===== verification/Transition.thy ===== *)
theory Transition
  imports Derp_Connection Delegation
begin

text \<open>
  The policy by which a node switches between its own (native) connections and a relay (hosted):
  \<^verbatim>\<open>src/core/ipn/ipnlocal/TransitionCoordinator.cpp\<close>.  The fields of \<^verbatim>\<open>TransitionStatus\<close> are fields of the
  coordinator's record; a method that reads the clock takes the reading \<open>now\<close> in nanoseconds.
\<close>

section \<open>TransitionCoordinator.h\<close>

datatype node_mode = Native | Hosted

datatype transition_phase = Idle | Preparing | AwaitingMap | PreparingDelegation | Releasing | Activating
  | Committing | Draining | TransitionFailed

datatype transition_failure = NoTransitionFailure | PolicyChanged | PreparationFailed | Timeout | Cancelled
  | DelegationRejected | RollbackFailed

datatype action_kind = PrepareNative | PrepareHosted | ActivateNative | ActivateHosted | SuspendNative | SelectNative
  | SelectHosted | RetireNative | RetireHosted | RecoverHosted | DelegationAction

record transition_action =
  ta_Kind :: action_kind
  ta_Generation :: u64
  ta_Delegation :: "delegation_request option"

record transition =
  tr_Desired :: node_mode
  tr_Effective :: node_mode
  tr_Phase :: transition_phase
  tr_Failure :: transition_failure
  tr_Generation :: u64
  tr_RollingBack :: bool
  tr_original :: node_mode
  tr_mapRevision :: u64
  tr_appliedRevision :: u64
  tr_requestId :: u64
  tr_pending :: "delegation_request option"
  tr_regions :: "u16 list"
  tr_deadline :: "int option"
  tr_actions :: "transition_action list"
  tr_ownershipChanged :: bool
  tr_relayAvailable :: bool

definition OperationTimeout :: int where "OperationTimeout = seconds 15"
definition DrainInterval :: int where "DrainInterval = 400000000"

section \<open>TransitionCoordinator.cpp\<close>

definition TransitionCoordinator :: "node_mode \<Rightarrow> transition" where
  "TransitionCoordinator initial =
     \<lparr>tr_Desired = initial, tr_Effective = initial, tr_Phase = Idle, tr_Failure = NoTransitionFailure, tr_Generation = 0,
      tr_RollingBack = False, tr_original = initial, tr_mapRevision = 0, tr_appliedRevision = 0, tr_requestId = 0,
      tr_pending = None, tr_regions = [], tr_deadline = None, tr_actions = [], tr_ownershipChanged = False,
      tr_relayAvailable = True\<rparr>"

definition Active :: "transition \<Rightarrow> bool" where
  "Active t \<longleftrightarrow> tr_Phase t \<noteq> Idle \<and> tr_Phase t \<noteq> TransitionFailed"

definition Action :: "action_kind \<Rightarrow> transition \<Rightarrow> transition" where
  "Action kind t = t\<lparr>tr_actions := tr_actions t @ [\<lparr>ta_Kind = kind, ta_Generation = tr_Generation t, ta_Delegation = None\<rparr>]\<rparr>"

definition Request :: "int \<Rightarrow> delegation_action \<Rightarrow> transition \<Rightarrow> transition" where
  "Request now action t =
     (let request = \<lparr>rq_Generation = tr_Generation t, rq_RequestId = tr_requestId t + 1, rq_MapRevision = tr_mapRevision t,
        rq_Action = action, rq_Regions = tr_regions t\<rparr> in
      t\<lparr>tr_requestId := tr_requestId t + 1, tr_pending := Some request,
        tr_actions := tr_actions t @ [\<lparr>ta_Kind = DelegationAction, ta_Generation = tr_Generation t, ta_Delegation = Some request\<rparr>],
        tr_deadline := Some (now + OperationTimeout)\<rparr>)"

definition PrepareDelegation :: "int \<Rightarrow> transition \<Rightarrow> transition" where
  "PrepareDelegation now t = Request now Prepare (t\<lparr>tr_Phase := PreparingDelegation\<rparr>)"

text \<open>\<^verbatim>\<open>std::ranges::sort\<close> followed by erasing what \<^verbatim>\<open>std::unique\<close> leaves behind.\<close>

definition sort_unique :: "u16 list \<Rightarrow> u16 list" where
  "sort_unique regions = remdups_adj (sort regions)"

definition Begin :: "int \<Rightarrow> node_mode \<Rightarrow> u64 \<Rightarrow> u16 list \<Rightarrow> bool \<Rightarrow> transition \<Rightarrow> (relay_error, transition \<times> bool) res" where
  "Begin now desired mapRevision regions policyUnchanged t =
     (if Active t then Inr (t, False)
      else if mapRevision = 0 \<or> regions = [] \<or> 0 \<in> set regions
      then Inl (Throw (invalid_argument ''transition requires a map revision and DERP regions'')) else
      let t1 = t\<lparr>tr_Desired := desired, tr_Failure := NoTransitionFailure, tr_RollingBack := False,
        tr_Generation := tr_Generation t + 1\<rparr> in
      if \<not> policyUnchanged then Inr (t1\<lparr>tr_Phase := TransitionFailed, tr_Failure := PolicyChanged\<rparr>, False)
      else if desired = tr_Effective t then Inr (t1\<lparr>tr_Phase := Idle\<rparr>, True)
      else Inr (Action (if desired = Native then PrepareNative else PrepareHosted)
        (t1\<lparr>tr_original := tr_Effective t, tr_mapRevision := mapRevision, tr_appliedRevision := 0,
          tr_regions := sort_unique regions, tr_ownershipChanged := False, tr_relayAvailable := True, tr_pending := None,
          tr_Phase := Preparing, tr_deadline := Some (now + OperationTimeout)\<rparr>), True))"

definition Rollback :: "int \<Rightarrow> transition_failure \<Rightarrow> transition \<Rightarrow> transition" where
  "Rollback now reason t0 =
     (if \<not> Active t0 then t0 else
      let t = t0\<lparr>tr_actions := [], tr_pending := None\<rparr> in
      if tr_RollingBack t then
        (Action (if tr_original t = Hosted then RecoverHosted else ActivateNative)
          (Action RetireHosted (Action SuspendNative t)))
          \<lparr>tr_Effective := tr_original t, tr_Phase := TransitionFailed, tr_Failure := RollbackFailed, tr_deadline := None\<rparr>
      else
      let t1 = t\<lparr>tr_Failure := reason\<rparr> in
      if \<not> tr_ownershipChanged t then
        (Action (if tr_Desired t = Native then RetireNative else RetireHosted) t1)
          \<lparr>tr_Phase := TransitionFailed, tr_deadline := None\<rparr>
      else
      let t2 = Action SuspendNative (t1\<lparr>tr_Generation := tr_Generation t + 1, tr_RollingBack := True\<rparr>) in
      if \<not> tr_relayAvailable t then
        let t3 = Action RetireHosted t2 in
        if tr_original t = Hosted then
          (Action RecoverHosted t3)\<lparr>tr_Effective := tr_original t, tr_Phase := TransitionFailed, tr_deadline := None\<rparr>
        else (Action ActivateNative (t3\<lparr>tr_Phase := Activating\<rparr>))\<lparr>tr_deadline := Some (now + OperationTimeout)\<rparr>
      else PrepareDelegation now t2)"

definition Transition_Prepared :: "int \<Rightarrow> u64 \<Rightarrow> bool \<Rightarrow> transition \<Rightarrow> transition" where
  "Transition_Prepared now generation success t =
     (if generation \<noteq> tr_Generation t \<or> tr_Phase t \<noteq> Preparing then t
      else if \<not> success then Rollback now PreparationFailed t
      else if tr_Desired t = Native \<and> \<not> tr_relayAvailable t then
        (Action ActivateNative (t\<lparr>tr_Phase := Activating, tr_ownershipChanged := True\<rparr>))
          \<lparr>tr_deadline := Some (now + OperationTimeout)\<rparr>
      else
      let t1 = (if tr_Desired t = Hosted
                then Action ActivateHosted ((Action SuspendNative t)\<lparr>tr_ownershipChanged := True\<rparr>) else t);
          t2 = t1\<lparr>tr_Phase := AwaitingMap, tr_deadline := Some (now + OperationTimeout)\<rparr> in
      if tr_appliedRevision t2 = tr_mapRevision t2 then PrepareDelegation now t2 else t2)"

definition MapApplied :: "int \<Rightarrow> u64 \<Rightarrow> transition \<Rightarrow> transition" where
  "MapApplied now revision t =
     (if \<not> Active t then t else
      let t1 = t\<lparr>tr_appliedRevision := revision\<rparr> in
      if revision \<noteq> tr_mapRevision t then t1
      else if tr_Phase t = AwaitingMap then PrepareDelegation now t1 else t1)"

definition MapChanged :: "int \<Rightarrow> u64 \<Rightarrow> u16 list \<Rightarrow> transition \<Rightarrow> transition" where
  "MapChanged now revision regions t =
     (if \<not> Active t then t else
      let t1 = t\<lparr>tr_mapRevision := revision, tr_regions := sort_unique regions, tr_appliedRevision := 0\<rparr> in
      if tr_Phase t = Preparing \<or> tr_Phase t = Draining then t1 else
      (Action SuspendNative (t1\<lparr>tr_Generation := tr_Generation t + 1, tr_pending := None, tr_actions := []\<rparr>))
        \<lparr>tr_Phase := AwaitingMap, tr_deadline := Some (now + OperationTimeout)\<rparr>)"

definition Transition_Abort :: "transition_failure \<Rightarrow> transition \<Rightarrow> transition" where
  "Transition_Abort failure t =
     (if \<not> Active t then t else
      t\<lparr>tr_Generation := tr_Generation t + 1, tr_Phase := TransitionFailed, tr_Failure := failure, tr_RollingBack := False,
        tr_pending := None, tr_actions := [], tr_deadline := None\<rparr>)"

definition CommitSelection :: "int \<Rightarrow> node_mode \<Rightarrow> transition \<Rightarrow> transition" where
  "CommitSelection now selected t =
     (let t1 = Action (if selected = Native then SelectNative else SelectHosted) (t\<lparr>tr_Effective := selected\<rparr>) in
      if \<not> tr_relayAvailable t then t1\<lparr>tr_Phase := Draining, tr_deadline := Some (now + DrainInterval)\<rparr>
      else Request now Commit (t1\<lparr>tr_Phase := Committing\<rparr>))"

text \<open>The mode a transition is heading for: back to the original one while it rolls back.\<close>

definition target :: "transition \<Rightarrow> node_mode" where
  "target t = (if tr_RollingBack t then tr_original t else tr_Desired t)"

definition Transition_Reply :: "int \<Rightarrow> delegation_reply \<Rightarrow> transition \<Rightarrow> transition" where
  "Transition_Reply now reply t =
     (case tr_pending t of None \<Rightarrow> t | Some request \<Rightarrow>
      if \<not> Active t \<or> rp_Generation reply \<noteq> tr_Generation t \<or> rp_RequestId reply \<noteq> rq_RequestId request \<or>
         rp_MapRevision reply \<noteq> rq_MapRevision request then t
      else if rp_Status reply = Failed then Rollback now DelegationRejected t
      else if rq_Action request = Prepare \<and> rp_Status reply = Prepared then
        Request now (if target t = Native then Release else Acquire)
          (t\<lparr>tr_Phase := (if target t = Native then Releasing else Activating)\<rparr>)
      else if rq_Action request = Release \<and> rp_Status reply = Released then
        (Action ActivateNative (t\<lparr>tr_ownershipChanged := True, tr_Phase := Activating, tr_pending := None\<rparr>))
          \<lparr>tr_deadline := Some (now + OperationTimeout)\<rparr>
      else if rq_Action request = Acquire \<and> rp_Status reply = Ready then CommitSelection now Hosted t
      else if rq_Action request = Commit \<and> rp_Status reply = Committed then
        t\<lparr>tr_pending := None, tr_Phase := Draining, tr_deadline := Some (now + DrainInterval)\<rparr>
      else t)"

definition NativeReady :: "int \<Rightarrow> u64 \<Rightarrow> transition \<Rightarrow> transition" where
  "NativeReady now generation t =
     (if generation \<noteq> tr_Generation t \<or> tr_Phase t \<noteq> Activating \<or> target t \<noteq> Native then t
      else CommitSelection now Native t)"

definition RelayFailed :: "int \<Rightarrow> transition \<Rightarrow> transition" where
  "RelayFailed now t0 =
     (let t = t0\<lparr>tr_relayAvailable := False\<rparr> in
      if \<not> Active t then t else
      let t1 = (Action RetireHosted t)\<lparr>tr_pending := None\<rparr> in
      if tr_Phase t = Preparing \<and> tr_Desired t = Native then t1
      else if tr_Desired t = Native \<and> \<not> tr_RollingBack t then
        (Action ActivateNative (t1\<lparr>tr_ownershipChanged := True, tr_Phase := Activating\<rparr>))
          \<lparr>tr_deadline := Some (now + OperationTimeout)\<rparr>
      else Rollback now PreparationFailed t1)"

definition Transition_Cancel :: "int \<Rightarrow> transition_failure \<Rightarrow> transition \<Rightarrow> transition" where
  "Transition_Cancel now reason t = Rollback now reason t"

definition Finish :: "transition \<Rightarrow> transition" where
  "Finish t =
     (Action (if tr_Effective t = Native then RetireHosted else RetireNative) t)
       \<lparr>tr_Phase := (if tr_RollingBack t then TransitionFailed else Idle), tr_deadline := None, tr_pending := None\<rparr>"

definition Transition_Poll :: "int \<Rightarrow> transition \<Rightarrow> transition" where
  "Transition_Poll now t =
     (case tr_deadline t of None \<Rightarrow> t | Some deadline \<Rightarrow>
      if now < deadline then t
      else if tr_Phase t = Draining then Finish t else Rollback now Timeout t)"

definition TakeActions :: "transition \<Rightarrow> transition \<times> transition_action list" where
  "TakeActions t = (t\<lparr>tr_actions := []\<rparr>, tr_actions t)"

section \<open>What the host makes of the actions\<close>

text \<open>
  The host, \<^verbatim>\<open>SwitchingNode::ApplyActions\<close>, carries out the actions in order and skips those of another generation.
  \<open>native_step\<close> tells whether the node's own connections are in use after an action.
\<close>

definition acts :: "u64 \<Rightarrow> transition \<Rightarrow> transition_action list" where
  "acts g t = filter (\<lambda>a. ta_Generation a = g) (tr_actions t)"

abbreviation live :: "transition \<Rightarrow> transition_action list" where
  "live t \<equiv> acts (tr_Generation t) t"

definition native_step :: "transition_action \<Rightarrow> bool \<Rightarrow> bool" where
  "native_step a b =
     (case ta_Kind a of ActivateNative \<Rightarrow> True | SuspendNative \<Rightarrow> False | PrepareNative \<Rightarrow> False | RetireNative \<Rightarrow> False | _ \<Rightarrow> b)"

primrec native_after :: "transition_action list \<Rightarrow> bool \<Rightarrow> bool" where
  "native_after [] b = b"
| "native_after (a # as) b = native_after as (native_step a b)"

definition asks_acquire :: "transition_action \<Rightarrow> bool" where
  "asks_acquire a \<longleftrightarrow> (\<exists>r. ta_Delegation a = Some r \<and> rq_Action r = Acquire)"

text \<open>No action asks the relay to acquire the connections while the node uses its own.\<close>

primrec acquire_safe :: "bool \<Rightarrow> transition_action list \<Rightarrow> bool" where
  "acquire_safe b [] = True"
| "acquire_safe b (a # as) \<longleftrightarrow> (asks_acquire a \<longrightarrow> \<not> b) \<and> acquire_safe (native_step a b) as"

definition kinds :: "transition \<Rightarrow> action_kind list" where
  "kinds t = map ta_Kind (tr_actions t)"

text \<open>The relay session is retired before the node's own connections are activated.\<close>

definition retired_first :: "action_kind list \<Rightarrow> bool" where
  "retired_first ks \<longleftrightarrow> (\<exists>pre post. ks = pre @ ActivateNative # post \<and> RetireHosted \<in> set pre)"

lemma native_after_append [simp]: "native_after (xs @ ys) b = native_after ys (native_after xs b)"
  by (induction xs arbitrary: b) simp_all

lemma acquire_safe_append [simp]:
  "acquire_safe b (xs @ ys) \<longleftrightarrow> acquire_safe b xs \<and> acquire_safe (native_after xs b) ys"
  by (induction xs arbitrary: b) auto

datatype transition_op = OpBegin node_mode u64 "u16 list" bool | OpPrepared u64 bool | OpMapApplied u64
  | OpMapChanged u64 "u16 list" | OpAbort transition_failure | OpReply delegation_reply | OpNativeReady u64
  | OpRelayFailed | OpCancel transition_failure | OpTransitionPoll

fun transition_apply :: "int \<Rightarrow> transition_op \<Rightarrow> transition \<Rightarrow> transition" where
  "transition_apply now (OpBegin desired revision regions unchanged) t =
     (case Begin now desired revision regions unchanged t of Inl _ \<Rightarrow> t | Inr (t', _) \<Rightarrow> t')"
| "transition_apply now (OpPrepared generation success) t = Transition_Prepared now generation success t"
| "transition_apply now (OpMapApplied revision) t = MapApplied now revision t"
| "transition_apply now (OpMapChanged revision regions) t = MapChanged now revision regions t"
| "transition_apply now (OpAbort failure) t = Transition_Abort failure t"
| "transition_apply now (OpReply reply) t = Transition_Reply now reply t"
| "transition_apply now (OpNativeReady generation) t = NativeReady now generation t"
| "transition_apply now OpRelayFailed t = RelayFailed now t"
| "transition_apply now (OpCancel reason) t = Transition_Cancel now reason t"
| "transition_apply now OpTransitionPoll t = Transition_Poll now t"

text \<open>
  The coordinator together with the host: either a method is called, or the host takes the actions and carries
  them out in order.
\<close>

inductive transition_step :: "transition \<times> bool \<Rightarrow> transition \<times> bool \<Rightarrow> bool" where
  operation: "transition_step (t, native) (transition_apply now op t, native)"
| host: "transition_step (t, native) (fst (TakeActions t), native_after (live t) native)"

inductive_cases transition_stepE: "transition_step (t, b) u"

text \<open>A hosted node that has been asked to become native, up to the release of the relay's connections.\<close>

definition example_releasing :: transition where
  "example_releasing = fst (TakeActions
     (transition_apply 3 (OpReply \<lparr>rp_Generation = 1, rp_RequestId = 1, rp_MapRevision = 4, rp_Status = Prepared, rp_Failure = NoFailure\<rparr>)
     (transition_apply 2 (OpMapApplied 4)
     (transition_apply 1 (OpPrepared 1 True)
     (transition_apply 0 (OpBegin Native 4 [1] True) (TransitionCoordinator Hosted))))))"

section \<open>The invariant of the coordinator\<close>

fun phase_of :: "delegation_action \<Rightarrow> transition_phase" where
  "phase_of Prepare = PreparingDelegation" | "phase_of Release = Releasing" | "phase_of Acquire = Activating"
| "phase_of Commit = Committing"

definition pending_ok :: "transition \<Rightarrow> bool" where
  "pending_ok t \<longleftrightarrow> (\<forall>r. tr_pending t = Some r \<longrightarrow> rq_Generation r = tr_Generation t \<and> rq_RequestId r = tr_requestId t \<and>
     tr_Phase t = phase_of (rq_Action r) \<and> (rq_Action r = Release \<longrightarrow> target t = Native) \<and>
     (rq_Action r = Acquire \<longrightarrow> target t = Hosted))"

definition suspended_ok :: "transition \<Rightarrow> bool \<Rightarrow> bool" where
  "suspended_ok t b \<longleftrightarrow> (target t = Hosted \<and> tr_Phase t \<in> {AwaitingMap, PreparingDelegation, Activating} \<longrightarrow>
     \<not> native_after (live t) b)"

definition transition_ok :: "transition \<times> bool \<Rightarrow> bool" where
  "transition_ok = (\<lambda>(t, b). (Active t \<longleftrightarrow> tr_deadline t \<noteq> None) \<and> pending_ok t \<and> suspended_ok t b \<and>
     (\<forall>g. acquire_safe b (acts g t)) \<and> (tr_Phase t = Preparing \<longrightarrow> \<not> tr_RollingBack t) \<and>
     (Active t \<and> \<not> tr_relayAvailable t \<longrightarrow> target t = Native))"

lemmas transition_defs = transition_ok_def pending_ok_def suspended_ok_def Active_def target_def Action_def Request_def Let_def
  native_step_def asks_acquire_def acts_def

lemma acts_simps [simp]:
  "acts g (t\<lparr>tr_Phase := p\<rparr>) = acts g t" "acts g (t\<lparr>tr_deadline := d\<rparr>) = acts g t" "acts g (t\<lparr>tr_pending := q\<rparr>) = acts g t"
  "acts g (t\<lparr>tr_actions := []\<rparr>) = []" "acts g (t\<lparr>tr_ownershipChanged := c\<rparr>) = acts g t"
  "acts g (t\<lparr>tr_Effective := m\<rparr>) = acts g t" "acts g (t\<lparr>tr_relayAvailable := c\<rparr>) = acts g t"
  "acts g (t\<lparr>tr_appliedRevision := r\<rparr>) = acts g t" "acts g (t\<lparr>tr_Generation := g'\<rparr>) = acts g t"
  "acts g (t\<lparr>tr_Failure := f\<rparr>) = acts g t" "acts g (t\<lparr>tr_RollingBack := c\<rparr>) = acts g t" "acts g (t\<lparr>tr_Desired := m\<rparr>) = acts g t"
  "acts g (t\<lparr>tr_original := m\<rparr>) = acts g t" "acts g (t\<lparr>tr_mapRevision := r\<rparr>) = acts g t" "acts g (t\<lparr>tr_regions := rs\<rparr>) = acts g t"
  by (simp_all add: acts_def)

lemma target_simps [simp]:
  "target (t\<lparr>tr_Phase := p\<rparr>) = target t" "target (t\<lparr>tr_deadline := d\<rparr>) = target t" "target (t\<lparr>tr_pending := q\<rparr>) = target t"
  "target (t\<lparr>tr_actions := as\<rparr>) = target t" "target (t\<lparr>tr_ownershipChanged := c\<rparr>) = target t"
  "target (t\<lparr>tr_Effective := m\<rparr>) = target t" "target (t\<lparr>tr_relayAvailable := c\<rparr>) = target t"
  "target (t\<lparr>tr_appliedRevision := r\<rparr>) = target t" "target (t\<lparr>tr_mapRevision := r\<rparr>) = target t"
  "target (t\<lparr>tr_regions := rs\<rparr>) = target t" "target (t\<lparr>tr_Generation := g\<rparr>) = target t"
  by (simp_all add: target_def)

lemma pending_okN: "tr_pending t = None \<Longrightarrow> pending_ok t"
  by (simp add: pending_ok_def)

lemma pending_ok_Request [simp]:
  "pending_ok (Request now a t) \<longleftrightarrow> tr_Phase t = phase_of a \<and> (a = Release \<longrightarrow> target t = Native) \<and> (a = Acquire \<longrightarrow> target t = Hosted)"
  by (auto simp: pending_ok_def Request_def Let_def target_def)

lemma Request_simps [simp]:
  "tr_Phase (Request now a t) = tr_Phase t" "tr_deadline (Request now a t) = Some (now + OperationTimeout)"
  "target (Request now a t) = target t" "tr_RollingBack (Request now a t) = tr_RollingBack t"
  "tr_Generation (Request now a t) = tr_Generation t" "tr_relayAvailable (Request now a t) = tr_relayAvailable t"
  "native_after (acts g (Request now a t)) b = native_after (acts g t) b"
  "acquire_safe b (acts g (Request now a t)) \<longleftrightarrow>
     acquire_safe b (acts g t) \<and> (tr_Generation t = g \<and> a = Acquire \<longrightarrow> \<not> native_after (acts g t) b)"
  by (auto simp: Request_def Let_def target_def native_step_def asks_acquire_def acts_def)

lemma Action_simps [simp]:
  "tr_Phase (Action k t) = tr_Phase t" "tr_deadline (Action k t) = tr_deadline t" "target (Action k t) = target t"
  "tr_RollingBack (Action k t) = tr_RollingBack t" "tr_pending (Action k t) = tr_pending t"
  "tr_Generation (Action k t) = tr_Generation t" "tr_relayAvailable (Action k t) = tr_relayAvailable t"
  "native_after (acts g (Action k t)) b =
     (if tr_Generation t \<noteq> g then native_after (acts g t) b else if k = ActivateNative then True
      else if k = SuspendNative \<or> k = PrepareNative \<or> k = RetireNative then False else native_after (acts g t) b)"
  "acquire_safe b (acts g (Action k t)) = acquire_safe b (acts g t)"
  by (auto simp: Action_def target_def native_step_def asks_acquire_def acts_def split: action_kind.splits)

lemmas transition_okI = transition_ok_def suspended_ok_def Active_def

lemma Rollback_active_ok:
  assumes "Active t"
  shows "transition_ok (Rollback now reason t, b)"
proof -
  consider "tr_RollingBack t" | "\<not> tr_RollingBack t" "\<not> tr_ownershipChanged t"
    | "\<not> tr_RollingBack t" "tr_ownershipChanged t" "tr_relayAvailable t"
    | "\<not> tr_RollingBack t" "tr_ownershipChanged t" "\<not> tr_relayAvailable t" by blast
  then show ?thesis
  proof cases
    case 3
    then show ?thesis using assms by (simp add: Rollback_def PrepareDelegation_def Let_def transition_okI)
  next
    case 4
    then show ?thesis using assms
      by (cases "tr_original t") (simp_all add: Rollback_def Let_def transition_okI pending_okN target_def Action_def native_step_def
        asks_acquire_def acts_def)
  qed (use assms in \<open>simp_all add: Rollback_def Let_def transition_okI pending_okN\<close>)
qed

lemma Rollback_ok: "transition_ok (t, b) \<Longrightarrow> transition_ok (Rollback now reason t, b)"
  using Rollback_active_ok by (cases "Active t") (simp_all add: Rollback_def)

lemma PrepareDelegation_ok:
  "transition_ok (t, b) \<Longrightarrow> tr_Phase t = AwaitingMap \<Longrightarrow> transition_ok (PrepareDelegation now t, b)"
  by (auto simp: PrepareDelegation_def transition_defs)

lemma CommitSelection_ok:
  assumes t: "transition_ok (t, b)" and "Active t" and acq: "tr_pending t \<noteq> None \<Longrightarrow> target t = Hosted"
  shows "transition_ok (CommitSelection now m t, b)"
proof (cases "tr_relayAvailable t")
  case True
  then show ?thesis using assms(1,2) by (simp add: CommitSelection_def Let_def transition_okI)
next
  case False
  then have "tr_pending t = None" using assms by (cases "tr_pending t") (auto simp: transition_ok_def)
  then show ?thesis using assms(1,2) False by (simp add: CommitSelection_def Let_def transition_okI pending_okN)
qed

lemma pending_None:
  "transition_ok (t, b) \<Longrightarrow> tr_Phase t \<in> {Idle, Preparing, AwaitingMap, TransitionFailed} \<Longrightarrow> tr_pending t = None"
  by (cases "tr_pending t"; cases "rq_Action (the (tr_pending t))") (auto simp: transition_ok_def pending_ok_def)

lemma Begin_ok:
  assumes t: "transition_ok (t, b)" and r: "Begin now d revision rs u t = Inr (t', x)"
  shows "transition_ok (t', b)"
proof (cases "Active t")
  case False
  then have i: "tr_pending t = None" "tr_deadline t = None" "\<forall>g. acquire_safe b (acts g t)"
    using t pending_None [OF t] by (auto simp: Active_def transition_ok_def)
  have v: "(revision = 0 \<or> rs = [] \<or> 0 \<in> set rs) = False" using r False by (auto simp: Begin_def)
  consider "\<not> u" | "u" "d = tr_Effective t" | "u" "d \<noteq> tr_Effective t" by blast
  then show ?thesis
  proof cases
    case 1
    then show ?thesis using r False i unfolding Begin_def v by (auto simp: Let_def transition_okI pending_okN)
  next
    case 2
    then show ?thesis using r False i unfolding Begin_def v by (auto simp: Let_def transition_okI pending_okN)
  next
    case 3
    then show ?thesis using r False i unfolding Begin_def v by (auto simp: Let_def transition_okI pending_okN)
  qed
qed (use t r in \<open>simp add: Begin_def\<close>)

lemma Prepared_ok: "transition_ok (t, b) \<Longrightarrow> transition_ok (Transition_Prepared now g s t, b)"
proof -
  assume t: "transition_ok (t, b)"
  show ?thesis
  proof (cases "tr_Phase t = Preparing \<and> g = tr_Generation t \<and> s")
    case True
    then have p: "tr_pending t = None" using pending_None [OF t] by simp
    then show ?thesis using t True
      by (cases "tr_Desired t"; cases "tr_relayAvailable t"; cases "tr_appliedRevision t = tr_mapRevision t")
        (simp_all add: Transition_Prepared_def PrepareDelegation_def Let_def transition_okI pending_okN target_def, simp_all add: Action_def Request_def Let_def)
  qed (use t Rollback_ok [OF t] in \<open>auto simp: Transition_Prepared_def\<close>)
qed

lemma applied_ok: "transition_ok (t\<lparr>tr_appliedRevision := revision\<rparr>, b) = transition_ok (t, b)"
  by (simp add: transition_ok_def pending_ok_def suspended_ok_def Active_def target_def)

lemma MapApplied_ok: "transition_ok (t, b) \<Longrightarrow> transition_ok (MapApplied now revision t, b)"
proof -
  assume t: "transition_ok (t, b)"
  then have "transition_ok (t\<lparr>tr_appliedRevision := revision\<rparr>, b)" by (simp only: applied_ok)
  then show ?thesis using t PrepareDelegation_ok [of "t\<lparr>tr_appliedRevision := revision\<rparr>" b now] by (auto simp: MapApplied_def Let_def)
qed

lemma map_ok: "transition_ok (t\<lparr>tr_mapRevision := revision, tr_regions := rs, tr_appliedRevision := applied\<rparr>, b) = transition_ok (t, b)"
  by (simp add: transition_ok_def pending_ok_def suspended_ok_def Active_def target_def)

lemma MapChanged_ok:
  assumes t: "transition_ok (t, b)"
  shows "transition_ok (MapChanged now revision rs t, b)"
proof (cases "Active t \<and> tr_Phase t \<noteq> Preparing \<and> tr_Phase t \<noteq> Draining")
  case True
  then show ?thesis using t by (simp add: MapChanged_def Let_def transition_okI pending_okN)
next
  case False
  then have "MapChanged now revision rs t = t \<or>
      MapChanged now revision rs t = t\<lparr>tr_mapRevision := revision, tr_regions := sort_unique rs, tr_appliedRevision := 0\<rparr>"
    by (auto simp: MapChanged_def Let_def)
  then show ?thesis using t map_ok by metis
qed

lemma Abort_ok: "transition_ok (t, b) \<Longrightarrow> transition_ok (Transition_Abort f t, b)"
  by (auto simp: Transition_Abort_def transition_defs)

lemma Reply_cases:
  assumes "tr_pending t = Some r"
  obtains (ignored) "Transition_Reply now reply t = t"
  | (failed) "Transition_Reply now reply t = Rollback now DelegationRejected t"
  | (prepared) "rq_Action r = Prepare" "Active t" "Transition_Reply now reply t =
      Request now (if target t = Native then Release else Acquire) (t\<lparr>tr_Phase := (if target t = Native then Releasing else Activating)\<rparr>)"
  | (released) "rq_Action r = Release" "rp_Status reply = Released" "rp_RequestId reply = rq_RequestId r"
      "rp_Generation reply = tr_Generation t" "Active t" "Transition_Reply now reply t =
      (Action ActivateNative (t\<lparr>tr_ownershipChanged := True, tr_Phase := Activating, tr_pending := None\<rparr>))
          \<lparr>tr_deadline := Some (now + OperationTimeout)\<rparr>"
  | (ready) "rq_Action r = Acquire" "Active t" "Transition_Reply now reply t = CommitSelection now Hosted t"
  | (committed) "rq_Action r = Commit" "Active t" "Transition_Reply now reply t =
      t\<lparr>tr_pending := None, tr_Phase := Draining, tr_deadline := Some (now + DrainInterval)\<rparr>"
proof -
  let ?bad = "\<not> Active t \<or> rp_Generation reply \<noteq> tr_Generation t \<or> rp_RequestId reply \<noteq> rq_RequestId r \<or>
    rp_MapRevision reply \<noteq> rq_MapRevision r"
  consider (a) "?bad" | (b) "\<not> ?bad" "rp_Status reply = Failed"
    | (c) "\<not> ?bad" "rq_Action r = Prepare" "rp_Status reply = Prepared"
    | (d) "\<not> ?bad" "rq_Action r = Release" "rp_Status reply = Released"
    | (e) "\<not> ?bad" "rq_Action r = Acquire" "rp_Status reply = Ready"
    | (f) "\<not> ?bad" "rq_Action r = Commit" "rp_Status reply = Committed"
    | (g) "\<not> ?bad" "rp_Status reply \<noteq> Failed" "\<not> (rq_Action r = Prepare \<and> rp_Status reply = Prepared)"
        "\<not> (rq_Action r = Release \<and> rp_Status reply = Released)" "\<not> (rq_Action r = Acquire \<and> rp_Status reply = Ready)"
        "\<not> (rq_Action r = Commit \<and> rp_Status reply = Committed)" by blast
  then show thesis
  proof cases
    case a
    then show ?thesis using assms by (intro ignored) (auto simp: Transition_Reply_def)
  next
    case b
    then show ?thesis using assms by (intro failed) (simp add: Transition_Reply_def)
  next
    case c
    then show ?thesis using assms by (intro prepared) (simp_all add: Transition_Reply_def)
  next
    case d
    then show ?thesis using assms by (intro released) (simp_all add: Transition_Reply_def)
  next
    case e
    then show ?thesis using assms by (intro ready) (simp_all add: Transition_Reply_def)
  next
    case f
    then show ?thesis using assms by (intro committed) (simp_all add: Transition_Reply_def)
  next
    case g
    have "Transition_Reply now reply t = t"
      unfolding Transition_Reply_def assms option.case
      by (simp only: if_not_P [OF g(1)] if_not_P [OF g(2)] if_not_P [OF g(3)] if_not_P [OF g(4)] if_not_P [OF g(5)]
          if_not_P [OF g(6)])
    then show ?thesis by (rule ignored)
  qed
qed

lemma Reply_ok:
  assumes t: "transition_ok (t, b)"
  shows "transition_ok (Transition_Reply now reply t, b)"
proof (cases "tr_pending t")
  case (Some r)
  then have r: "rq_Action r = Prepare \<Longrightarrow> tr_Phase t = PreparingDelegation" "rq_Action r = Release \<Longrightarrow> target t = Native"
    "rq_Action r = Acquire \<Longrightarrow> target t = Hosted"
    using t by (auto simp: transition_ok_def pending_ok_def)
  from Some show ?thesis
  proof (cases rule: Reply_cases [of _ _ now reply])
    case prepared
    then show ?thesis using t r(1) by (cases "target t") (simp_all add: transition_okI)
  next
    case released
    then show ?thesis using t r(2) by (simp add: transition_okI pending_okN)
  next
    case ready
    then show ?thesis using CommitSelection_ok [OF t] r(3) by simp
  next
    case committed
    then show ?thesis using t by (simp add: transition_okI pending_okN)
  qed (use t Rollback_ok [OF t] in simp_all)
qed (use t in \<open>simp add: Transition_Reply_def\<close>)

lemma NativeReady_ok: "transition_ok (t, b) \<Longrightarrow> transition_ok (NativeReady now g t, b)"
proof -
  assume t: "transition_ok (t, b)"
  have "tr_pending t = None" if "tr_Phase t = Activating" "target t = Native"
    using t that by (cases "tr_pending t"; cases "rq_Action (the (tr_pending t))") (auto simp: transition_ok_def pending_ok_def)
  then show ?thesis using t CommitSelection_ok [OF t, of now Native] by (auto simp: NativeReady_def Active_def)
qed

lemma RelayFailed_ok:
  assumes t: "transition_ok (t, b)"
  shows "transition_ok (RelayFailed now t, b)"
proof (cases "Active t")
  case True
  let ?t1 = "(Action RetireHosted (t\<lparr>tr_relayAvailable := False\<rparr>))\<lparr>tr_pending := None\<rparr>"
  consider "tr_Phase t = Preparing" "tr_Desired t = Native" | "tr_Phase t \<noteq> Preparing" "tr_Desired t = Native" "\<not> tr_RollingBack t"
    | "\<not> (tr_Phase t = Preparing \<and> tr_Desired t = Native)" "\<not> (tr_Desired t = Native \<and> \<not> tr_RollingBack t)" by blast
  then show ?thesis
  proof cases
    case 3
    have "Active ?t1" using True by (simp add: Active_def)
    from Rollback_active_ok [OF this] show ?thesis using 3 True by (auto simp: RelayFailed_def Let_def Active_def)
  qed (use t True in \<open>auto simp: RelayFailed_def transition_defs\<close>)
qed (use t in \<open>auto simp: RelayFailed_def transition_defs\<close>)

lemma Finish_ok: "transition_ok (t, b) \<Longrightarrow> transition_ok (Finish t, b)"
  by (cases "tr_Effective t") (auto simp: Finish_def transition_defs)

lemma Poll_transition_ok: "transition_ok (t, b) \<Longrightarrow> transition_ok (Transition_Poll now t, b)"
  by (simp add: Transition_Poll_def Finish_ok Rollback_ok split: option.split)

lemma transition_step_ok: "transition_ok s \<Longrightarrow> transition_step s s' \<Longrightarrow> transition_ok s'"
proof (erule transition_step.cases)
  fix t b now op
  assume "transition_ok s" "s = (t, b)" "s' = (transition_apply now op t, b)"
  moreover have "transition_ok (transition_apply now (OpBegin d revision rs u) t, b)" if "transition_ok (t, b)" for d revision rs u
    using Begin_ok [OF that] that by (cases "Begin now d revision rs u t") auto
  ultimately show "transition_ok s'"
    by (cases op) (simp_all del: transition_apply.simps(1) add: Prepared_ok MapApplied_ok MapChanged_ok Abort_ok Reply_ok
        NativeReady_ok RelayFailed_ok Rollback_ok Poll_transition_ok Transition_Cancel_def)
next
  fix t b
  assume "transition_ok s" "s = (t, b)" "s' = (fst (TakeActions t), native_after (live t) b)"
  moreover have "pending_ok (t\<lparr>tr_actions := []\<rparr>) = pending_ok t" by (simp add: pending_ok_def)
  ultimately show "transition_ok s'" by (auto simp: TakeActions_def transition_okI)
qed

interpretation transition: component_invariant transition_step transition_ok
  by unfold_locales (rule transition_step_ok)

lemma initial_transition_ok: "transition_ok (TransitionCoordinator m, b)"
  by (simp add: TransitionCoordinator_def transition_defs)

lemmas transition_reachable = transition.steps_inv [OF _ initial_transition_ok]

section \<open>Properties\<close>

text \<open>
  C3: an active transition always has a deadline and at most one outstanding request, which belongs to the
  current generation, has the last number issued and is the one of the current phase; outside the four phases that
  wait for the relay none is outstanding.  And in every execution no request to acquire the connections is issued
  while the node's own connections are in use, in whatever order methods are called and actions carried out.
\<close>

theorem transition_invariant:
  assumes "transition_step\<^sup>*\<^sup>* (TransitionCoordinator initial, native0) (t, native)"
  shows "(tr_deadline t \<noteq> None \<longleftrightarrow> tr_Phase t \<noteq> Idle \<and> tr_Phase t \<noteq> TransitionFailed) \<and>
    (\<forall>r. tr_pending t = Some r \<longrightarrow> rq_Generation r = tr_Generation t \<and> rq_RequestId r = tr_requestId t \<and>
      tr_Phase t = phase_of (rq_Action r)) \<and>
    acquire_safe native (live t) \<and>
    (\<forall>r. tr_pending t = Some r \<and> rq_Action r = Acquire \<and> tr_Phase t = Activating \<longrightarrow> \<not> native_after (live t) native)"
  using transition_reachable [OF assms]
  by (auto simp: transition_ok_def pending_ok_def suspended_ok_def Active_def)

theorem transition_invariant_witness:
  "\<exists>t. transition_step\<^sup>*\<^sup>* (TransitionCoordinator Native, True) (t, True) \<and> tr_Phase t = Preparing \<and> tr_deadline t \<noteq> None"
proof -
  let ?t = "transition_apply 0 (OpBegin Hosted 4 [2, 1, 2] True) (TransitionCoordinator Native)"
  have phase: "tr_Phase ?t = Preparing"
    by (simp add: Begin_def TransitionCoordinator_def Active_def Let_def Action_def)
  have s: "transition_step\<^sup>*\<^sup>* (TransitionCoordinator Native, True) (?t, True)"
    by (rule r_into_rtranclp) (rule transition_step.operation)
  from transition_invariant [OF s] s phase show ?thesis by (intro exI [of _ ?t]) simp
qed

lemma kinds_simps [simp]:
  "kinds (Action k t) = kinds t @ [k]" "kinds (Request now a t) = kinds t @ [DelegationAction]"
  "kinds (t\<lparr>tr_actions := []\<rparr>) = []"
  "tr_relayAvailable (Action k t) = tr_relayAvailable t" "tr_relayAvailable (Request now a t) = tr_relayAvailable t"
  by (simp_all add: kinds_def Action_def Request_def Let_def)

lemma kinds_update [simp]:
  "kinds (t\<lparr>tr_Phase := p\<rparr>) = kinds t" "kinds (t\<lparr>tr_deadline := d\<rparr>) = kinds t" "kinds (t\<lparr>tr_pending := q\<rparr>) = kinds t"
  "kinds (t\<lparr>tr_ownershipChanged := c\<rparr>) = kinds t" "kinds (t\<lparr>tr_Effective := m\<rparr>) = kinds t"
  "kinds (t\<lparr>tr_relayAvailable := c\<rparr>) = kinds t" "kinds (t\<lparr>tr_appliedRevision := r\<rparr>) = kinds t"
  "kinds (t\<lparr>tr_Failure := f\<rparr>) = kinds t" "kinds (t\<lparr>tr_Generation := g\<rparr>) = kinds t" "kinds (t\<lparr>tr_RollingBack := c\<rparr>) = kinds t"
  "kinds (t\<lparr>tr_regions := rs\<rparr>) = kinds t" "kinds (t\<lparr>tr_mapRevision := g\<rparr>) = kinds t" "kinds (t\<lparr>tr_Desired := m\<rparr>) = kinds t"
  "kinds (t\<lparr>tr_original := m\<rparr>) = kinds t"
  by (simp_all add: kinds_def)

lemma Rollback_activates:
  "kinds t = [] \<Longrightarrow> ActivateNative \<in> set (kinds (Rollback now reason t)) \<Longrightarrow> retired_first (kinds (Rollback now reason t))"
proof -
  assume t: "kinds t = []" and a: "ActivateNative \<in> set (kinds (Rollback now reason t))"
  have "kinds (Rollback now reason t) = [SuspendNative, RetireHosted, ActivateNative]"
  proof (cases "Active t")
    case True
    then show ?thesis using t a
      by (cases "tr_original t"; cases "tr_RollingBack t"; cases "tr_ownershipChanged t"; cases "tr_relayAvailable t"; cases "tr_Desired t")
        (simp_all add: Rollback_def PrepareDelegation_def Let_def)
  qed (use t a in \<open>simp add: Rollback_def\<close>)
  then show ?thesis unfolding retired_first_def
    by (intro exI [of _ "[SuspendNative, RetireHosted]"] exI [of _ "[]"]) simp
qed

lemma Rollback_relay [simp]: "tr_relayAvailable (Rollback now reason t) = tr_relayAvailable t"
  by (simp add: Rollback_def PrepareDelegation_def Let_def)

lemma RelayFailed_relay: "\<not> tr_relayAvailable (RelayFailed now t)"
  by (simp add: RelayFailed_def Let_def)

lemma Begin_kinds: "kinds t = [] \<Longrightarrow> Begin now d revision rs u t = Inr (t', x) \<Longrightarrow> ActivateNative \<notin> set (kinds t')"
  unfolding Begin_def Let_def
  by (cases "Active t"; cases "revision = 0 \<or> rs = [] \<or> 0 \<in> set rs"; cases u; cases d; cases "d = tr_Effective t") auto

lemma CommitSelection_kinds: "kinds t = [] \<Longrightarrow> ActivateNative \<notin> set (kinds (CommitSelection now m t))"
  by (cases m) (simp_all add: CommitSelection_def Let_def)

lemma Prepared_kinds:
  "kinds t = [] \<Longrightarrow> ActivateNative \<in> set (kinds (Transition_Prepared now g s t)) \<Longrightarrow>
     \<not> tr_relayAvailable (Transition_Prepared now g s t) \<or> retired_first (kinds (Transition_Prepared now g s t))"
proof (cases "g = tr_Generation t \<and> tr_Phase t = Preparing")
  case False
  assume "kinds t = []" "ActivateNative \<in> set (kinds (Transition_Prepared now g s t))"
  then show ?thesis using False by (auto simp: Transition_Prepared_def)
next
  case True
  assume k: "kinds t = []" "ActivateNative \<in> set (kinds (Transition_Prepared now g s t))"
  show ?thesis
  proof (cases s)
    case True
    then show ?thesis
      using k \<open>g = tr_Generation t \<and> tr_Phase t = Preparing\<close>
      by (cases "tr_Desired t"; cases "tr_relayAvailable t"; cases "tr_appliedRevision t = tr_mapRevision t")
        (simp_all add: Transition_Prepared_def PrepareDelegation_def Let_def Action_def, simp_all add: kinds_def)
  next
    case False
    then have "Transition_Prepared now g s t = Rollback now PreparationFailed t"
      using True by (simp add: Transition_Prepared_def)
    then show ?thesis using Rollback_activates k by metis
  qed
qed

text \<open>
  C7: the node activates its own connections only when the relay has confirmed their release for the outstanding
  request, when the relay is known to be gone, or after ordering the relay session to be retired.
\<close>

theorem activate_native_justified:
  assumes "tr_actions t = []" and "ActivateNative \<in> set (kinds (transition_apply now op t))"
  shows "(\<exists>reply r. op = OpReply reply \<and> tr_pending t = Some r \<and> rq_Action r = Release \<and> rp_Status reply = Released \<and>
      rp_RequestId reply = rq_RequestId r \<and> rp_Generation reply = tr_Generation t) \<or>
    \<not> tr_relayAvailable (transition_apply now op t) \<or>
    retired_first (kinds (transition_apply now op t))"
proof -
  have k: "kinds t = []" using assms(1) by (simp add: kinds_def)
  note a = assms(2)
  show ?thesis
  proof (cases op)
    case (OpBegin d revision rs u)
    then show ?thesis using a k Begin_kinds [OF k, of now d revision rs u]
      by (cases "Begin now d revision rs u t") auto
  next
    case (OpPrepared g s)
    then show ?thesis using a Prepared_kinds [OF k, of now g s] by simp
  next
    case (OpMapApplied revision)
    then show ?thesis using a k by (simp add: MapApplied_def PrepareDelegation_def Let_def split: if_splits)
  next
    case (OpMapChanged revision rs)
    then show ?thesis using a k by (simp add: MapChanged_def Let_def split: if_splits)
  next
    case (OpAbort f)
    then show ?thesis using a k by (simp add: Transition_Abort_def kinds_def split: if_splits)
  next
    case (OpReply reply)
    show ?thesis
    proof (cases "tr_pending t")
      case (Some r)
      then show ?thesis
      proof (cases rule: Reply_cases [of _ _ now reply])
        case failed
        then show ?thesis using a OpReply Rollback_activates [OF k] by simp
      next
        case released
        then show ?thesis using OpReply Some by blast
      next
        case ready
        then show ?thesis using a OpReply CommitSelection_kinds [OF k] by simp
      qed (use a k OpReply in auto)
    qed (use a k OpReply in \<open>simp add: Transition_Reply_def\<close>)
  next
    case (OpNativeReady g)
    then show ?thesis using a k CommitSelection_kinds [OF k] by (simp add: NativeReady_def split: if_splits)
  next
    case OpRelayFailed
    then show ?thesis using RelayFailed_relay by simp
  next
    case (OpCancel reason)
    then show ?thesis using a Rollback_activates [OF k] by (simp add: Transition_Cancel_def)
  next
    case OpTransitionPoll
    then show ?thesis using a k Rollback_activates [OF k]
      by (auto simp: Transition_Poll_def Finish_def split: option.splits if_splits)
  qed
qed

lemma example_releasing_state:
  "tr_actions example_releasing = []" "tr_Phase example_releasing = Releasing" "tr_Generation example_releasing = 1"
  "tr_relayAvailable example_releasing"
  "tr_pending example_releasing = Some \<lparr>rq_Generation = 1, rq_RequestId = 2, rq_MapRevision = 4, rq_Action = Release, rq_Regions = [1]\<rparr>"
  by code_simp+

theorem activate_native_justified_witness:
  "let t = example_releasing; u = transition_apply 9 (OpReply \<lparr>rp_Generation = 1, rp_RequestId = 2, rp_MapRevision = 4, rp_Status = Released, rp_Failure = NoFailure\<rparr>) t in
     tr_actions t = [] \<and> kinds u = [ActivateNative] \<and> (tr_relayAvailable u \<and> \<not> retired_first (kinds u) \<longrightarrow>
       (\<exists>r. tr_pending t = Some r \<and> rq_Action r = Release))"
proof -
  let ?op = "OpReply \<lparr>rp_Generation = 1, rp_RequestId = 2, rp_MapRevision = 4, rp_Status = Released, rp_Failure = NoFailure\<rparr>"
  have k: "kinds (transition_apply 9 ?op example_releasing) = [ActivateNative]"
    using example_releasing_state by (simp add: Transition_Reply_def Active_def kinds_def [of example_releasing])
  show ?thesis using activate_native_justified [of example_releasing 9 ?op] example_releasing_state(1) k
    by (auto simp: Let_def)
qed

lemma Rollback_ends: "tr_RollingBack t \<or> \<not> tr_ownershipChanged t \<Longrightarrow> \<not> Active (Rollback now reason t)"
proof -
  assume t: "tr_RollingBack t \<or> \<not> tr_ownershipChanged t"
  have "tr_Phase (Rollback now reason t) = TransitionFailed" if "Active t"
    using t that by (cases "tr_RollingBack t") (simp_all add: Rollback_def Let_def)
  then show ?thesis by (cases "Active t") (simp_all add: Active_def Rollback_def)
qed

text \<open>
  C11: no transition is stuck.  If nothing else happens, the first poll at or after the deadline ends the transition
  or starts a rollback with a new deadline 15 seconds later, and the first poll after that one ends it.
\<close>

theorem transition_times_out:
  assumes "transition_step\<^sup>*\<^sup>* (TransitionCoordinator initial, native0) (t, native)" and "Active t"
  shows "\<exists>d. tr_deadline t = Some d \<and> (\<forall>now \<ge> d. \<not> Active (Transition_Poll now t) \<or>
    (tr_deadline (Transition_Poll now t) = Some (now + OperationTimeout) \<and>
     (\<forall>now' \<ge> now + OperationTimeout. \<not> Active (Transition_Poll now' (Transition_Poll now t)))))"
proof -
  obtain d where d: "tr_deadline t = Some d"
    using transition_reachable [OF assms(1)] assms(2) by (auto simp: transition_ok_def)
  have "\<not> Active (Transition_Poll now t) \<or>
    (tr_deadline (Transition_Poll now t) = Some (now + OperationTimeout) \<and>
     (\<forall>now' \<ge> now + OperationTimeout. \<not> Active (Transition_Poll now' (Transition_Poll now t))))" if "d \<le> now" for now
  proof (cases "tr_Phase t = Draining \<or> tr_RollingBack t \<or> \<not> tr_ownershipChanged t")
    case True
    have "\<not> Active (Finish t)" by (simp add: Finish_def Active_def)
    then show ?thesis using True Rollback_ends [of t now Timeout] d that by (auto simp: Transition_Poll_def)
  next
    case False
    let ?u = "Rollback now Timeout t"
    have u: "Transition_Poll now t = ?u" using False d that by (simp add: Transition_Poll_def)
    have r: "tr_RollingBack ?u" "tr_Phase ?u \<noteq> Draining" "tr_deadline ?u = Some (now + OperationTimeout) \<or> \<not> Active ?u"
      using False assms(2) by (simp_all add: Rollback_def PrepareDelegation_def Let_def) (simp_all add: Active_def)
    then show ?thesis using u Rollback_ends [of ?u _ Timeout] by (auto simp: Transition_Poll_def)
  qed
  then show ?thesis using d by blast
qed

theorem transition_times_out_witness:
  "\<exists>t native d. transition_step\<^sup>*\<^sup>* (TransitionCoordinator Native, True) (t, native) \<and> Active t \<and> tr_deadline t = Some d \<and>
     (\<not> Active (Transition_Poll d t) \<or> \<not> Active (Transition_Poll (d + OperationTimeout) (Transition_Poll d t)))"
proof -
  let ?t = "transition_apply 0 (OpBegin Hosted 4 [2, 1, 2] True) (TransitionCoordinator Native)"
  have a: "Active ?t" by code_simp
  have s: "transition_step\<^sup>*\<^sup>* (TransitionCoordinator Native, True) (?t, True)"
    by (rule r_into_rtranclp) (rule transition_step.operation)
  obtain d where "tr_deadline ?t = Some d"
    "\<not> Active (Transition_Poll d ?t) \<or> \<not> Active (Transition_Poll (d + OperationTimeout) (Transition_Poll d ?t))"
    using transition_times_out [OF s a] by auto
  then show ?thesis using s a by blast
qed

end
