(* ===== verification/Handover.thy ===== *)
theory Handover
  imports Derp_Ownership Transition
begin

text \<open>
  The hand-over of the DERP connections between a node and its relay, both sides together: the coordinator of
  \<open>Transition\<close> driven by \<^verbatim>\<open>src/core/ipn/ipnlocal/SwitchingNode.cpp\<close> on the node, the lease of \<open>Derp_Ownership\<close> driven by
  \<^verbatim>\<open>src/core/ipn/ipnlocal/DelegatedNode.cpp\<close> on the relay, and the two directions of the stream between them as
  queues of encoded frames.  The life of one relay session is considered, from the moment the hosted transport
  has been started until it is retired.
\<close>

section \<open>What the relay answers\<close>

text \<open>Every frame the call adds to the output encodes a reply \<open>p\<close> with \<open>Q p l'\<close>, where \<open>l'\<close> is the state after the call.\<close>

definition emits :: "(delegation_reply \<Rightarrow> lease \<Rightarrow> bool) \<Rightarrow> lease \<Rightarrow> lease_res \<Rightarrow> bool" where
  "emits Q l m \<longleftrightarrow> (\<forall>l'. m = Inr l' \<or> (\<exists>x. m = Inl (Throw (x, l'))) \<longrightarrow>
     (\<exists>added. ls_output l' = ls_output l @ added \<and> (\<forall>g \<in> set added. \<exists>p. EncodeDelegationReply p = Inr g \<and> Q p l')))"

lemma emits_bind:
  assumes m: "emits (\<lambda>p _. R p) l m" and "\<And>p l'. R p \<Longrightarrow> Q p l'" and f: "\<And>l1. m = Inr l1 \<Longrightarrow> emits Q l1 (f l1)"
  shows "emits Q l (bindE m f)"
proof (cases m)
  case (Inl a)
  then show ?thesis using m assms(2) by (fastforce simp: emits_def)
next
  case (Inr l1)
  from m Inr obtain a where a: "ls_output l1 = ls_output l @ a" "\<forall>g \<in> set a. \<exists>p. EncodeDelegationReply p = Inr g \<and> R p"
    by (auto simp: emits_def)
  show ?thesis unfolding emits_def
  proof (intro allI impI)
    fix l'
    assume l': "bindE m f = Inr l' \<or> (\<exists>x. bindE m f = Inl (Throw (x, l')))"
    then obtain c where "ls_output l' = ls_output l1 @ c" "\<forall>g \<in> set c. \<exists>p. EncodeDelegationReply p = Inr g \<and> Q p l'"
      using f [OF Inr] Inr by (auto simp: emits_def)
    then show "\<exists>added. ls_output l' = ls_output l @ added \<and> (\<forall>g \<in> set added. \<exists>p. EncodeDelegationReply p = Inr g \<and> Q p l')"
      using a assms(2) by (intro exI [of _ "a @ c"]) fastforce
  qed
qed

lemma emits_same: "(\<And>l'. m = Inr l' \<or> (\<exists>x. m = Inl (Throw (x, l'))) \<Longrightarrow> ls_output l' = ls_output l) \<Longrightarrow> emits Q l m"
  unfolding emits_def by (metis append_Nil2 empty_iff list.set(1))

lemma emits_refl [simp]: "emits Q l (Inr l)" "emits Q l (Inl (Throw (x, l)))" "emits Q l (Inl Fault)"
  by (simp_all add: emits_def)

lemma push_reply_emits: "(\<And>l'. ls_derps l' = ls_derps l \<Longrightarrow> Q p l') \<Longrightarrow> emits Q l (push_reply p l)"
  by (cases "EncodeDelegationReply p") (auto simp: emits_def push_reply_def in_lease_def lift_relay_def split: exn.splits)

lemma Lease_Reply_emits:
  assumes "ls_request l = Some r"
    and "\<And>p l'. rp_Status p = status \<Longrightarrow> rp_RequestId p = rq_RequestId r \<Longrightarrow> ls_derps l' = ls_derps l \<Longrightarrow> Q p l'"
  shows "emits Q l (Lease_Reply status failure l)"
proof (cases "MaximumReplies \<le> length (ls_output l)")
  case True
  then show ?thesis by (intro emits_same) (auto simp: Lease_Reply_def)
next
  case False
  let ?p = "\<lparr>rp_Generation = rq_Generation r, rp_RequestId = rq_RequestId r, rp_MapRevision = rq_MapRevision r,
    rp_Status = status, rp_Failure = failure\<rparr>"
  have "emits Q (l\<lparr>ls_reply := Some ?p\<rparr>) (push_reply ?p (l\<lparr>ls_reply := Some ?p\<rparr>))"
    by (rule push_reply_emits) (simp add: assms(2))
  then show ?thesis using False assms(1) by (simp add: Lease_Reply_def Let_def emits_def)
qed

lemma Lease_Fail_emits:
  assumes "\<And>p l'. rp_Status p = Failed \<Longrightarrow> rp_RequestId p = rq_RequestId request \<Longrightarrow> Q p l'"
  shows "emits Q l (Lease_Fail request failure l)"
proof (cases "MaximumReplies \<le> length (ls_output l)")
  case True
  then show ?thesis by (intro emits_same) (auto simp: Lease_Fail_def)
next
  case False
  then show ?thesis using push_reply_emits [of l Q] assms by (simp add: Lease_Fail_def)
qed

lemma Enable_output:
  "Enable e b l = Inr l' \<or> (\<exists>x. Enable e b l = Inl (Throw (x, l'))) \<Longrightarrow> ls_output l' = ls_output l \<and> ls_request l' = ls_request l"
  by (auto simp: Enable_def in_lease_def bindE_def split: sum.splits exn.splits)

definition timed_reply :: "delegation_request option \<Rightarrow> delegation_reply \<Rightarrow> bool" where
  "timed_reply q p \<longleftrightarrow> rp_Status p \<noteq> Released \<and> (\<exists>r. q = Some r \<and> rp_RequestId p = rq_RequestId r)"

lemma Poll_emits: "emits (\<lambda>p _. timed_reply (ls_request l) p) l (Poll e l)"
proof (cases "ls_deadline l")
  case (Some t)
  show ?thesis
  proof (cases "t \<le> de_now e")
    case True
    have "Poll e l = bindE (if ls_changedOwnership l then Enable e False l else Inr l)
        (\<lambda>l'. Lease_Reply Failed LeaseExpired (l'\<lparr>ls_deadline := None\<rparr>))"
      using Some True by (simp add: Poll_def)
    moreover have "emits (\<lambda>p _. timed_reply (ls_request l) p) l \<dots>"
    proof (rule emits_bind [where R = "\<lambda>_. False"])
      show "emits (\<lambda>_ _. False) l (if ls_changedOwnership l then Enable e False l else Inr l)"
        by (rule emits_same) (use Enable_output [of e False l] in \<open>auto split: if_splits\<close>)
      fix l1
      assume "(if ls_changedOwnership l then Enable e False l else Inr l) = Inr l1"
      then have r: "ls_request l1 = ls_request l" "ls_output l1 = ls_output l" using Enable_output [of e False l l1] by (auto split: if_splits)
      show "emits (\<lambda>p _. timed_reply (ls_request l) p) l1 (Lease_Reply Failed LeaseExpired (l1\<lparr>ls_deadline := None\<rparr>))"
      proof (cases "ls_request l")
        case None
        then show ?thesis using r by (intro emits_same) (auto simp: Lease_Reply_def split: if_splits)
      next
        case (Some q)
        then have "emits (\<lambda>p _. timed_reply (ls_request l) p) (l1\<lparr>ls_deadline := None\<rparr>) (Lease_Reply Failed LeaseExpired (l1\<lparr>ls_deadline := None\<rparr>))"
          using r by (intro Lease_Reply_emits) (simp_all add: timed_reply_def)
        then show ?thesis by (simp add: emits_def)
      qed
    qed simp
    ultimately show ?thesis by simp
  next
    case False
    show ?thesis
    proof (cases "ls_request l")
      case None
      then show ?thesis using Some False by (intro emits_same) (simp add: Poll_def)
    next
      case q: (Some q)
      have "emits (\<lambda>p _. timed_reply (ls_request l) p) l (Lease_Reply Ready NoFailure l)"
        using q by (intro Lease_Reply_emits) (simp_all add: timed_reply_def)
      then show ?thesis using Some False q
        by (auto simp: Poll_def in_lease_def bindE_def split: sum.splits exn.splits)
    qed
  qed
qed (simp add: Poll_def)

text \<open>The answer to a request bears its number or, when the poll at the beginning reports, that of the request before.\<close>

definition accept_reply :: "delegation_request \<Rightarrow> lease \<Rightarrow> delegation_reply \<Rightarrow> lease \<Rightarrow> bool" where
  "accept_reply request l p l' \<longleftrightarrow>
     timed_reply (ls_request l) p \<or> rp_RequestId p = rq_RequestId request \<and> (rp_Status p = Released \<longrightarrow> \<not> owned l')"

lemma perform_emits:
  assumes l: "lease_ok l" and e: "de_ok e"
  shows "emits (\<lambda>p l'. rp_RequestId p = rq_RequestId request \<and> (rp_Status p = Released \<longrightarrow> \<not> owned l')) l (perform e request l)"
  unfolding perform_def
proof (rule emits_bind [where R = "\<lambda>_. False"])
  show "emits (\<lambda>_ _. False) l
      (if ls_changedOwnership l \<and> (case ls_request l of None \<Rightarrow> False | Some r \<Rightarrow> rq_Generation request > rq_Generation r) then Enable e False l else Inr l)"
    by (rule emits_same) (use Enable_output [of e False l] in \<open>auto split: if_splits\<close>)
next
  fix l1
  assume start: "(if ls_changedOwnership l \<and> (case ls_request l of None \<Rightarrow> False | Some r \<Rightarrow> rq_Generation request > rq_Generation r)
    then Enable e False l else Inr l) = Inr l1"
  obtain d where "l1 = l\<lparr>ls_derps := d\<rparr>" "owner_ok d" using start_ok [OF l e, of request] start by auto
  let ?Q = "\<lambda>p l'. rp_RequestId p = rq_RequestId request \<and> (rp_Status p = Released \<longrightarrow> \<not> owned l')"
  let ?l2 = "l1\<lparr>ls_request := Some request, ls_reply := None, ls_deadline := Some (de_now e + LeaseDuration)\<rparr>"
  have o2: "owner_ok (ls_derps ?l2)" using \<open>l1 = _\<close> \<open>owner_ok d\<close> by simp
  show "emits ?Q l1 (let l2 = ?l2 in case rq_Action request of
       Prepare \<Rightarrow> Lease_Reply Prepared NoFailure (l2\<lparr>ls_changedOwnership := False\<rparr>)
     | Release \<Rightarrow> bindE (Enable e False l2) (\<lambda>l3. Lease_Reply Released NoFailure (l3\<lparr>ls_changedOwnership := True\<rparr>))
     | Acquire \<Rightarrow> bindE (Enable e True l2) (\<lambda>l3. Poll e (l3\<lparr>ls_changedOwnership := True\<rparr>))
     | Commit \<Rightarrow> Lease_Reply Committed NoFailure (l2\<lparr>ls_deadline := None, ls_changedOwnership := False\<rparr>))"
  proof (cases "rq_Action request")
    case Prepare
    have "emits ?Q (?l2\<lparr>ls_changedOwnership := False\<rparr>) (Lease_Reply Prepared NoFailure (?l2\<lparr>ls_changedOwnership := False\<rparr>))"
      by (rule Lease_Reply_emits) simp_all
    then show ?thesis using Prepare by (simp add: Let_def emits_def)
  next
    case Commit
    have "emits ?Q (?l2\<lparr>ls_deadline := None, ls_changedOwnership := False\<rparr>)
        (Lease_Reply Committed NoFailure (?l2\<lparr>ls_deadline := None, ls_changedOwnership := False\<rparr>))"
      by (rule Lease_Reply_emits) simp_all
    then show ?thesis using Commit by (simp add: Let_def emits_def)
  next
    case Release
    obtain s where s: "Enable e False ?l2 = Inr (?l2\<lparr>ls_derps := (ls_derps ?l2)\<lparr>dcs_enabled := False, dcs_session := s\<rparr>\<rparr>)"
      using Enable_ok [OF o2 e] by blast
    let ?l3 = "(?l2\<lparr>ls_derps := (ls_derps ?l2)\<lparr>dcs_enabled := False, dcs_session := s\<rparr>\<rparr>)\<lparr>ls_changedOwnership := True\<rparr>"
    have "emits ?Q ?l3 (Lease_Reply Released NoFailure ?l3)"
      by (rule Lease_Reply_emits) (simp_all add: owned_def)
    then show ?thesis using Release s by (simp add: Let_def emits_def)
  next
    case Acquire
    obtain s where s: "Enable e True ?l2 = Inr (?l2\<lparr>ls_derps := (ls_derps ?l2)\<lparr>dcs_enabled := True, dcs_session := s\<rparr>\<rparr>)"
      using Enable_ok [OF o2 e] by blast
    let ?l3 = "(?l2\<lparr>ls_derps := (ls_derps ?l2)\<lparr>dcs_enabled := True, dcs_session := s\<rparr>\<rparr>)\<lparr>ls_changedOwnership := True\<rparr>"
    have "emits (\<lambda>p _. timed_reply (ls_request ?l3) p) ?l3 (Poll e ?l3)" by (rule Poll_emits)
    then have "emits ?Q ?l3 (Poll e ?l3)" unfolding emits_def by (auto simp: timed_reply_def) blast+
    then show ?thesis using Acquire s by (simp add: Let_def emits_def)
  qed
qed simp

lemma Lease_Accept_emits:
  assumes l: "lease_ok l" and e: "de_ok e"
  shows "emits (accept_reply request l) l (Lease_Accept e request l)"
  unfolding Lease_Accept_def
proof (rule emits_bind [OF Poll_emits])
  fix l1
  assume p: "Poll e l = Inr l1"
  then have l1: "lease_ok l1" using Poll_ok [OF l e] by (simp add: polled_def)
  show "emits (accept_reply request l) l1
     (if ls_request l1 = Some request then
       (case ls_reply l1 of None \<Rightarrow> Inr l1
        | Some reply \<Rightarrow>
            if length (ls_output l1) \<ge> MaximumReplies then Inl (Throw (no_buffer_space, l1)) else push_reply reply l1)
      else (case refusal request l1 of
        Some failure \<Rightarrow> Lease_Fail request failure l1
      | None \<Rightarrow> perform e request l1))"
  proof (cases "ls_request l1 = Some request")
    case True
    show ?thesis
    proof (cases "ls_reply l1")
      case (Some reply)
      have r: "rp_RequestId reply = rq_RequestId request" "rp_Status reply = Released \<Longrightarrow> \<not> owned l1"
        using l1 True Some by (auto simp: lease_ok_def reply_for_def reply_status_def)
      have "emits (accept_reply request l) l1 (push_reply reply l1)"
        using r by (intro push_reply_emits) (auto simp: accept_reply_def owned_def)
      then show ?thesis using True Some by simp
    qed (use True in simp)
  next
    case False
    show ?thesis
    proof (cases "refusal request l1")
      case None
      have "emits (accept_reply request l) l1 (perform e request l1)"
        using perform_emits [OF l1 e, of request] unfolding emits_def by (auto simp: accept_reply_def) blast+
      then show ?thesis using False None by simp
    next
      case (Some failure)
      have "emits (accept_reply request l) l1 (Lease_Fail request failure l1)"
        by (rule Lease_Fail_emits) (simp add: accept_reply_def)
      then show ?thesis using False Some by simp
    qed
  qed
qed (simp add: accept_reply_def)

section \<open>What the coordinator adds to its actions\<close>

definition deleg :: "transition_action list \<Rightarrow> delegation_request list" where
  "deleg as = List.map_filter ta_Delegation as"

definition has :: "action_kind \<Rightarrow> transition_action list \<Rightarrow> bool" where
  "has k as \<longleftrightarrow> k \<in> ta_Kind ` set as"

text \<open>From a request to acquire on, no action activates the native connections.\<close>

fun acquire_final :: "transition_action list \<Rightarrow> bool" where
  "acquire_final [] = True"
| "acquire_final (a # as) \<longleftrightarrow> (asks_acquire a \<longrightarrow> \<not> has ActivateNative (a # as)) \<and> acquire_final as"

lemma deleg_simps [simp]:
  "deleg [] = []" "deleg (xs @ ys) = deleg xs @ deleg ys"
  "deleg (a # as) = (case ta_Delegation a of None \<Rightarrow> deleg as | Some r \<Rightarrow> r # deleg as)"
  by (simp_all add: deleg_def List.map_filter_def split: option.splits)

lemma has_simps [simp]: "\<not> has k []" "has k (a # as) \<longleftrightarrow> ta_Kind a = k \<or> has k as" "has k (xs @ ys) \<longleftrightarrow> has k xs \<or> has k ys"
  by (auto simp: has_def)

lemma acquire_final_append [simp]:
  "acquire_final (xs @ ys) \<longleftrightarrow> acquire_final xs \<and> acquire_final ys \<and> ((\<exists>a \<in> set xs. asks_acquire a) \<longrightarrow> \<not> has ActivateNative ys)"
  by (induction xs) auto

definition effect :: "transition \<Rightarrow> transition \<Rightarrow> transition_action list \<Rightarrow> bool" where
  "effect t t' added \<longleftrightarrow> (tr_actions t' = tr_actions t @ added \<or> tr_actions t' = added) \<and>
     (\<forall>a \<in> set added. ta_Generation a = tr_Generation t') \<and> acquire_final added \<and>
     (deleg added = [] \<and> tr_requestId t' = tr_requestId t \<and> (tr_pending t' = tr_pending t \<or> tr_pending t' = None) \<or>
      (\<exists>r. deleg added = [r] \<and> rq_RequestId r = tr_requestId t' \<and> tr_requestId t' = tr_requestId t + 1 \<and> tr_pending t' = Some r)) \<and>
     (tr_Generation t' = tr_Generation t \<or> tr_Generation t' = tr_Generation t + 1) \<and> (tr_relayAvailable t \<longrightarrow> tr_relayAvailable t')"

text \<open>The native connections are activated only together with the end of the relay session.\<close>

definition quiet_effect :: "transition \<Rightarrow> transition \<Rightarrow> bool" where
  "quiet_effect t t' \<longleftrightarrow> (\<exists>added. effect t t' added \<and>
     (has ActivateNative added \<longrightarrow> tr_actions t' = added \<and> has RetireHosted added))"

lemmas effect_eval = effect_def Action_def Request_def PrepareDelegation_def Let_def asks_acquire_def

text \<open>The queue was emptied first, or only appended to.\<close>

lemma quiet_cleared:
  "effect t t' (tr_actions t') \<and> (has ActivateNative (tr_actions t') \<longrightarrow> has RetireHosted (tr_actions t')) \<Longrightarrow> quiet_effect t t'"
  by (auto simp: quiet_effect_def)

lemma quiet_kept:
  "effect t t' (drop (length (tr_actions t)) (tr_actions t')) \<and> \<not> has ActivateNative (drop (length (tr_actions t)) (tr_actions t')) \<Longrightarrow>
     quiet_effect t t'"
  by (auto simp: quiet_effect_def)

lemma quiet_same: "tr_actions t' = tr_actions t \<Longrightarrow> tr_requestId t' = tr_requestId t \<Longrightarrow> tr_pending t' = tr_pending t \<or> tr_pending t' = None \<Longrightarrow>
    tr_Generation t' = tr_Generation t \<or> tr_Generation t' = tr_Generation t + 1 \<Longrightarrow> (tr_relayAvailable t \<longrightarrow> tr_relayAvailable t') \<Longrightarrow> quiet_effect t t'"
  by (auto simp: quiet_effect_def effect_def intro!: exI [of _ "[]"])

lemma Rollback_effect: "quiet_effect t (Rollback now reason t)"
proof (cases "Active t")
  case True
  show ?thesis
  proof (cases "tr_RollingBack t \<or> \<not> tr_ownershipChanged t")
    case over: True
    then show ?thesis using True
      by (intro quiet_cleared, cases "tr_RollingBack t") (auto simp: Rollback_def effect_eval)
  next
    case False
    then show ?thesis using True
      by (intro quiet_cleared, cases "tr_relayAvailable t"; cases "tr_original t") (auto simp: Rollback_def effect_eval)
  qed
qed (simp add: Rollback_def quiet_same)

lemma CommitSelection_effect: "quiet_effect t (CommitSelection now m t)"
  by (rule quiet_kept) (auto simp: CommitSelection_def effect_eval)

lemma Prepared_effect: "tr_relayAvailable t \<Longrightarrow> quiet_effect t (Transition_Prepared now g s t)"
proof (cases "tr_Phase t = Preparing \<and> g = tr_Generation t \<and> s")
  case True
  assume "tr_relayAvailable t"
  then show ?thesis using True by (intro quiet_kept) (auto simp: Transition_Prepared_def effect_eval)
next
  case False
  then show ?thesis using Rollback_effect by (auto simp: Transition_Prepared_def quiet_same)
qed

lemma Begin_effect: "Begin now d revision rs u t = Inr (t', x) \<Longrightarrow> quiet_effect t t'"
  by (rule quiet_kept) (auto simp: Begin_def effect_eval split: if_splits)

lemma MapApplied_effect: "quiet_effect t (MapApplied now revision t)"
  by (rule quiet_kept) (auto simp: MapApplied_def effect_eval)

lemma MapChanged_effect: "quiet_effect t (MapChanged now revision rs t)"
proof (cases "Active t \<and> tr_Phase t \<noteq> Preparing \<and> tr_Phase t \<noteq> Draining")
  case True
  then show ?thesis by (intro quiet_cleared) (auto simp: MapChanged_def effect_eval)
next
  case False
  then show ?thesis by (intro quiet_same) (auto simp: MapChanged_def Let_def)
qed

lemma NativeReady_effect: "quiet_effect t (NativeReady now g t)"
  using CommitSelection_effect by (simp add: NativeReady_def quiet_same)

lemma Poll_effect: "quiet_effect t (Transition_Poll now t)"
proof -
  have "quiet_effect t (Finish t)" by (rule quiet_kept) (auto simp: Finish_def effect_eval)
  then show ?thesis using Rollback_effect by (simp add: Transition_Poll_def quiet_same split: option.split)
qed

lemma Reply_effect:
  assumes "tr_pending t = Some r"
  shows "quiet_effect t (Transition_Reply now p t) \<or>
    (\<exists>a. effect t (Transition_Reply now p t) [a] \<and> ta_Kind a = ActivateNative \<and> rq_Action r = Release \<and> rp_Status p = Released \<and>
      rp_RequestId p = rq_RequestId r)"
  using assms
proof (cases rule: Reply_cases [of _ _ now p])
  case prepared
  then have "quiet_effect t (Transition_Reply now p t)" by (intro quiet_kept) (auto simp: effect_eval)
  then show ?thesis ..
next
  case released
  let ?a = "\<lparr>ta_Kind = ActivateNative, ta_Generation = tr_Generation t, ta_Delegation = None\<rparr>"
  have "effect t (Transition_Reply now p t) [?a]" using released(6) by (simp add: effect_eval)
  then show ?thesis using released(1-3) by (intro disjI2 exI [of _ ?a]) simp
next
  case committed
  then have "quiet_effect t (Transition_Reply now p t)" by (intro quiet_same) simp_all
  then show ?thesis ..
qed (use Rollback_effect CommitSelection_effect in \<open>simp_all add: quiet_same\<close>)

fun coordinator_op :: "transition_op \<Rightarrow> bool" where
  "coordinator_op (OpReply _) = False"
| "coordinator_op OpRelayFailed = False"
| "coordinator_op (OpAbort _) = False"
| "coordinator_op _ = True"

lemma op_effect:
  assumes "coordinator_op op" and "tr_relayAvailable t"
  shows "quiet_effect t (transition_apply now op t)"
proof (cases op)
  case (OpBegin d revision rs u)
  then show ?thesis using Begin_effect [of now d revision rs u t] by (cases "Begin now d revision rs u t") (auto simp: quiet_same)
qed (use assms Prepared_effect MapApplied_effect MapChanged_effect NativeReady_effect Rollback_effect Poll_effect in
    \<open>simp_all add: Transition_Cancel_def\<close>)

section \<open>One relay session\<close>

record handover =
  ho_node :: transition
  ho_native :: bool
  ho_up :: "frame list"
  ho_lease :: lease
  ho_down :: "frame list"

text \<open>
  A step is a call of the coordinator, a reply read from the stream, the host carrying out the actions, a request
  read by the relay, another event at the relay, or the relay sending its replies.  The host step excludes the
  actions that begin or end a relay session; calls that report or cause its loss (\<open>RelayFailed\<close>, \<open>Abort\<close>) are excluded
  too.  Generations and request numbers are 64 bits wide and are assumed not to wrap around.
\<close>

definition no_wrap :: "transition \<Rightarrow> transition \<Rightarrow> bool" where
  "no_wrap t t' \<longleftrightarrow> tr_Generation t \<le> tr_Generation t' \<and> tr_requestId t \<le> tr_requestId t'"

definition outcome :: "lease_res \<Rightarrow> lease \<Rightarrow> bool" where
  "outcome m l' \<longleftrightarrow> m = Inr l' \<or> (\<exists>x. m = Inl (Throw (x, l')))"

inductive handover_step :: "handover \<Rightarrow> handover \<Rightarrow> bool" where
  operation: "coordinator_op op \<Longrightarrow> no_wrap (ho_node h) (transition_apply now op (ho_node h)) \<Longrightarrow>
    handover_step h (h\<lparr>ho_node := transition_apply now op (ho_node h)\<rparr>)"
| reply: "ho_down h = g # gs \<Longrightarrow> DecodeDelegationReply g = Inr (Some p) \<Longrightarrow> no_wrap (ho_node h) (Transition_Reply now p (ho_node h)) \<Longrightarrow>
    handover_step h (h\<lparr>ho_node := Transition_Reply now p (ho_node h), ho_down := gs\<rparr>)"
| host: "\<not> has RetireHosted (live (ho_node h)) \<Longrightarrow> \<not> has ActivateHosted (live (ho_node h)) \<Longrightarrow>
    list_all2 (\<lambda>r f. EncodeDelegationRequest r = Inr f) (deleg (live (ho_node h))) fs \<Longrightarrow>
    handover_step h (h\<lparr>ho_node := fst (TakeActions (ho_node h)), ho_native := native_after (live (ho_node h)) (ho_native h),
      ho_up := ho_up h @ fs\<rparr>)"
| relay: "ho_up h = f # fs \<Longrightarrow> DecodeDelegationRequest f = Inr (Some r) \<Longrightarrow> de_ok e \<Longrightarrow> outcome (Lease_Accept e r (ho_lease h)) l' \<Longrightarrow>
    handover_step h (h\<lparr>ho_up := fs, ho_lease := l'\<rparr>)"
| relay_event: "de_ok e \<Longrightarrow> lease_op_ok op \<Longrightarrow> (\<And>r. op \<noteq> OpAccept r) \<Longrightarrow> op \<noteq> OpTakeOutput \<Longrightarrow>
    outcome (lease_apply e op (ho_lease h)) l' \<Longrightarrow> handover_step h (h\<lparr>ho_lease := l'\<rparr>)"
| relay_send: "TakeOutput (ho_lease h) = (l', out) \<Longrightarrow> handover_step h (h\<lparr>ho_lease := l', ho_down := ho_down h @ out\<rparr>)"

text \<open>
  The hosted transport has just been started: the native connections are suspended, no request is outstanding,
  and the relay has a new session.
\<close>

definition session_start :: "handover \<Rightarrow> bool" where
  "session_start h \<longleftrightarrow> (\<exists>m b. transition_step\<^sup>*\<^sup>* (TransitionCoordinator m, b) (ho_node h, False)) \<and> tr_actions (ho_node h) = [] \<and>
     tr_pending (ho_node h) = None \<and> tr_relayAvailable (ho_node h) \<and> \<not> ho_native h \<and> ho_up h = [] \<and> ho_lease h = new_lease \<and> ho_down h = []"

section \<open>The invariant of the session\<close>

definition asked :: "frame list \<Rightarrow> delegation_request list" where
  "asked fs = List.map_filter (\<lambda>f. case DecodeDelegationRequest f of Inr (Some r) \<Rightarrow> Some r | _ \<Rightarrow> None) fs"

definition told :: "frame list \<Rightarrow> delegation_reply list" where
  "told gs = List.map_filter (\<lambda>g. case DecodeDelegationReply g of Inr (Some p) \<Rightarrow> Some p | _ \<Rightarrow> None) gs"

text \<open>The requests the relay has not read yet, and the replies the node has not read yet.\<close>

definition unread_requests :: "handover \<Rightarrow> delegation_request list" where
  "unread_requests h = asked (ho_up h) @ deleg (tr_actions (ho_node h))"

definition replies :: "handover \<Rightarrow> delegation_reply list" where
  "replies h = told (ho_down h @ ls_output (ho_lease h))"

text \<open>The numbers the relay has already seen.\<close>

definition seen_ids :: "handover \<Rightarrow> u64 set" where
  "seen_ids h = rp_RequestId ` set (replies h) \<union> rq_RequestId ` set_option (ls_request (ho_lease h))"

definition ordered :: "handover \<Rightarrow> bool" where
  "ordered h \<longleftrightarrow> sorted_wrt (\<lambda>q r. rq_RequestId q < rq_RequestId r) (unread_requests h) \<and>
     (\<forall>i \<in> seen_ids h. i \<le> tr_requestId (ho_node h) \<and> (\<forall>r \<in> set (unread_requests h). i < rq_RequestId r)) \<and>
     (\<forall>r \<in> set (unread_requests h). rq_RequestId r \<le> tr_requestId (ho_node h))"

definition released_true :: "handover \<Rightarrow> bool" where
  "released_true h \<longleftrightarrow> (\<forall>p \<in> set (replies h). rp_Status p = Released \<and> rp_RequestId p = tr_requestId (ho_node h) \<longrightarrow> \<not> owned (ho_lease h))"

definition acquire_unsent :: "transition \<Rightarrow> bool" where
  "acquire_unsent t \<longleftrightarrow> acquire_final (live t) \<and>
     ((\<exists>a \<in> set (live t). asks_acquire a) \<longrightarrow> (\<forall>r. tr_pending t = Some r \<longrightarrow> r \<in> set (deleg (tr_actions t))))"

definition exclusive :: "handover \<Rightarrow> bool" where
  "exclusive h \<longleftrightarrow> (ho_native h \<or> has ActivateNative (live (ho_node h)) \<and> \<not> has RetireHosted (live (ho_node h)) \<longrightarrow>
     \<not> owned (ho_lease h) \<and> (\<forall>r \<in> set (asked (ho_up h)). rq_Action r \<noteq> Acquire))"

definition handover_ok :: "handover \<Rightarrow> bool" where
  "handover_ok h \<longleftrightarrow> transition_ok (ho_node h, ho_native h) \<and> lease_ok (ho_lease h) \<and> tr_relayAvailable (ho_node h) \<and>
     (\<forall>a \<in> set (tr_actions (ho_node h)). ta_Generation a \<le> tr_Generation (ho_node h)) \<and>
     ordered h \<and> released_true h \<and> acquire_unsent (ho_node h) \<and> exclusive h"

lemma asked_simps [simp]: "asked [] = []" "asked (xs @ ys) = asked xs @ asked ys"
  by (simp_all add: asked_def List.map_filter_def)

lemma told_simps [simp]: "told [] = []" "told (xs @ ys) = told xs @ told ys"
  by (simp_all add: told_def List.map_filter_def)

lemma asked_Cons: "DecodeDelegationRequest f = Inr (Some r) \<Longrightarrow> asked (f # fs) = r # asked fs"
  by (simp add: asked_def)

lemma told_iff: "p \<in> set (told gs) \<longleftrightarrow> (\<exists>g \<in> set gs. DecodeDelegationReply g = Inr (Some p))"
proof (induction gs)
  case (Cons g gs)
  have "told (g # gs) = told [g] @ told gs" using told_simps(2) [of "[g]" gs] by simp
  moreover have "p \<in> set (told [g]) \<longleftrightarrow> DecodeDelegationReply g = Inr (Some p)"
    by (auto simp: told_def split: sum.splits option.splits)
  ultimately show ?case using Cons by simp
qed simp

lemma asked_iff: "r \<in> set (asked fs) \<longleftrightarrow> (\<exists>f \<in> set fs. DecodeDelegationRequest f = Inr (Some r))"
proof (induction fs)
  case (Cons f fs)
  have "asked (f # fs) = asked [f] @ asked fs" using asked_simps(2) [of "[f]" fs] by simp
  moreover have "r \<in> set (asked [f]) \<longleftrightarrow> DecodeDelegationRequest f = Inr (Some r)"
    by (auto simp: asked_def split: sum.splits option.splits)
  ultimately show ?case using Cons by simp
qed simp

lemma encoded_asked: "list_all2 (\<lambda>r f. EncodeDelegationRequest r = Inr f) rs fs \<Longrightarrow> asked fs = rs"
proof (induction rule: list_all2_induct)
  case (Cons r rs f fs)
  then have "DecodeDelegationRequest f = Inr (Some r)" using delegation_request.dec_iff_enc [of f r] by simp
  then show ?case using Cons by (simp add: asked_Cons)
qed simp

lemma encoded_told: "\<forall>g \<in> set gs. \<exists>p. EncodeDelegationReply p = Inr g \<and> P p \<Longrightarrow> p \<in> set (told gs) \<Longrightarrow> P p"
proof -
  assume g: "\<forall>g \<in> set gs. \<exists>p. EncodeDelegationReply p = Inr g \<and> P p" and "p \<in> set (told gs)"
  then obtain g where "g \<in> set gs" "DecodeDelegationReply g = Inr (Some p)"
    by (auto simp: told_iff)
  moreover from this g obtain q where "EncodeDelegationReply q = Inr g" "P q" by blast
  moreover from this have "DecodeDelegationReply g = Inr (Some q)" using delegation_reply.dec_iff_enc [of g q] by simp
  ultimately show "P p" by simp
qed

lemma deleg_filter: "set (deleg (filter Q as)) \<subseteq> set (deleg as)"
  "sorted_wrt R (deleg as) \<Longrightarrow> sorted_wrt R (deleg (filter Q as))"
proof -
  show 1: "set (deleg (filter Q as)) \<subseteq> set (deleg as)" for as by (auto simp: deleg_def List.map_filter_def)
  show "sorted_wrt R (deleg as) \<Longrightarrow> sorted_wrt R (deleg (filter Q as))"
    by (induction as) (use 1 in \<open>auto split: option.splits\<close>)
qed

lemma asks_acquire_deleg: "(\<exists>a \<in> set as. asks_acquire a) \<longleftrightarrow> (\<exists>r \<in> set (deleg as). rq_Action r = Acquire)"
  by (auto simp: deleg_def List.map_filter_def asks_acquire_def image_iff) force

section \<open>Steps of the node\<close>

lemma effect_live:
  assumes "effect t t' added" and "tr_Generation t \<le> tr_Generation t'"
    and "\<forall>a \<in> set (tr_actions t). ta_Generation a \<le> tr_Generation t"
  shows "live t' = added \<or> live t' = live t @ added \<and> tr_actions t' = tr_actions t @ added"
proof -
  have new: "filter (\<lambda>a. ta_Generation a = tr_Generation t') added = added" using assms(1) by (simp add: effect_def filter_id_conv)
  have "filter (\<lambda>a. ta_Generation a = tr_Generation t') (tr_actions t) = []" if "tr_Generation t' \<noteq> tr_Generation t"
    using assms(2,3) that by (auto simp: filter_empty_conv)
  then show ?thesis using assms(1) new by (cases "tr_Generation t' = tr_Generation t") (auto simp: effect_def acts_def)
qed

lemma next_id: "(i :: u64) \<le> i + 1 \<Longrightarrow> i < i + 1"
  by (simp add: order.strict_iff_order)

lemma effect_ordered:
  assumes h: "ordered h" and e: "effect (ho_node h) t' added" and w: "no_wrap (ho_node h) t'" and d: "set (told ds) \<subseteq> set (told (ho_down h))"
  shows "ordered (h\<lparr>ho_node := t', ho_down := ds\<rparr>)" (is "ordered ?h")
proof -
  let ?i = "tr_requestId (ho_node h)"
  have seen: "seen_ids ?h \<subseteq> seen_ids h" using d by (auto simp: seen_ids_def replies_def)
  have un: "unread_requests ?h = unread_requests h @ deleg added \<or> unread_requests ?h = asked (ho_up h) @ deleg added"
    using e by (auto simp: unread_requests_def effect_def)
  have new: "rq_RequestId r = tr_requestId t' \<and> ?i < tr_requestId t'" if "r \<in> set (deleg added)" for r
    using e w that next_id [of ?i] by (auto simp: effect_def no_wrap_def)
  have le: "?i \<le> tr_requestId t'" using w by (simp add: no_wrap_def)
  have one: "sorted_wrt (\<lambda>q r. rq_RequestId q < rq_RequestId r) (deleg added)" using e by (auto simp: effect_def)
  have old: "set (asked (ho_up h)) \<subseteq> set (unread_requests h)" by (auto simp: unread_requests_def)
  have id: "rq_RequestId r \<le> ?i" if "r \<in> set (unread_requests h)" for r using h that by (simp add: ordered_def)
  have lt: "rq_RequestId q < rq_RequestId r" if "q \<in> set (unread_requests h)" "r \<in> set (deleg added)" for q r
    using id [OF that(1)] new [OF that(2)] by (metis order.strict_trans1)
  have "sorted_wrt (\<lambda>q r. rq_RequestId q < rq_RequestId r) (unread_requests ?h)"
    using un h one lt old by (auto simp: ordered_def sorted_wrt_append unread_requests_def)
  moreover have mem: "r \<in> set (unread_requests h) \<or> r \<in> set (deleg added)" if "r \<in> set (unread_requests ?h)" for r using un old that by auto
  moreover have "i \<le> tr_requestId t' \<and> i < rq_RequestId r" if "i \<in> seen_ids ?h" "r \<in> set (unread_requests ?h)" for i r
  proof -
    have i: "i \<le> ?i" "r \<in> set (unread_requests h) \<Longrightarrow> i < rq_RequestId r" using h seen that(1) by (auto simp: ordered_def)
    from mem [OF that(2)] show ?thesis using i new le by (metis order.trans order.strict_trans1)
  qed
  moreover have "i \<le> tr_requestId t'" if "i \<in> seen_ids ?h" for i
    using h seen that le by (auto simp: ordered_def intro: order.trans)
  moreover have "rq_RequestId r \<le> tr_requestId t'" if "r \<in> set (unread_requests ?h)" for r
    using mem [OF that] new id le by (metis order.trans order.refl)
  ultimately show ?thesis by (simp add: ordered_def)
qed

text \<open>The reply that ends a release, read while the request is outstanding.\<close>

definition confirmed :: "handover \<Rightarrow> bool" where
  "confirmed h \<longleftrightarrow> (\<exists>p \<in> set (replies h). \<exists>r. tr_pending (ho_node h) = Some r \<and> rp_Status p = Released \<and> rp_RequestId p = rq_RequestId r)"

lemma confirmed_released:
  assumes h: "handover_ok h" and c: "confirmed h"
  shows "\<not> owned (ho_lease h)" and "asked (ho_up h) = []" and "\<not> (\<exists>a \<in> set (live (ho_node h)). asks_acquire a)"
proof -
  from c obtain p r where p: "p \<in> set (replies h)" "tr_pending (ho_node h) = Some r" "rp_Status p = Released"
    "rp_RequestId p = rq_RequestId r" by (auto simp: confirmed_def)
  have r: "rq_RequestId r = tr_requestId (ho_node h)" using h p(2) by (simp add: handover_ok_def transition_ok_def pending_ok_def)
  then show "\<not> owned (ho_lease h)" using h p by (auto simp: handover_ok_def released_true_def)
  have "rp_RequestId p \<in> seen_ids h" using p(1) by (auto simp: seen_ids_def)
  then have none: False if "q \<in> set (unread_requests h)" for q using h that r p(4) by (fastforce simp: handover_ok_def ordered_def)
  then show "asked (ho_up h) = []" by (cases "asked (ho_up h)") (auto simp: unread_requests_def)
  show "\<not> (\<exists>a \<in> set (live (ho_node h)). asks_acquire a)"
    using h none [of r] p(2) by (auto simp: handover_ok_def acquire_unsent_def unread_requests_def)
qed

lemma node_ok:
  assumes h: "handover_ok h" and e: "effect (ho_node h) t' added" and t: "transition_ok (t', ho_native h)" and w: "no_wrap (ho_node h) t'"
    and d: "set (told ds) \<subseteq> set (told (ho_down h))"
    and act: "has ActivateNative added \<Longrightarrow> tr_actions t' = added \<and> has RetireHosted added \<or> confirmed h"
  shows "handover_ok (h\<lparr>ho_node := t', ho_down := ds\<rparr>)" (is "handover_ok ?h")
proof -
  let ?t = "ho_node h"
  have gen: "\<forall>a \<in> set (tr_actions ?t). ta_Generation a \<le> tr_Generation ?t" using h by (simp add: handover_ok_def)
  have wg: "tr_Generation ?t \<le> tr_Generation t'" using w by (simp add: no_wrap_def)
  note live = effect_live [OF e wg gen]
  have gen': "\<forall>a \<in> set (tr_actions t'). ta_Generation a \<le> tr_Generation t'"
    using e gen wg by (auto simp: effect_def intro: order.trans)
  have R: "released_true ?h" unfolding released_true_def
  proof (intro ballI impI)
    fix p
    assume p: "p \<in> set (replies ?h)" "rp_Status p = Released \<and> rp_RequestId p = tr_requestId (ho_node ?h)"
    then have q: "p \<in> set (replies h)" using d by (auto simp: replies_def)
    then have "rp_RequestId p \<in> seen_ids h" by (auto simp: seen_ids_def)
    then have "rp_RequestId p \<le> tr_requestId ?t" using h by (simp add: handover_ok_def ordered_def)
    then have "rp_RequestId p = tr_requestId ?t" using p(2) w by (simp add: no_wrap_def)
    then show "\<not> owned (ho_lease ?h)" using h p(2) q by (auto simp: handover_ok_def released_true_def)
  qed
  have fin: "acquire_final added" using e by (simp add: effect_def)
  have new: "r \<in> set (deleg added)" if "tr_pending t' = Some r" "\<exists>a \<in> set added. asks_acquire a" for r
    using e that by (auto simp: effect_def asks_acquire_deleg)
  have U: "acquire_unsent t'"
  proof (cases "live t' = added")
    case True
    have "set (deleg added) \<subseteq> set (deleg (tr_actions t'))" using e by (auto simp: effect_def)
    then show ?thesis using True fin new by (auto simp: acquire_unsent_def)
  next
    case False
    then have l: "live t' = live ?t @ added" "tr_actions t' = tr_actions ?t @ added" "live ?t \<noteq> []" using live by auto
    then have "has ActivateNative added \<Longrightarrow> confirmed h" using act by (auto simp: acts_def)
    moreover have "acquire_unsent ?t" using h by (simp add: handover_ok_def)
    moreover have "tr_pending t' = tr_pending ?t \<or> tr_pending t' = None \<or> (\<exists>r. tr_pending t' = Some r \<and> r \<in> set (deleg added))"
      using e by (auto simp: effect_def)
    ultimately show ?thesis using l fin new confirmed_released(3) [OF h] by (auto simp: acquire_unsent_def)
  qed
  have E: "exclusive ?h"
  proof (cases "has ActivateNative added")
    case True
    then consider "has RetireHosted added" | "confirmed h" using act by blast
    then show ?thesis
    proof cases
      case 1
      then have "has RetireHosted (live t')" using live by auto
      then show ?thesis using h by (auto simp: exclusive_def handover_ok_def)
    qed (use confirmed_released [OF h] in \<open>auto simp: exclusive_def\<close>)
  next
    case False
    then have "has ActivateNative (live t') \<and> \<not> has RetireHosted (live t') \<longrightarrow> has ActivateNative (live ?t) \<and> \<not> has RetireHosted (live ?t)"
      using live by auto
    then show ?thesis using h by (auto simp: exclusive_def handover_ok_def)
  qed
  have av: "tr_relayAvailable t'" using h e by (simp add: handover_ok_def effect_def)
  have l: "lease_ok (ho_lease h)" and o: "ordered h" using h by (simp_all add: handover_ok_def)
  show ?thesis using t l av gen' effect_ordered [OF o e w d] R U E by (simp add: handover_ok_def)
qed

lemma native_after_final: "acquire_safe b as \<Longrightarrow> acquire_final as \<Longrightarrow> native_after as b \<Longrightarrow> \<not> (\<exists>a \<in> set as. asks_acquire a)"
proof (induction as arbitrary: b)
  case (Cons a as)
  have off: "\<not> native_after cs False" if "\<not> has ActivateNative cs" for cs
    using that by (induction cs) (auto simp: native_step_def split: action_kind.splits)
  have "\<not> asks_acquire a"
  proof
    assume a: "asks_acquire a"
    then have "\<not> b" "\<not> has ActivateNative as" "ta_Kind a \<noteq> ActivateNative" using Cons.prems by simp_all
    then show False using Cons.prems(3) off by (auto simp: native_step_def split: action_kind.splits)
  qed
  then show ?case using Cons by auto
qed simp

lemma native_after_has: "native_after as b \<Longrightarrow> b \<or> has ActivateNative as"
  by (induction as arbitrary: b) (force simp: native_step_def split: action_kind.splits)+

lemma host_ok:
  assumes h: "handover_ok h" and "\<not> has RetireHosted (live (ho_node h))"
    and fs: "list_all2 (\<lambda>r f. EncodeDelegationRequest r = Inr f) (deleg (live (ho_node h))) fs"
  shows "handover_ok (h\<lparr>ho_node := fst (TakeActions (ho_node h)), ho_native := native_after (live (ho_node h)) (ho_native h),
    ho_up := ho_up h @ fs\<rparr>)" (is "handover_ok ?h")
proof -
  let ?t = "ho_node h" and ?n = "native_after (live (ho_node h)) (ho_native h)"
  have t: "transition_ok (?t, ho_native h)" and U: "acquire_unsent ?t" and o: "ordered h" using h by (simp_all add: handover_ok_def)
  have t': "transition_ok (fst (TakeActions ?t), ?n)" using transition_step_ok [OF t transition_step.host] .
  have up: "asked (ho_up ?h) = asked (ho_up h) @ deleg (live ?t)" using encoded_asked [OF fs] by simp
  have un: "unread_requests ?h = asked (ho_up h) @ deleg (live ?t)" using up by (simp add: unread_requests_def TakeActions_def)
  have sub: "set (deleg (live ?t)) \<subseteq> set (deleg (tr_actions ?t))" using deleg_filter(1) by (simp add: acts_def)
  have "sorted_wrt (\<lambda>q r. rq_RequestId q < rq_RequestId r) (deleg (live ?t))"
    using o deleg_filter(2) by (simp add: ordered_def unread_requests_def sorted_wrt_append acts_def)
  then have "sorted_wrt (\<lambda>q r. rq_RequestId q < rq_RequestId r) (unread_requests ?h)" and s: "set (unread_requests ?h) \<subseteq> set (unread_requests h)"
    using o sub un by (auto simp: ordered_def unread_requests_def sorted_wrt_append)
  moreover have "seen_ids ?h = seen_ids h" by (simp add: seen_ids_def replies_def)
  ultimately have "ordered ?h" using o by (auto simp: ordered_def TakeActions_def)
  moreover have "released_true ?h" using h by (simp add: handover_ok_def released_true_def replies_def TakeActions_def)
  moreover have "acquire_unsent (fst (TakeActions ?t))" by (simp add: acquire_unsent_def TakeActions_def)
  moreover have "exclusive ?h"
  proof -
    have "\<not> (\<exists>a \<in> set (live ?t). asks_acquire a)" if ?n
      using native_after_final [OF _ _ that] t U by (auto simp: transition_ok_def acquire_unsent_def)
    moreover have "\<not> owned (ho_lease h) \<and> (\<forall>r \<in> set (asked (ho_up h)). rq_Action r \<noteq> Acquire)" if ?n
      using native_after_has [OF that] h assms(2) by (auto simp: handover_ok_def exclusive_def)
    ultimately show ?thesis using up by (auto simp: exclusive_def TakeActions_def asks_acquire_deleg)
  qed
  ultimately show ?thesis using h t' by (simp add: handover_ok_def TakeActions_def)
qed

section \<open>Steps of the relay\<close>

text \<open>
  What a step of the relay must satisfy: \<open>request\<close> is the request it read, if any; every reply it adds answers that
  request, truly when it says \<open>Released\<close>, or reports on the request before.
\<close>

definition relay_kept :: "delegation_request option \<Rightarrow> lease \<Rightarrow> lease \<Rightarrow> bool" where
  "relay_kept request l l' \<longleftrightarrow> lease_ok l' \<and> (ls_request l' = ls_request l \<or> ls_request l' = request) \<and>
     (owned l' \<and> \<not> owned l \<longrightarrow> (\<exists>r. request = Some r \<and> rq_Action r = Acquire)) \<and>
     (\<exists>added. ls_output l' = ls_output l @ added \<and>
       (\<forall>g \<in> set added. \<exists>p. EncodeDelegationReply p = Inr g \<and> (timed_reply (ls_request l) p \<or>
         (\<exists>r. request = Some r \<and> rp_RequestId p = rq_RequestId r \<and> (rp_Status p = Released \<longrightarrow> \<not> owned l')))))"

lemma Accept_kept:
  assumes l: "lease_ok l" and e: "de_ok e" and f: "DecodeDelegationRequest f = Inr (Some r)" and o: "outcome (Lease_Accept e r l) l'"
  shows "relay_kept (Some r) l l'"
proof -
  have "EncodeDelegationRequest r = Inr f" using f delegation_request.dec_iff_enc [of f r] by simp
  then have "request_ids r" by (auto simp: request_ids_def identity_ok_def EncodeDelegationRequest_def Identity_def split: if_splits)
  from Lease_Accept_ok [OF l e this] o have a: "answered e r l l'" by (auto simp: outcome_def keeps_def)
  from Lease_Accept_emits [OF l e, of r] o obtain added where "ls_output l' = ls_output l @ added"
    "\<forall>g \<in> set added. \<exists>p. EncodeDelegationReply p = Inr g \<and> accept_reply r l p l'" unfolding emits_def outcome_def by blast
  then show ?thesis using a by (auto simp: relay_kept_def answered_def may_acquire_def accept_reply_def)
qed

lemma derps_kept:
  assumes l: "lease_ok l" and l': "lease_ok l'" and o: "outcome (bindE (in_lease l m) (\<lambda>d. Inr (l\<lparr>ls_derps := d\<rparr>))) l'"
    and k: "keeps (\<lambda>_. True) (\<lambda>d. dcs_enabled d = dcs_enabled (ls_derps l)) m"
  shows "relay_kept None l l'"
  using o k l' by (cases m) (auto simp: outcome_def relay_kept_def in_lease_def owned_def split: exn.splits)

lemma event_kept:
  assumes l: "lease_ok l" and e: "de_ok e" and op: "lease_op_ok op" "\<And>r. op \<noteq> OpAccept r" "op \<noteq> OpTakeOutput"
    and o: "outcome (lease_apply e op l) l'"
  shows "relay_kept None l l'"
proof -
  have l': "lease_ok l'" using lease_apply_ok [OF l e op(1)] o by (auto simp: outcome_def keeps_def)
  note owner = lease_owner [OF l]
  show ?thesis
  proof (cases op)
    case (OpApplyMap v)
    then show ?thesis using o l' by (auto simp: outcome_def relay_kept_def ApplyMap_def owned_def)
  next
    case OpPoll
    from Poll_emits [of l e] o OpPoll obtain added where "ls_output l' = ls_output l @ added"
      "\<forall>g \<in> set added. \<exists>p. EncodeDelegationReply p = Inr g \<and> timed_reply (ls_request l) p" unfolding emits_def outcome_def by auto
    moreover have "polled e l l'" using Poll_ok [OF l e] o OpPoll by (auto simp: outcome_def keeps_def)
    ultimately show ?thesis by (auto simp: relay_kept_def polled_def)
  next
    case (OpNetworkMap config)
    obtain d where "extends (ls_derps l) d" "l' = l\<lparr>ls_derps := d\<rparr>"
      by (rule network_map_extends [OF owner e, of config]) (use o OpNetworkMap in \<open>auto simp: outcome_def simp del: lease_apply.simps\<close>)
    then show ?thesis using l' by (simp add: relay_kept_def extends_def owned_def)
  next
    case (OpNetwork interface)
    show ?thesis using ChangeNetwork_owner [OF owner e, of interface]
      by (intro derps_kept [OF l l' o [unfolded OpNetwork lease_apply.simps]]) auto
  next
    case (OpConnection i c)
    with op have ok: "lease_op_ok (OpConnection i c)" by simp
    show ?thesis by (rule derps_kept [OF l l' o [unfolded OpConnection lease_apply.simps]])
      (rule keeps_mono [OF on_connection_ok [OF owner e ok]], auto)
  qed (use op in auto)
qed

lemma relay_ok:
  assumes h: "handover_ok h" and k: "relay_kept q (ho_lease h) l'" and up: "asked (ho_up h) = (case q of None \<Rightarrow> [] | Some r \<Rightarrow> [r]) @ asked fs"
  shows "handover_ok (h\<lparr>ho_up := fs, ho_lease := l'\<rparr>)" (is "handover_ok ?h")
proof -
  let ?l = "ho_lease h"
  have o: "ordered h" using h by (simp add: handover_ok_def)
  from k obtain added where out: "ls_output l' = ls_output ?l @ added" and ad: "\<forall>g \<in> set added. \<exists>p. EncodeDelegationReply p = Inr g \<and>
      (timed_reply (ls_request ?l) p \<or> (\<exists>r. q = Some r \<and> rp_RequestId p = rq_RequestId r \<and> (rp_Status p = Released \<longrightarrow> \<not> owned l')))"
    by (auto simp: relay_kept_def)
  have fresh: "timed_reply (ls_request ?l) p \<or> (\<exists>r. q = Some r \<and> rp_RequestId p = rq_RequestId r \<and> (rp_Status p = Released \<longrightarrow> \<not> owned l'))"
    if "p \<in> set (told added)" for p using encoded_told [OF ad that] .
  have re: "set (replies ?h) = set (replies h) \<union> set (told added)" using out by (auto simp: replies_def)
  have un: "unread_requests h = (case q of None \<Rightarrow> [] | Some r \<Rightarrow> [r]) @ unread_requests ?h" using up by (simp add: unread_requests_def)
  have seen: "i \<in> seen_ids h \<or> (\<exists>r. q = Some r \<and> i = rq_RequestId r)" if "i \<in> seen_ids ?h" for i
    using that re fresh k by (fastforce simp: seen_ids_def timed_reply_def relay_kept_def)
  have "ordered ?h" using o seen un by (auto simp: ordered_def split: option.splits)
  moreover have "released_true ?h" unfolding released_true_def
  proof (intro ballI impI)
    fix p
    assume p: "p \<in> set (replies ?h)" "rp_Status p = Released \<and> rp_RequestId p = tr_requestId (ho_node ?h)"
    show "\<not> owned (ho_lease ?h)"
    proof (cases "p \<in> set (replies h)")
      case True
      then have "rp_RequestId p \<in> seen_ids h" by (auto simp: seen_ids_def)
      then have "q = None" using o p(2) un by (auto simp: ordered_def split: option.splits)
      then show ?thesis using h True p(2) k by (auto simp: handover_ok_def released_true_def relay_kept_def)
    qed (use p re fresh in \<open>fastforce simp: timed_reply_def\<close>)
  qed
  moreover have "exclusive ?h" using h k up by (auto simp: handover_ok_def exclusive_def relay_kept_def split: option.splits)
  moreover have "lease_ok l'" using k by (simp add: relay_kept_def)
  ultimately show ?thesis using h by (simp add: handover_ok_def)
qed

section \<open>Exclusive ownership\<close>

lemma handover_step_ok:
  assumes h: "handover_ok h" and s: "handover_step h h'"
  shows "handover_ok h'"
  using s
proof cases
  case (operation op now)
  have t: "transition_ok (ho_node h, ho_native h)" and av: "tr_relayAvailable (ho_node h)" using h by (simp_all add: handover_ok_def)
  from op_effect [OF operation(2) av, of now] obtain added where e: "effect (ho_node h) (transition_apply now op (ho_node h)) added"
    and a: "has ActivateNative added \<longrightarrow> tr_actions (transition_apply now op (ho_node h)) = added \<and> has RetireHosted added"
    unfolding quiet_effect_def by blast
  have t': "transition_ok (transition_apply now op (ho_node h), ho_native h)" using transition_step_ok [OF t transition_step.operation] .
  have "handover_ok (h\<lparr>ho_node := transition_apply now op (ho_node h), ho_down := ho_down h\<rparr>)"
    by (rule node_ok [OF h e t' operation(3) subset_refl]) (use a in blast)
  then show ?thesis using operation(1) by simp
next
  case (reply g gs p now)
  have t: "transition_ok (ho_node h, ho_native h)" using h by (simp add: handover_ok_def)
  let ?t = "Transition_Reply now p (ho_node h)"
  have p: "p \<in> set (replies h)" and d: "set (told gs) \<subseteq> set (told (ho_down h))"
    using reply(2,3) by (auto simp: replies_def told_iff)
  have "\<exists>added. effect (ho_node h) ?t added \<and> (has ActivateNative added \<longrightarrow> tr_actions ?t = added \<and> has RetireHosted added \<or> confirmed h)"
  proof (cases "tr_pending (ho_node h)")
    case None
    then have "?t = ho_node h" by (simp add: Transition_Reply_def)
    then show ?thesis by (intro exI [of _ "[]"]) (simp add: effect_def)
  next
    case (Some r)
    from Reply_effect [OF this, of now p] show ?thesis using p Some by (fastforce simp: quiet_effect_def confirmed_def)
  qed
  then obtain added where e: "effect (ho_node h) ?t added"
    and a: "has ActivateNative added \<Longrightarrow> tr_actions ?t = added \<and> has RetireHosted added \<or> confirmed h" by blast
  show ?thesis unfolding reply(1) by (rule node_ok [OF h e Reply_ok [OF t] reply(4) d a])
next
  case (host fs)
  show ?thesis unfolding host(1) by (rule host_ok [OF h host(2,4)])
next
  case (relay f fs r e l')
  have l: "lease_ok (ho_lease h)" using h by (simp add: handover_ok_def)
  show ?thesis unfolding relay(1)
    by (rule relay_ok [OF h Accept_kept [OF l relay(4,3,5)]]) (simp add: relay(2) asked_Cons [OF relay(3)])
next
  case (relay_event e op l')
  have l: "lease_ok (ho_lease h)" using h by (simp add: handover_ok_def)
  have "handover_ok (h\<lparr>ho_up := ho_up h, ho_lease := l'\<rparr>)"
    by (rule relay_ok [OF h event_kept [OF l relay_event(2-6)]]) simp
  then show ?thesis using relay_event(1) by simp
next
  case (relay_send l' out)
  have l': "l' = ho_lease h\<lparr>ls_output := []\<rparr>" "out = ls_output (ho_lease h)" using relay_send(2) by (auto simp: TakeOutput_def)
  have "replies h' = replies h" using relay_send(1) l' by (simp add: replies_def)
  moreover have "lease_ok l'" using h l' by (auto simp: handover_ok_def lease_ok_def owned_def reply_status_def)
  ultimately show ?thesis using h relay_send(1) l'
    by (simp add: handover_ok_def ordered_def unread_requests_def seen_ids_def released_true_def exclusive_def owned_def)
qed

interpretation handover: component_invariant handover_step handover_ok
  by unfold_locales (rule handover_step_ok)

lemma session_start_ok:
  assumes "session_start h"
  shows "handover_ok h"
proof -
  from assms obtain m b where "transition_step\<^sup>*\<^sup>* (TransitionCoordinator m, b) (ho_node h, False)" by (auto simp: session_start_def)
  then have "transition_ok (ho_node h, False)" by (rule transition_reachable)
  then show ?thesis using assms new_lease_ok
    by (simp add: session_start_def handover_ok_def ordered_def unread_requests_def seen_ids_def replies_def released_true_def
      acquire_unsent_def exclusive_def acts_def new_lease_def)
qed

text \<open>
  C1: during a relay session the node and its relay never use the node's DERP connections at the same time.  From the
  start of the hosted transport on, however the coordinator's calls, the host, the stream and the relay interleave,
  while the node's own connections are in use the relay does not own them: every connection it has for the node
  is closed, dials nothing and has nothing queued, and no request to acquire is on its way.  The claim covers one
  session up to its end: \<open>RelayFailed\<close>, \<open>Abort\<close> and host steps that start or retire a hosted transport are no steps of it, every
  request the host sends can be encoded, and the 64-bit generations and request numbers do not wrap around.  After
  \<open>RelayFailed\<close> the coordinator orders the native connections without an answer of the relay, so nothing is claimed of the
  time between the failure and the end of the relay's lease.
\<close>

theorem handover_exclusive:
  assumes "session_start h0" and "handover_step\<^sup>*\<^sup>* h0 h" and "ho_native h"
  shows "\<not> dcs_enabled (ls_derps (ho_lease h)) \<and> (\<forall>(r, c) \<in> set (dcs_session (ls_derps (ho_lease h))). idle c) \<and>
    (\<forall>f \<in> set (ho_up h). \<forall>r. DecodeDelegationRequest f = Inr (Some r) \<longrightarrow> rq_Action r \<noteq> Acquire)"
proof -
  have h: "handover_ok h" using handover.steps_inv [OF assms(2) session_start_ok [OF assms(1)]] .
  then have l: "lease_ok (ho_lease h)" and x: "\<not> owned (ho_lease h)" "\<forall>r \<in> set (asked (ho_up h)). rq_Action r \<noteq> Acquire"
    using assms(3) by (simp_all add: handover_ok_def exclusive_def)
  show ?thesis using x released_idle [OF l x(1)] by (auto simp: owned_def asked_iff)
qed

section \<open>An example run\<close>

text \<open>A schedule of a session, executed: \<open>None\<close> when a step is not possible.\<close>

datatype handover_act = HOp int transition_op | HReply int | HHost | HRelay derps_env | HEvent derps_env lease_op | HSend

fun encode_requests :: "delegation_request list \<Rightarrow> frame list option" where
  "encode_requests [] = Some []"
| "encode_requests (r # rs) = (case EncodeDelegationRequest r of Inl _ \<Rightarrow> None | Inr f \<Rightarrow> map_option ((#) f) (encode_requests rs))"

fun handover_do :: "handover_act \<Rightarrow> handover \<Rightarrow> handover option" where
  "handover_do (HOp now op) h = (let t = transition_apply now op (ho_node h) in
     if coordinator_op op \<and> no_wrap (ho_node h) t then Some (h\<lparr>ho_node := t\<rparr>) else None)"
| "handover_do (HReply now) h = (case ho_down h of [] \<Rightarrow> None | g # gs \<Rightarrow> (case DecodeDelegationReply g of
     Inr (Some p) \<Rightarrow> (let t = Transition_Reply now p (ho_node h) in
       if no_wrap (ho_node h) t then Some (h\<lparr>ho_node := t, ho_down := gs\<rparr>) else None)
   | _ \<Rightarrow> None))"
| "handover_do HHost h = (let as = live (ho_node h) in if has RetireHosted as \<or> has ActivateHosted as then None
     else map_option (\<lambda>fs. h\<lparr>ho_node := fst (TakeActions (ho_node h)), ho_native := native_after as (ho_native h), ho_up := ho_up h @ fs\<rparr>)
       (encode_requests (deleg as)))"
| "handover_do (HRelay e) h = (case ho_up h of [] \<Rightarrow> None | f # fs \<Rightarrow> (case DecodeDelegationRequest f of
     Inr (Some r) \<Rightarrow> (case Lease_Accept e r (ho_lease h) of Inr l \<Rightarrow> Some (h\<lparr>ho_up := fs, ho_lease := l\<rparr>) | _ \<Rightarrow> None)
   | _ \<Rightarrow> None))"
| "handover_do (HEvent e op) h = (if op = OpTakeOutput \<or> (case op of OpAccept _ \<Rightarrow> True | _ \<Rightarrow> False) then None
     else case lease_apply e op (ho_lease h) of Inr l \<Rightarrow> Some (h\<lparr>ho_lease := l\<rparr>) | _ \<Rightarrow> None)"
| "handover_do HSend h = (case TakeOutput (ho_lease h) of (l, out) \<Rightarrow> Some (h\<lparr>ho_lease := l, ho_down := ho_down h @ out\<rparr>))"

fun handover_run :: "handover_act list \<Rightarrow> handover \<Rightarrow> handover option" where
  "handover_run [] h = Some h"
| "handover_run (x # xs) h = Option.bind (handover_do x h) (handover_run xs)"

fun act_ok :: "handover_act \<Rightarrow> bool" where
  "act_ok (HRelay e) = de_ok e" | "act_ok (HEvent e op) \<longleftrightarrow> de_ok e \<and> lease_op_ok op" | "act_ok _ = True"

lemma encode_requests_all: "encode_requests rs = Some fs \<Longrightarrow> list_all2 (\<lambda>r f. EncodeDelegationRequest r = Inr f) rs fs"
  by (induction rs arbitrary: fs) (auto split: sum.splits)

lemma handover_do_step:
  assumes "handover_do x h = Some h'" and "act_ok x"
  shows "handover_step h h'"
proof (cases x)
  case (HOp now op)
  then show ?thesis using assms handover_step.operation [of op h now] by (auto simp: Let_def split: if_splits)
next
  case (HReply now)
  then show ?thesis using assms handover_step.reply [of h _ _ _ now]
    by (auto simp: Let_def split: if_splits list.splits sum.splits option.splits)
next
  case HHost
  then show ?thesis using assms handover_step.host [of h] encode_requests_all by (auto simp: Let_def split: if_splits)
next
  case (HRelay e)
  then show ?thesis using assms handover_step.relay [of h _ _ _ e]
    by (auto simp: outcome_def split: list.splits sum.splits option.splits)
next
  case (HEvent e op)
  then show ?thesis using assms by (auto split: if_splits sum.splits intro!: handover_step.relay_event [of e op] simp: outcome_def)
next
  case HSend
  then show ?thesis using assms handover_step.relay_send [of h] by (auto split: prod.splits)
qed

lemma handover_run_steps: "handover_run xs h = Some h' \<Longrightarrow> list_all act_ok xs \<Longrightarrow> handover_step\<^sup>*\<^sup>* h h'"
proof (induction xs arbitrary: h)
  case (Cons x xs)
  then obtain h1 where "handover_do x h = Some h1" "handover_run xs h1 = Some h'" by (auto simp: bind_eq_Some_conv)
  then have "handover_step h h1" "handover_step\<^sup>*\<^sup>* h1 h'" using Cons handover_do_step by auto
  then show ?case by (rule converse_rtranclp_into_rtranclp)
qed simp

text \<open>A hosted node becomes native: both sides prepare, the relay releases the connections, the node activates its own.\<close>

definition example_session :: handover where
  "example_session = \<lparr>ho_node = TransitionCoordinator Hosted, ho_native = False, ho_up = [], ho_lease = new_lease, ho_down = []\<rparr>"

definition example_schedule :: "handover_act list" where
  "example_schedule = [HEvent (example_env 0) (OpNetworkMap example_map), HEvent (example_env 0) (OpApplyMap 3),
     HOp 0 (OpBegin Native 3 [1] True), HHost, HOp 1 (OpPrepared 1 True), HOp 2 (OpMapApplied 3), HHost,
     HRelay (example_env 0), HSend, HReply 3, HHost, HRelay (example_env 0), HSend, HReply 4, HHost]"

lemma example_session_start: "session_start example_session"
  by (auto simp: session_start_def example_session_def TransitionCoordinator_def)

definition example_reply :: "u64 \<Rightarrow> delegation_status \<Rightarrow> delegation_reply" where
  "example_reply n status = \<lparr>rp_Generation = 1, rp_RequestId = n, rp_MapRevision = 3, rp_Status = status, rp_Failure = NoFailure\<rparr>"

lemma example_leases:
  obtains l0 l1 l2 g1 g2 where
    "lease_apply (example_env 0) (OpNetworkMap example_map) new_lease = Inr l0"
    "Lease_Accept (example_env 0) (example_request 1 Prepare) (ApplyMap 3 l0) = Inr l1" "ls_output l1 = [g1]"
    "EncodeDelegationReply (example_reply 1 Prepared) = Inr g1"
    "Lease_Accept (example_env 0) (example_request 2 Release) (l1\<lparr>ls_output := []\<rparr>) = Inr l2" "ls_output l2 = [g2]"
    "EncodeDelegationReply (example_reply 2 Released) = Inr g2"
proof -
  have "\<exists>l0. lease_apply (example_env 0) (OpNetworkMap example_map) new_lease = Inr l0 \<and>
    (\<exists>l1. Lease_Accept (example_env 0) (example_request 1 Prepare) (ApplyMap 3 l0) = Inr l1 \<and>
      (\<exists>g1. ls_output l1 = [g1] \<and> EncodeDelegationReply (example_reply 1 Prepared) = Inr g1) \<and>
      (\<exists>l2. Lease_Accept (example_env 0) (example_request 2 Release) (l1\<lparr>ls_output := []\<rparr>) = Inr l2 \<and>
        (\<exists>g2. ls_output l2 = [g2] \<and> EncodeDelegationReply (example_reply 2 Released) = Inr g2)))"
    by (simp add: example_eval example_reply_def word_le_nat_alt word_less_nat_alt)
  then show thesis using that by blast
qed

lemma example_frames:
  obtains f1 f2 where "EncodeDelegationRequest (example_request 1 Prepare) = Inr f1" "EncodeDelegationRequest (example_request 2 Release) = Inr f2"
proof -
  have "\<exists>f1. EncodeDelegationRequest (example_request 1 Prepare) = Inr f1" "\<exists>f2. EncodeDelegationRequest (example_request 2 Release) = Inr f2"
    by (simp_all add: EncodeDelegationRequest_def example_request_def Identity_def Let_def)
  then show thesis using that by blast
qed

lemma example_session_native:
  obtains h where "handover_run example_schedule example_session = Some h" "ho_native h"
proof -
  obtain l0 l1 l2 g1 g2 where l:
    "lease_apply (example_env 0) (OpNetworkMap example_map) new_lease = Inr l0"
    "Lease_Accept (example_env 0) (example_request 1 Prepare) (ApplyMap 3 l0) = Inr l1" "ls_output l1 = [g1]"
    "EncodeDelegationReply (example_reply 1 Prepared) = Inr g1"
    "Lease_Accept (example_env 0) (example_request 2 Release) (l1\<lparr>ls_output := []\<rparr>) = Inr l2" "ls_output l2 = [g2]"
    "EncodeDelegationReply (example_reply 2 Released) = Inr g2" by (rule example_leases)
  obtain f1 f2 where f: "EncodeDelegationRequest (example_request 1 Prepare) = Inr f1" "EncodeDelegationRequest (example_request 2 Release) = Inr f2"
    by (rule example_frames)
  have d: "DecodeDelegationRequest f1 = Inr (Some (example_request 1 Prepare))" "DecodeDelegationRequest f2 = Inr (Some (example_request 2 Release))"
    "DecodeDelegationReply g1 = Inr (Some (example_reply 1 Prepared))" "DecodeDelegationReply g2 = Inr (Some (example_reply 2 Released))"
    using delegation_request.dec_iff_enc delegation_reply.dec_iff_enc f l(4,7) by simp_all
  let ?h = "example_session\<lparr>ho_lease := ApplyMap 3 l0\<rparr>"
  have "\<exists>h. handover_run (drop 2 example_schedule) ?h = Some h \<and> ho_native h" using l(2-7) f d
    by (simp add: example_schedule_def example_session_def TransitionCoordinator_def Begin_def Active_def Action_def Request_def
      PrepareDelegation_def Transition_Prepared_def MapApplied_def acts_def TakeActions_def Let_def example_request_def native_step_def
      sort_unique_def TakeOutput_def no_wrap_def Transition_Reply_def target_def example_reply_def)
  moreover have "handover_run example_schedule example_session = handover_run (drop 2 example_schedule) ?h"
    using l(1) by (simp add: example_schedule_def example_session_def del: lease_apply.simps(5) handover_do.simps(1,3,4))
  ultimately show thesis using that by auto
qed

theorem handover_exclusive_witness:
  "\<exists>h. session_start example_session \<and> handover_step\<^sup>*\<^sup>* example_session h \<and> ho_native h \<and> \<not> dcs_enabled (ls_derps (ho_lease h))"
proof -
  obtain h where h: "handover_run example_schedule example_session = Some h" "ho_native h" by (rule example_session_native)
  have "handover_step\<^sup>*\<^sup>* example_session h"
    by (rule handover_run_steps [OF h(1)]) (simp add: example_schedule_def example_ok)
  from handover_exclusive [OF example_session_start this h(2)] this h(2) example_session_start show ?thesis by blast
qed

end
