(* ===== verification/Dns_Message.thy ===== *)
theory Dns_Message
  imports Net_Address Derp_Handshake
begin

text \<open>
  DNS messages, \<^verbatim>\<open>src/core/net/dns/Dns.cpp\<close>: building a query, reading the name of a query, parsing an answer with its
  compressed names and aliases, and following a chain of answers to an address, over any query function and over a
  DNS-over-TLS stream.
\<close>

datatype dns_error =
    dns_runtime_error string
  | dns_invalid_argument string
  | dns_length_error string
  | DnsResponseError string byte
  | dns_stream relay_error

definition lift_dns :: "(relay_error, 'a) res \<Rightarrow> (dns_error, 'a) res" where
  "lift_dns m = (case m of Inl Fault \<Rightarrow> Inl Fault | Inl (Throw e) \<Rightarrow> Inl (Throw (dns_stream e)) | Inr x \<Rightarrow> Inr x)"

definition DnsHeaderSize :: nat where "DnsHeaderSize = 12"
definition MaximumDnsNameDepth :: nat where "MaximumDnsNameDepth = 32"
definition DnsResponseFlag :: byte where "DnsResponseFlag = 0x80"
definition DnsResponseCodeMask :: byte where "DnsResponseCodeMask = 0x0f"
definition DnsTypeA :: u16 where "DnsTypeA = 1"
definition DnsTypeCname :: u16 where "DnsTypeCname = 5"
definition DnsTypeDname :: u16 where "DnsTypeDname = 39"

lemmas dns_constants = DnsHeaderSize_def MaximumDnsNameDepth_def DnsResponseFlag_def DnsResponseCodeMask_def DnsTypeA_def
  DnsTypeCname_def DnsTypeDname_def

definition Dns_Read16 :: "byte list \<Rightarrow> nat \<Rightarrow> (dns_error, u16) res" where
  "Dns_Read16 message offset =
     (if offset + 2 > length message then Inl (Throw (dns_runtime_error ''Truncated DNS message.'')) else Read16 message offset)"

section \<open>Names\<close>

text \<open>\<^verbatim>\<open>if (!result.empty()) result.push_back('.'); result.append(...)\<close>\<close>

definition add_label :: "string \<Rightarrow> byte list \<Rightarrow> string" where
  "add_label result bytes = (if result = [] then [] else result @ ''.'') @ bytes_string bytes"

text \<open>
  The loop of \<^verbatim>\<open>ReadName\<close> with the result so far.  A pointer continues the name elsewhere, one level deeper; the
  limit on the depth is tested when the nested call begins.
\<close>

function read_name_loop :: "byte list \<Rightarrow> nat \<Rightarrow> nat \<Rightarrow> string \<Rightarrow> (dns_error, string \<times> nat) res" where
  "read_name_loop message depth offset result =
     (if offset < length message then
        bindE (at message offset) (\<lambda>len.
        if len = 0 then Inr (result, offset + 1)
        else if len AND 0xc0 = 0xc0 then
          if offset + 1 \<ge> length message then Inl (Throw (dns_runtime_error ''Truncated DNS name pointer.'')) else
          bindE (at message (offset + 1)) (\<lambda>low.
          if depth + 1 \<ge> MaximumDnsNameDepth then Inl (Throw (dns_runtime_error ''DNS name compression loop.'')) else
          bindE (read_name_loop message (depth + 1) (unat (len AND 0x3f) * 256 + unat low) []) (\<lambda>(suffix, _).
            Inr (result @ (if result \<noteq> [] \<and> suffix \<noteq> [] then ''.'' else []) @ suffix, offset + 2)))
        else if len AND 0xc0 \<noteq> 0 \<or> unat len > 63 \<or> offset + 1 + unat len > length message
        then Inl (Throw (dns_runtime_error ''Invalid DNS label.''))
        else bindE (slice message (offset + 1) (unat len)) (\<lambda>label.
          read_name_loop message depth (offset + 1 + unat len) (add_label result label)))
      else Inl (Throw (dns_runtime_error ''Unterminated DNS name.'')))"
  by pat_completeness auto
termination
  by (relation "measures [\<lambda>(_, depth, _, _). MaximumDnsNameDepth - depth, \<lambda>(message, _, offset, _). length message - offset]") auto

declare read_name_loop.simps [simp del]

definition ReadName :: "byte list \<Rightarrow> nat \<Rightarrow> nat \<Rightarrow> (dns_error, string \<times> nat) res" where
  "ReadName message offset depth =
     (if depth \<ge> MaximumDnsNameDepth then Inl (Throw (dns_runtime_error ''DNS name compression loop.''))
      else read_name_loop message depth offset [])"

definition NormalizeName :: "string \<Rightarrow> string" where
  "NormalizeName name = to_lower (drop_dot name)"

definition DnsNameHasSuffix :: "string \<Rightarrow> string \<Rightarrow> bool" where
  "DnsNameHasSuffix name ending =
     (let n = NormalizeName name; s = NormalizeName ending in
      n = s \<or> length n > length s \<and> drop (length n - length s) n = s \<and> n ! (length n - length s - 1) = CHR ''.'')"

definition DnsNameUsesTrustedResolver :: "string \<Rightarrow> bool" where
  "DnsNameUsesTrustedResolver name = DnsNameHasSuffix name ''ts.net''"

section \<open>Queries\<close>

function query_labels :: "byte list \<Rightarrow> nat \<Rightarrow> string \<Rightarrow> (dns_error, (string \<times> nat) option) res" where
  "query_labels message offset result =
     (if offset < length message then
        bindE (at message offset) (\<lambda>len.
        if len = 0 then Inr (Some (result, offset))
        else if unat len > 63 \<or> offset + 1 + unat len > length message then Inr None
        else bindE (slice message (offset + 1) (unat len)) (\<lambda>label.
          query_labels message (offset + 1 + unat len) (add_label result label)))
      else Inr (Some (result, offset)))"
  by pat_completeness auto
termination
  by (relation "measure (\<lambda>(message, offset, _). length message - offset)") auto

declare query_labels.simps [simp del]

definition DnsQuery_Name :: "byte list \<Rightarrow> (dns_error, string option) res" where
  "DnsQuery_Name message =
     (if length message < DnsHeaderSize then Inr None else
      bindE (Read16 message 4) (\<lambda>questions. if questions = 0 then Inr None else
      bindE (query_labels message DnsHeaderSize []) (\<lambda>labels. case labels of
        None \<Rightarrow> Inr None
      | Some (result, offset) \<Rightarrow>
          if offset \<ge> length message \<or> offset + 1 + 4 > length message then Inr None else Inr (Some (to_lower result)))))"

function build_labels :: "string \<Rightarrow> nat \<Rightarrow> (dns_error, byte list) res" where
  "build_labels normalized start =
     (if start < length normalized then
        let dot = find_char normalized CHR ''.'' start;
            finish = (case dot of None \<Rightarrow> length normalized | Some i \<Rightarrow> i);
            len = finish - start in
        if len = 0 \<or> len > 63 then Inl (Throw (dns_invalid_argument ''Invalid DNS query name.''))
        else bindE (build_labels normalized (finish + 1)) (\<lambda>rest.
          Inr (word_of_nat len # string_bytes (take len (drop start normalized)) @ rest))
      else Inr [])"
  by pat_completeness auto
termination
  by (relation "measure (\<lambda>(normalized, start). length normalized - start)") (auto split: option.splits)

declare build_labels.simps [simp del]

definition DnsQuery_Build :: "string \<Rightarrow> u16 \<Rightarrow> (dns_error, byte list) res" where
  "DnsQuery_Build name transactionId =
     bindE (build_labels (NormalizeName name) 0) (\<lambda>labels.
       Inr (Append16 transactionId @ [1, 0, 0, 1, 0, 0, 0, 0, 0, 0] @ labels @ [0, 0, 1, 0, 1]))"

section \<open>Answers\<close>

record resource_record =
  rr_Name :: string
  rr_Type :: u16
  rr_NameValue :: string
  rr_Address :: string

record dns_answer =
  an_canonicalName :: string
  an_addresses :: "string list"

fun skip_questions :: "byte list \<Rightarrow> nat \<Rightarrow> nat \<Rightarrow> (dns_error, nat) res" where
  "skip_questions message 0 offset = Inr offset"
| "skip_questions message (Suc n) offset =
     bindE (ReadName message offset 0) (\<lambda>(_, offset').
       if offset' + 4 > length message then Inl (Throw (dns_runtime_error ''Truncated DNS question.''))
       else skip_questions message n (offset' + 4))"

definition read_record :: "byte list \<Rightarrow> nat \<Rightarrow> (dns_error, resource_record \<times> nat) res" where
  "read_record message offset =
     bindE (ReadName message offset 0) (\<lambda>(name, o1).
     if o1 + 10 > length message then Inl (Throw (dns_runtime_error ''Truncated DNS answer.'')) else
     bindE (Dns_Read16 message o1) (\<lambda>type.
     bindE (Dns_Read16 message (o1 + 8)) (\<lambda>len.
     let dataOffset = o1 + 10; record0 = \<lparr>rr_Name = NormalizeName name, rr_Type = type, rr_NameValue = [], rr_Address = []\<rparr> in
     if dataOffset + unat len > length message then Inl (Throw (dns_runtime_error ''Truncated DNS answer data.''))
     else if (type = DnsTypeCname \<or> type = DnsTypeDname) \<and> len \<noteq> 0 then
       bindE (ReadName message dataOffset 0) (\<lambda>(alias, _).
         Inr (record0\<lparr>rr_NameValue := NormalizeName alias\<rparr>, dataOffset + unat len))
     else if type = DnsTypeA \<and> len = 4 then
       bindE (at message dataOffset) (\<lambda>a. bindE (at message (dataOffset + 1)) (\<lambda>b.
       bindE (at message (dataOffset + 2)) (\<lambda>c. bindE (at message (dataOffset + 3)) (\<lambda>d.
         Inr (record0\<lparr>rr_Address := show_nat (unat a) @ ''.'' @ show_nat (unat b) @ ''.'' @ show_nat (unat c) @ ''.'' @ show_nat (unat d)\<rparr>,
           dataOffset + unat len)))))
     else Inr (record0, dataOffset + unat len))))"

fun read_records :: "byte list \<Rightarrow> nat \<Rightarrow> nat \<Rightarrow> (dns_error, resource_record list) res" where
  "read_records message 0 offset = Inr []"
| "read_records message (Suc n) offset =
     bindE (read_record message offset) (\<lambda>(record1, offset').
     bindE (read_records message n offset') (\<lambda>records. Inr (record1 # records)))"

text \<open>
  One pass over the records: the first one that renames \<open>name\<close>.  The length that remains in front of a DNAME suffix is
  a \<^verbatim>\<open>size_t\<close> and wraps when the record's name is longer; \<^verbatim>\<open>substr\<close> then takes the whole name.
\<close>

definition renames :: "string \<Rightarrow> resource_record \<Rightarrow> bool" where
  "renames name r \<longleftrightarrow> rr_Type r = DnsTypeCname \<and> rr_Name r = name \<or> rr_Type r = DnsTypeDname \<and> DnsNameHasSuffix name (rr_Name r)"

definition renamed :: "string \<Rightarrow> resource_record \<Rightarrow> string" where
  "renamed name r =
     (if rr_Type r = DnsTypeCname \<and> rr_Name r = name then rr_NameValue r
      else (if length name < length (rr_Name r) then name else take (length name - length (rr_Name r)) name) @ rr_NameValue r)"

fun follow_aliases :: "resource_record list \<Rightarrow> nat \<Rightarrow> string \<Rightarrow> string" where
  "follow_aliases records 0 name = name"
| "follow_aliases records (Suc passes) name =
     (case List.find (renames name) records of None \<Rightarrow> name | Some r \<Rightarrow> follow_aliases records passes (renamed name r))"

definition DnsAnswer_Parse :: "byte list \<Rightarrow> u16 \<Rightarrow> string \<Rightarrow> (dns_error, dns_answer) res" where
  "DnsAnswer_Parse message transactionId queriedName =
     (if length message < DnsHeaderSize then Inl (Throw (dns_runtime_error ''DNS response transaction does not match.'')) else
      bindE (Dns_Read16 message 0) (\<lambda>received.
      if received \<noteq> transactionId then Inl (Throw (dns_runtime_error ''DNS response transaction does not match.'')) else
      bindE (at message 2) (\<lambda>flags.
      if flags AND DnsResponseFlag = 0
      then Inl (Throw (dns_runtime_error (''DNS query for '' @ NormalizeName queriedName @ '' returned a message without the response flag.''))) else
      bindE (at message 3) (\<lambda>code.
      if code AND DnsResponseCodeMask \<noteq> 0 then Inl (Throw (DnsResponseError (NormalizeName queriedName) (code AND DnsResponseCodeMask))) else
      bindE (Dns_Read16 message 4) (\<lambda>questionCount.
      bindE (Dns_Read16 message 6) (\<lambda>answerCount.
      bindE (skip_questions message (unat questionCount) DnsHeaderSize) (\<lambda>offset.
      bindE (read_records message (unat answerCount) offset) (\<lambda>records.
        let canonicalName = follow_aliases records (length records) (NormalizeName queriedName) in
        Inr \<lparr>an_canonicalName = canonicalName,
             an_addresses = map rr_Address (filter (\<lambda>r. rr_Type r = DnsTypeA \<and> rr_Name r = canonicalName) records)\<rparr>))))))))"

section \<open>Resolution\<close>

text \<open>The query function may have a state, for example a stream.\<close>

fun resolve_queries :: "('s \<Rightarrow> string \<Rightarrow> (dns_error, 's \<times> dns_answer) res) \<Rightarrow> string \<Rightarrow> nat \<Rightarrow> string \<Rightarrow> 's \<Rightarrow> (dns_error, 's \<times> dns_answer) res" where
  "resolve_queries query name 0 current s = Inl (Throw (dns_runtime_error (''Trusted DNS alias chain is too deep for '' @ NormalizeName name @ ''.'')))"
| "resolve_queries query name (Suc n) current s =
     bindE (query s current) (\<lambda>(s', answer).
     let canonicalName = NormalizeName (an_canonicalName answer) in
     if an_addresses answer \<noteq> [] \<or> canonicalName = current
     then Inr (s', \<lparr>an_canonicalName = canonicalName, an_addresses = an_addresses answer\<rparr>)
     else if canonicalName = [] then Inl (Throw (dns_runtime_error (''Trusted DNS returned an empty canonical name for '' @ current @ ''.'')))
     else resolve_queries query name n canonicalName s')"

definition ResolveDnsChain :: "string \<Rightarrow> ('s \<Rightarrow> string \<Rightarrow> (dns_error, 's \<times> dns_answer) res) \<Rightarrow> nat \<Rightarrow> 's \<Rightarrow> (dns_error, 's \<times> dns_answer) res" where
  "ResolveDnsChain name query maximumQueries s =
     (if maximumQueries = 0 then Inl (Throw (dns_invalid_argument ''DNS query limit must be positive.''))
      else resolve_queries query name maximumQueries (NormalizeName name) s)"

record dns_target =
  dt_ValidationName :: string
  dt_ConnectAddress :: string

definition ResolveDnsTarget ::
    "string \<Rightarrow> ('s \<Rightarrow> string \<Rightarrow> (dns_error, 's \<times> dns_answer) res) \<Rightarrow> nat \<Rightarrow> nat \<Rightarrow> 's \<Rightarrow> (dns_error, 's \<times> dns_target) res" where
  "ResolveDnsTarget name query addressIndex maximumQueries s =
     bindE (ResolveDnsChain name query maximumQueries s) (\<lambda>(s', answer).
     let validationName = an_canonicalName answer in
     if \<not> DnsNameUsesTrustedResolver validationName
     then Inr (s', \<lparr>dt_ValidationName = validationName, dt_ConnectAddress = validationName\<rparr>)
     else if an_addresses answer = []
     then Inl (Throw (dns_runtime_error (''Trusted DNS returned no address for '' @ validationName @ ''.'')))
     else bindE (at (an_addresses answer) (addressIndex mod length (an_addresses answer))) (\<lambda>address.
       Inr (s', \<lparr>dt_ValidationName = validationName, dt_ConnectAddress = address\<rparr>)))"

text \<open>The n-th call of \<^verbatim>\<open>GeneratePrivateKey\<close> returns \<open>random n\<close>.\<close>

definition tls_query :: "(nat \<Rightarrow> byte list) \<Rightarrow> nat \<times> byte_stream \<Rightarrow> string \<Rightarrow> (dns_error, (nat \<times> byte_stream) \<times> dns_answer) res" where
  "tls_query random = (\<lambda>(n, stream) current.
     bindE (at (random n) 0) (\<lambda>r0. bindE (at (random n) 1) (\<lambda>r1.
     let transactionId = be16 r0 r1 in
     bindE (DnsQuery_Build current transactionId) (\<lambda>message.
     if length message > 65535 then Inl (Throw (dns_length_error ''DNS-over-TLS query exceeds the message size limit.'')) else
     bindE (lift_dns (WriteAll (Append16 (word_of_nat (length message)) @ message) stream)) (\<lambda>s1.
     bindE (lift_dns (ReadExact 2 s1)) (\<lambda>(s2, len).
     bindE (Read16 len 0) (\<lambda>responseSize.
     bindE (lift_dns (ReadExact (unat responseSize) s2)) (\<lambda>(s3, response).
     bindE (DnsAnswer_Parse response transactionId current) (\<lambda>answer. Inr ((Suc n, s3), answer))))))))))"

definition ResolveDnsOverTlsTarget ::
    "(nat \<Rightarrow> byte list) \<Rightarrow> byte_stream \<Rightarrow> string \<Rightarrow> nat \<Rightarrow> nat \<Rightarrow> (dns_error, (nat \<times> byte_stream) \<times> dns_target) res" where
  "ResolveDnsOverTlsTarget random stream name addressIndex maximumQueries =
     ResolveDnsTarget name (tls_query random) addressIndex maximumQueries (0, stream)"

section \<open>Memory safety\<close>

lemma read_name_loop_safe: "safe (read_name_loop message depth offset result)"
proof (induction message depth offset result rule: read_name_loop.induct)
  case (1 message depth offset result)
  show ?case using 1 by (subst read_name_loop.simps) (auto intro!: safe_bindE split: prod.splits)
qed

lemma ReadName_safe: "safe (ReadName message offset depth)"
  by (simp add: ReadName_def read_name_loop_safe)

lemma Dns_Read16_safe [simp]: "safe (Dns_Read16 message offset)"
  by (simp add: Dns_Read16_def)

lemma skip_questions_safe: "safe (skip_questions message n offset)"
  by (induction n arbitrary: offset) (auto intro!: safe_bindE ReadName_safe split: prod.splits)

lemma read_record_safe: "safe (read_record message offset)"
  unfolding read_record_def Let_def
  by (intro safe_bindE ReadName_safe) (auto intro!: safe_bindE ReadName_safe)

lemma read_records_safe: "safe (read_records message n offset)"
  by (induction n arbitrary: offset) (auto intro!: safe_bindE read_record_safe split: prod.splits)

lemma DnsAnswer_Parse_safe: "safe (DnsAnswer_Parse message transactionId queriedName)"
  by (auto simp: DnsAnswer_Parse_def dns_constants Let_def intro!: safe_bindE skip_questions_safe read_records_safe)

lemma query_labels_total: "\<exists>r. query_labels message offset result = Inr r"
proof (induction message offset result rule: query_labels.induct)
  case (1 message offset result)
  show ?case using 1 by (subst query_labels.simps) auto
qed

lemma DnsQuery_Name_total: "\<exists>r. DnsQuery_Name message = Inr r"
  using query_labels_total [of message 12 "[]"] by (auto simp: DnsQuery_Name_def dns_constants split: option.splits)

section \<open>Reading back a query name\<close>

lemma string_bytes_Cons [simp]: "string_bytes (c # s) = byte_of_char c # string_bytes s"
  by (simp add: string_bytes_def)

lemma drop_dot_append: "t \<noteq> [] \<Longrightarrow> drop_dot (s @ t) = s @ drop_dot t"
  by (simp add: drop_dot_def butlast_append)

lemma drop_dot_label [simp]: "CHR ''.'' \<notin> set s \<Longrightarrow> drop_dot s = s" "drop_dot (s @ ''.'') = s" "drop_dot [] = []"
  by (auto simp: drop_dot_def dest: last_in_set)

text \<open>The name after the labels of \<open>rest\<close> have been read behind \<open>result\<close>.\<close>

definition joined :: "string \<Rightarrow> string \<Rightarrow> string" where
  "joined result rest = (if rest = [] then result else if result = [] then drop_dot rest else result @ ''.'' @ drop_dot rest)"

lemma joined_label: "label \<noteq> [] \<Longrightarrow> CHR ''.'' \<notin> set label \<Longrightarrow> joined result label = add_label result (string_bytes label)"
  by (simp add: joined_def add_label_def)

lemma joined_dot:
  "label \<noteq> [] \<Longrightarrow> joined (add_label result (string_bytes label)) rest = joined result (label @ CHR ''.'' # rest)"
  using drop_dot_append [of rest "label @ ''.''"] drop_dot_append [of "CHR ''.'' # rest" label]
  by (cases "rest = []") (auto simp: joined_def add_label_def)

text \<open>One label at the front of what is left to build.\<close>

lemma build_labels_cases:
  assumes "build_labels n start = Inr bytes"
  obtains (finished) "length n \<le> start" "bytes = []"
  | (label) label rest tail where "label \<noteq> []" "length label \<le> 63" "CHR ''.'' \<notin> set label"
      "bytes = word_of_nat (length label) # string_bytes label @ tail" "build_labels n rest = Inr tail" "start < rest"
      "drop start n = label \<and> drop rest n = [] \<or> drop start n = label @ CHR ''.'' # drop rest n"
proof (cases "start < length n")
  case False
  then show thesis using assms finished by (subst (asm) build_labels.simps) simp
next
  case True
  show thesis
  proof (cases "find_char n CHR ''.'' start")
    case None
    let ?l = "drop start n"
    have "CHR ''.'' \<notin> set ?l" using None by (simp add: find_char_def index_of_None)
    moreover obtain tail where "bytes = word_of_nat (length ?l) # string_bytes ?l @ tail" "build_labels n (length n + 1) = Inr tail"
        "length ?l \<le> 63"
      using assms True None by (subst (asm) build_labels.simps) (auto simp: Let_def bindE_eq_Inr_iff split: if_splits)
    ultimately show thesis using True by (intro label [of ?l tail "length n + 1"]) auto
  next
    case (Some i)
    let ?l = "take (i - start) (drop start n)"
    from Some obtain k where k: "index_of CHR ''.'' (drop start n) = Some k" "i = start + k" by (auto simp: find_char_def)
    then have d: "drop start n = take k (drop start n) @ CHR ''.'' # drop (Suc k) (drop start n)" "CHR ''.'' \<notin> set (take k (drop start n))"
      "k < length (drop start n)" using index_of_split [OF k(1)] index_of_Some [OF k(1)] by auto
    obtain tail where t: "bytes = word_of_nat k # string_bytes (take k (drop start n)) @ tail" "build_labels n (i + 1) = Inr tail" "k \<noteq> 0" "k \<le> 63"
      using assms True Some k(2) by (subst (asm) build_labels.simps) (auto simp: Let_def bindE_eq_Inr_iff split: if_splits)
    show thesis
    proof (rule label [of "take k (drop start n)" tail "i + 1"])
      show "bytes = word_of_nat (length (take k (drop start n))) # string_bytes (take k (drop start n)) @ tail" using t d(3) by simp
      show "drop start n = take k (drop start n) \<and> drop (i + 1) n = [] \<or> drop start n = take k (drop start n) @ CHR ''.'' # drop (i + 1) n"
        using d(1) k(2) by (simp add: add.commute)
    qed (use t d k(2) in auto)
  qed
qed

lemma label_length:
  assumes "k \<noteq> 0" and "k \<le> 63"
  shows "(word_of_nat k :: byte) \<noteq> 0" "unat (word_of_nat k :: byte) = k" "(word_of_nat k :: byte) AND 0xc0 = 0"
proof -
  show u: "unat (word_of_nat k :: byte) = k" using assms by (simp add: unat_of_nat)
  then show "(word_of_nat k :: byte) \<noteq> 0" using assms by auto
  have "\<forall>k < 64. (word_of_nat k :: byte) AND 0xc0 = 0" by code_simp
  then show "(word_of_nat k :: byte) AND 0xc0 = 0" using assms by simp
qed

lemma read_label:
  fixes pre post :: "byte list"
  assumes "label \<noteq> []" and "length label \<le> 63"
  defines "m \<equiv> pre @ (word_of_nat (length label) # string_bytes label) @ post"
  shows "query_labels m (length pre) r = query_labels m (length pre + length label + 1) (add_label r (string_bytes label))"
    and "read_name_loop m depth (length pre) r = read_name_loop m depth (length pre + length label + 1) (add_label r (string_bytes label))"
proof -
  have c: "m ! length pre = word_of_nat (length label)" "take (length label) (drop (Suc (length pre)) m) = string_bytes label"
    "Suc (length pre + length label) \<le> length m" "length pre < length m" by (simp_all add: m_def)
  note l = label_length [of "length label", simplified, OF assms(1,2)]
  show "query_labels m (length pre) r = query_labels m (length pre + length label + 1) (add_label r (string_bytes label))"
    using c l assms(2) by (subst query_labels.simps) simp
  show "read_name_loop m depth (length pre) r = read_name_loop m depth (length pre + length label + 1) (add_label r (string_bytes label))"
    using c l assms(2) by (subst read_name_loop.simps) simp
qed

lemma read_labels:
  assumes "build_labels n start = Inr bytes"
  shows "query_labels (pre @ bytes @ 0 # post) (length pre) r = Inr (Some (joined r (drop start n), length pre + length bytes))"
    and "read_name_loop (pre @ bytes @ 0 # post) depth (length pre) r = Inr (joined r (drop start n), length pre + length bytes + 1)"
proof -
  have "query_labels (pre @ bytes @ 0 # post) (length pre) r = Inr (Some (joined r (drop start n), length pre + length bytes)) \<and>
    read_name_loop (pre @ bytes @ 0 # post) depth (length pre) r = Inr (joined r (drop start n), length pre + length bytes + 1)"
    using assms
  proof (induction "length n - start" arbitrary: start bytes pre r rule: less_induct)
    case less
    from less(2) show ?case
    proof (cases rule: build_labels_cases)
      case finished
      then show ?thesis by (subst query_labels.simps, subst read_name_loop.simps) (simp add: joined_def)
    next
      case (label label rest tail)
      let ?p = "pre @ word_of_nat (length label) # string_bytes label" and ?r = "add_label r (string_bytes label)"
      have "length n - rest < length n - start" using label(1,6,7) by (cases "start < length n") auto
      note ih = less(1) [OF this label(5), of ?p ?r]
      have m: "pre @ bytes @ 0 # post = pre @ (word_of_nat (length label) # string_bytes label) @ tail @ 0 # post" using label(4) by simp
      have "joined ?r (drop rest n) = joined r (drop start n)"
        using label(7) joined_dot [OF label(1), of r "drop rest n"] joined_label [OF label(1,3), of r]
        by (auto simp: joined_def)
      then show ?thesis using ih label(4) unfolding m read_label [OF label(1,2)] by (simp add: add.assoc)
    qed
  qed
  then show "query_labels (pre @ bytes @ 0 # post) (length pre) r = Inr (Some (joined r (drop start n), length pre + length bytes))"
    and "read_name_loop (pre @ bytes @ 0 # post) depth (length pre) r = Inr (joined r (drop start n), length pre + length bytes + 1)" by simp_all
qed

lemma NormalizeName_lower [simp]: "to_lower (drop_dot (NormalizeName name)) = drop_dot (NormalizeName name)"
  by (simp add: NormalizeName_def drop_dot_def to_lower_def map_butlast [symmetric])

text \<open>
  \<open>DnsQuery::Name\<close> reads the name of every query that \<open>DnsQuery::Build\<close> makes, and no byte string makes it or
  \<open>DnsAnswer::Parse\<close> touch memory outside the message.
\<close>

theorem dns_query_round_trip:
  "safe (DnsAnswer_Parse bytes transactionId name) \<and> safe (DnsQuery_Name bytes) \<and>
   (DnsQuery_Build name transactionId = Inr message \<longrightarrow> DnsQuery_Name message = Inr (Some (drop_dot (NormalizeName name))))"
proof (intro conjI impI)
  show "safe (DnsQuery_Name bytes)" using DnsQuery_Name_total [of bytes] by auto
  assume "DnsQuery_Build name transactionId = Inr message"
  then obtain labels where l: "build_labels (NormalizeName name) 0 = Inr labels"
    and m: "message = Append16 transactionId @ [1, 0, 0, 1, 0, 0, 0, 0, 0, 0] @ labels @ [0, 0, 1, 0, 1]"
    by (auto simp: DnsQuery_Build_def bindE_eq_Inr_iff)
  let ?pre = "Append16 transactionId @ [1, 0, 0, 1, 0, 0, 0, 0, 0, 0]"
  have "joined [] (NormalizeName name) = drop_dot (NormalizeName name)" by (simp add: joined_def)
  then have "query_labels message 12 [] = Inr (Some (drop_dot (NormalizeName name), 12 + length labels))"
    using read_labels(1) [OF l, of ?pre "[0, 1, 0, 1]" "[]"] by (simp add: m)
  moreover have "Read16 message 4 = Inr 1" "length message = 17 + length labels" by (simp_all add: m Append16_def be16_def)
  ultimately show "DnsQuery_Name message = Inr (Some (drop_dot (NormalizeName name)))"
    by (simp add: DnsQuery_Name_def dns_constants)
qed (rule DnsAnswer_Parse_safe)

theorem dns_query_round_trip_witness:
  "\<exists>message. DnsQuery_Build ''Login.ts.net.'' 7 = Inr message \<and> DnsQuery_Name message = Inr (Some ''login.ts.net'')"
proof -
  have "DnsQuery_Build ''Login.ts.net.'' 7 =
      Inr [0, 7, 1, 0, 0, 1, 0, 0, 0, 0, 0, 0, 5, 108, 111, 103, 105, 110, 2, 116, 115, 3, 110, 101, 116, 0, 0, 1, 0, 1]" by code_simp
  moreover have "drop_dot (NormalizeName ''Login.ts.net.'') = ''login.ts.net''" by code_simp
  ultimately show ?thesis using dns_query_round_trip [of "[]" 7 "''Login.ts.net.''"] by simp
qed

text \<open>A record of type A whose data are not four bytes contributes an empty address.\<close>

theorem dns_empty_address:
  "DnsAnswer_Parse [0, 7, 0x80, 0, 0, 0, 0, 1, 0, 0, 0, 0, 1, 97, 0, 0, 1, 0, 1, 0, 0, 0, 0, 0, 0] 7 ''a'' =
     Inr \<lparr>an_canonicalName = ''a'', an_addresses = [[]]\<rparr>"
  by code_simp

end
