(* ===== verification/Net_Map.thy ===== *)
theory Net_Map
  imports Net_Range Net_Packet "HOL-Library.List_Lexorder" "HOL-Library.Char_ord"
begin

text \<open>
  The network map a node works with, \<^verbatim>\<open>src/core/types/netmap/NetworkMap.cpp\<close> with its header, and the application
  capabilities derived from it, \<^verbatim>\<open>Capabilities.cpp\<close>: which peer a destination address is routed to, which peer a name
  or an address denotes, and which capabilities the control server's filters give to a peer.  The order on strings
  is that of \<^verbatim>\<open>std::string\<close>, by unsigned bytes.
\<close>

record user_profile =
  up_Id :: u64
  up_LoginName :: string
  up_DisplayName :: string
  up_ProfilePicUrl :: string

record capability_grant =
  cg_Sources :: "ip_range list"
  cg_Destinations :: "ip_range list"
  cg_Names :: "string list"

text \<open>The \<^verbatim>\<open>std::map\<close> of named filters is a list in ascending order of the names.\<close>

type_synonym named_capability_filters = "(string \<times> capability_grant list) list"

record peer_config =
  pc_nodeId :: u64
  pc_ownerId :: u64
  pc_name :: string
  pc_address :: string
  pc_addresses :: "string list"
  pc_key :: string
  pc_discoKey :: string
  pc_endpoints :: "string list"
  pc_allowedPrefixes :: "ipv4_prefix list"
  pc_derpRegion :: int
  pc_derpCode :: string
  pc_derpHost :: string
  pc_operatingSystem :: string
  pc_clientVersion :: string
  pc_owner :: string
  pc_peerApi4Port :: int
  pc_capabilities :: "string list"
  pc_peerApi6Port :: int
  pc_wireIngress :: bool
  pc_ingressEnabled :: bool
  pc_online :: bool
  pc_exitNodeOption :: bool
  pc_lastSeen :: string
  pc_keyExpiry :: string

record dns_route =
  dn_Suffix :: string
  dn_Resolvers :: "string list"

record network_config =
  nc_selfNodeId :: u64
  nc_capabilityFilters :: named_capability_filters
  nc_selfKey :: string
  nc_selfAddress :: string
  nc_selfAddresses :: "string list"
  nc_selfName :: string
  nc_selfMachineAuthorized :: bool
  nc_domain :: string
  nc_magicDnsDomain :: string
  nc_tailnetDisplayName :: string
  nc_accountName :: string
  nc_accountDisplayName :: string
  nc_accountProfilePicUrl :: string
  nc_capabilities :: "string list"
  nc_selfClientVersion :: string
  nc_selfPeerApi4Port :: int
  nc_selfPeerApi6Port :: int
  nc_selfWireIngress :: bool
  nc_selfIngressEnabled :: bool
  nc_dnsResolver :: string
  nc_dnsDomains :: "string list"
  nc_certDomains :: "string list"
  nc_dnsDefaultResolvers :: "string list"
  nc_dnsRoutes :: "dns_route list"
  nc_derpRegion :: int
  nc_derpHost :: string
  nc_derpCode :: string
  nc_stunHost :: string
  nc_stunPort :: int
  nc_userProfiles :: "user_profile list"
  nc_peers :: "peer_config list"
  nc_removedPeerNodeIds :: "u64 list"

text \<open>The default-constructed objects.\<close>

definition PeerConfig :: peer_config where
  "PeerConfig = \<lparr>pc_nodeId = 0, pc_ownerId = 0, pc_name = [], pc_address = [], pc_addresses = [], pc_key = [], pc_discoKey = [],
     pc_endpoints = [], pc_allowedPrefixes = [], pc_derpRegion = 0, pc_derpCode = [], pc_derpHost = [], pc_operatingSystem = [],
     pc_clientVersion = [], pc_owner = [], pc_peerApi4Port = 0, pc_capabilities = [], pc_peerApi6Port = 0, pc_wireIngress = False,
     pc_ingressEnabled = False, pc_online = False, pc_exitNodeOption = False, pc_lastSeen = [], pc_keyExpiry = []\<rparr>"

definition NetworkConfig :: network_config where
  "NetworkConfig = \<lparr>nc_selfNodeId = 0, nc_capabilityFilters = [], nc_selfKey = [], nc_selfAddress = [], nc_selfAddresses = [],
     nc_selfName = [], nc_selfMachineAuthorized = False, nc_domain = [], nc_magicDnsDomain = [], nc_tailnetDisplayName = [],
     nc_accountName = [], nc_accountDisplayName = [], nc_accountProfilePicUrl = [], nc_capabilities = [], nc_selfClientVersion = [],
     nc_selfPeerApi4Port = 0, nc_selfPeerApi6Port = 0, nc_selfWireIngress = False, nc_selfIngressEnabled = False,
     nc_dnsResolver = [], nc_dnsDomains = [], nc_certDomains = [], nc_dnsDefaultResolvers = [], nc_dnsRoutes = [], nc_derpRegion = 0,
     nc_derpHost = [], nc_derpCode = [], nc_stunHost = [], nc_stunPort = 3478, nc_userProfiles = [], nc_peers = [],
     nc_removedPeerNodeIds = []\<rparr>"

section \<open>Routes\<close>

text \<open>The inner loop of \<^verbatim>\<open>FindRoute\<close>, over the prefixes of the peer \<open>index\<close>, and the outer loop over the peers.\<close>

fun route_prefixes :: "u32 \<Rightarrow> nat option \<Rightarrow> nat \<Rightarrow> ipv4_prefix list \<Rightarrow> nat option \<times> int \<Rightarrow> ('e, nat option \<times> int) res" where
  "route_prefixes destination exitNode index [] found = Inr found"
| "route_prefixes destination exitNode index (p # ps) (result, best) =
     (if pf_length p = 0 \<and> exitNode \<noteq> Some index then route_prefixes destination exitNode index ps (result, best)
      else bindE (Ipv4Prefix_Contains p destination) (\<lambda>contains.
        if contains \<and> int (unat (pf_length p)) > best
        then route_prefixes destination exitNode index ps (Some index, int (unat (pf_length p)))
        else route_prefixes destination exitNode index ps (result, best)))"

fun route_peers :: "u32 \<Rightarrow> nat option \<Rightarrow> nat \<Rightarrow> peer_config list \<Rightarrow> nat option \<times> int \<Rightarrow> ('e, nat option \<times> int) res" where
  "route_peers destination exitNode index [] found = Inr found"
| "route_peers destination exitNode index (peer # peers) found =
     bindE (route_prefixes destination exitNode index (pc_allowedPrefixes peer) found) (\<lambda>found'.
       route_peers destination exitNode (Suc index) peers found')"

definition FindRoute :: "network_config \<Rightarrow> u32 \<Rightarrow> nat option \<Rightarrow> ('e, nat option) res" where
  "FindRoute config destination exitNode =
     bindE (route_peers destination exitNode 0 (nc_peers config) (None, - 1)) (\<lambda>(result, best).
       if result \<noteq> None then Inr result else
       case exitNode of
         Some index \<Rightarrow> Inr (if index < length (nc_peers config) \<and> pc_exitNodeOption (nc_peers config ! index) then exitNode else None)
       | None \<Rightarrow> Inr None)"

section \<open>Peers by name and address\<close>

definition MatchesTarget :: "peer_config \<Rightarrow> string \<Rightarrow> bool" where
  "MatchesTarget peer nameOrAddress =
     (let target = drop_dot nameOrAddress; name = drop_dot (pc_name peer); shortName = first_label name in
      pc_address peer = target \<or> name = target \<or> shortName = target \<or> target \<in> set (pc_addresses peer))"

definition find_index :: "('a \<Rightarrow> bool) \<Rightarrow> 'a list \<Rightarrow> nat option" where
  "find_index P xs = (let n = length (takeWhile (\<lambda>x. \<not> P x) xs) in if n < length xs then Some n else None)"

definition FindExitNode :: "network_config \<Rightarrow> string \<Rightarrow> bool \<Rightarrow> nat option" where
  "FindExitNode config nameOrAddress requireOnline =
     find_index (\<lambda>peer. \<not> (requireOnline \<and> \<not> pc_online peer) \<and> pc_exitNodeOption peer \<and> MatchesTarget peer nameOrAddress) (nc_peers config)"

definition FindPeer :: "network_config \<Rightarrow> string \<Rightarrow> bool \<Rightarrow> nat option" where
  "FindPeer config nameOrAddress requireOnline =
     find_index (\<lambda>peer. (\<not> requireOnline \<or> pc_online peer) \<and> MatchesTarget peer nameOrAddress) (nc_peers config)"

text \<open>\<open>aton\<close> is \<^verbatim>\<open>ip6addr_aton\<close> of lwIP, which reads IPv6 addresses.  The loop returns at once when a second owner is found.\<close>

definition owns_address :: "(string \<Rightarrow> byte list option) \<Rightarrow> ip_address \<Rightarrow> peer_config \<Rightarrow> bool" where
  "owns_address aton address peer \<longleftrightarrow> Ip_TryParse aton (pc_address peer) = Some address \<or>
     list_ex (\<lambda>text. Ip_TryParse aton text = Some address) (pc_addresses peer)"

fun find_owner :: "(peer_config \<Rightarrow> bool) \<Rightarrow> nat \<Rightarrow> peer_config list \<Rightarrow> nat option \<Rightarrow> nat option" where
  "find_owner matches index [] owner = owner"
| "find_owner matches index (peer # peers) owner =
     (if \<not> matches peer then find_owner matches (Suc index) peers owner
      else if owner \<noteq> None then None else find_owner matches (Suc index) peers (Some index))"

definition FindPeerAddress :: "(string \<Rightarrow> byte list option) \<Rightarrow> network_config \<Rightarrow> ip_address \<Rightarrow> nat option" where
  "FindPeerAddress aton config address = find_owner (owns_address aton address) 0 (nc_peers config) None"

definition Peer_DisplayName :: "peer_config \<Rightarrow> string" where
  "Peer_DisplayName peer = (let result = first_label (drop_dot (pc_name peer)) in if result = [] then pc_address peer else result)"

definition Network_DisplayName :: "network_config \<Rightarrow> string" where
  "Network_DisplayName config = Peer_DisplayName (PeerConfig\<lparr>pc_name := nc_selfName config, pc_address := nc_selfAddress config\<rparr>)"

text \<open>\<^verbatim>\<open>std::format("derp-{}", region)\<close>\<close>

definition show_int :: "int \<Rightarrow> string" where
  "show_int i = (if i < 0 then CHR ''-'' # show_nat (nat (- i)) else show_nat (nat i))"

definition DerpCodeForRegion :: "network_config \<Rightarrow> int \<Rightarrow> string" where
  "DerpCodeForRegion config region =
     (if region = nc_derpRegion config \<and> nc_derpCode config \<noteq> [] then nc_derpCode config
      else case List.find (\<lambda>peer. pc_derpRegion peer = region \<and> pc_derpCode peer \<noteq> []) (nc_peers config) of
        None \<Rightarrow> ''derp-'' @ show_int region
      | Some peer \<Rightarrow> pc_derpCode peer)"

definition FirstIpv6Address :: "network_config \<Rightarrow> string" where
  "FirstIpv6Address config =
     (case List.find (\<lambda>address. find_char address CHR '':'' 0 \<noteq> None) (nc_selfAddresses config) of None \<Rightarrow> [] | Some address \<Rightarrow> address)"

section \<open>Capabilities\<close>

fun join :: "string \<Rightarrow> string list \<Rightarrow> string" where
  "join separator [] = []"
| "join separator [x] = x"
| "join separator (x # y # xs) = x @ separator @ join separator (y # xs)"

definition CapabilitySummary :: "network_config \<Rightarrow> string" where
  "CapabilitySummary config = (if nc_capabilities config = [] then ''none'' else join '', '' (nc_capabilities config))"

definition HasCapability :: "network_config \<Rightarrow> string \<Rightarrow> bool" where
  "HasCapability config capability \<longleftrightarrow> capability \<in> set (nc_capabilities config)"

text \<open>\<^verbatim>\<open>std::from_chars\<close> into an \<^verbatim>\<open>int\<close> that must use all of the text.\<close>

definition parse_int :: "string \<Rightarrow> int option" where
  "parse_int text = (case from_chars_signed (- 2147483648) 2147483647 text of
     Some (v, used) \<Rightarrow> if used = length text then Some v else None | None \<Rightarrow> None)"

definition AllowsPortToken :: "string \<Rightarrow> int \<Rightarrow> bool" where
  "AllowsPortToken token port =
     (case find_char token CHR ''-'' 0 of
        None \<Rightarrow> parse_int token = Some port
      | Some dash \<Rightarrow> (case (parse_int (take dash token), parse_int (drop (Suc dash) token)) of
          (Some start, Some finish) \<Rightarrow> start \<le> port \<and> port \<le> finish
        | _ \<Rightarrow> False))"

text \<open>The loop over the tokens between commas, from the position \<open>start\<close>.\<close>

function port_tokens :: "string \<Rightarrow> nat \<Rightarrow> int \<Rightarrow> bool" where
  "port_tokens capability start port =
     (if start \<le> length capability then
        (case find_char capability CHR '','' start of
           None \<Rightarrow> AllowsPortToken (drop start capability) port
         | Some comma \<Rightarrow> AllowsPortToken (take (comma - start) (drop start capability)) port \<or> port_tokens capability (Suc comma) port)
      else False)"
  by pat_completeness auto
termination
  by (relation "measure (\<lambda>(capability, start, _). Suc (length capability) - start)") (auto simp: find_char_def)

definition AllowsFunnelPort :: "network_config \<Rightarrow> int \<Rightarrow> bool" where
  "AllowsFunnelPort config port =
     list_ex (\<lambda>capability. prefix ''https://tailscale.com/cap/funnel-ports'' capability \<and>
       (case find_sub capability ''ports='' 0 of None \<Rightarrow> False | Some query \<Rightarrow> port_tokens capability (query + 6) port))
     (nc_capabilities config)"

definition map_addresses :: "(string \<Rightarrow> byte list option) \<Rightarrow> string list \<Rightarrow> string \<Rightarrow> ip_address list" where
  "map_addresses aton values fallback =
     (let result = List.map_filter (Ip_TryParse aton) values in
      if result = [] then (case Ip_TryParse aton fallback of Some address \<Rightarrow> [address] | None \<Rightarrow> []) else result)"

definition Matches :: "ip_range list \<Rightarrow> ip_address \<Rightarrow> bool" where
  "Matches ranges address = list_ex (\<lambda>range. Contains range address) ranges"

definition grant_applies :: "ip_address list \<Rightarrow> ip_address list \<Rightarrow> capability_grant \<Rightarrow> bool" where
  "grant_applies sources destinations grant =
     list_ex (\<lambda>source. case List.find (\<lambda>value. ip_family value = ip_family source) destinations of
       None \<Rightarrow> False
     | Some destination \<Rightarrow> Matches (cg_Sources grant) source \<and> Matches (cg_Destinations grant) destination) sources"

text \<open>The names are collected in a \<^verbatim>\<open>std::set\<close> and copied out in its order.\<close>

definition peer_capabilities :: "(string \<Rightarrow> byte list option) \<Rightarrow> network_config \<Rightarrow> peer_config \<Rightarrow> string list" where
  "peer_capabilities aton config peer =
     (let destinations = map_addresses aton (nc_selfAddresses config) (nc_selfAddress config);
          sources = map_addresses aton (pc_addresses peer) (pc_address peer);
          grants = filter (grant_applies sources destinations) (concat (map snd (nc_capabilityFilters config)))
      in sort (remdups (concat (map cg_Names grants))))"

definition RefreshPeerCapabilities :: "(string \<Rightarrow> byte list option) \<Rightarrow> network_config \<Rightarrow> network_config" where
  "RefreshPeerCapabilities aton config =
     config\<lparr>nc_peers := map (\<lambda>peer. peer\<lparr>pc_capabilities := peer_capabilities aton config peer\<rparr>) (nc_peers config)\<rparr>"

section \<open>Longest-prefix routing\<close>

text \<open>What \<open>Ipv4Prefix::Parse\<close> produces, and the addresses it stands for.\<close>

definition prefix_ok :: "ipv4_prefix \<Rightarrow> bool" where
  "prefix_ok p \<longleftrightarrow> unat (pf_length p) \<le> 32 \<and> pf_network p AND mask (32 - unat (pf_length p)) = 0"

definition covers :: "ipv4_prefix \<Rightarrow> u32 \<Rightarrow> bool" where
  "covers p x \<longleftrightarrow> unat x div 2 ^ (32 - unat (pf_length p)) = unat (pf_network p) div 2 ^ (32 - unat (pf_length p))"

lemma PrefixMask_unat: "unat n \<le> 32 \<Longrightarrow> PrefixMask n = Inr (NOT (mask (32 - unat n)))"
  using PrefixMask_in [of "unat n"] by simp

lemma Contains_covers: "prefix_ok p \<Longrightarrow> Ipv4Prefix_Contains p x = Inr (covers p x)"
proof -
  assume p: "prefix_ok p"
  let ?k = "32 - unat (pf_length p)"
  have "pf_network p AND NOT (mask ?k) = pf_network p"
  proof (rule bit_word_eqI)
    fix i
    assume "i < LENGTH(32)"
    moreover have "\<not> bit (pf_network p AND mask ?k) i" using p by (simp add: prefix_ok_def)
    ultimately show "bit (pf_network p AND NOT (mask ?k)) i = bit (pf_network p) i" by (auto simp: bit_simps)
  qed
  then show ?thesis using p prefix_eq_iff [of x ?k "pf_network p"]
    by (simp add: Ipv4Prefix_Contains_def PrefixMask_unat prefix_ok_def covers_def)
qed

lemma masked_prefix_ok: "n \<le> 32 \<Longrightarrow> prefix_ok \<lparr>pf_network = a AND NOT (mask (32 - n)), pf_length = word_of_nat n\<rparr>"
proof -
  assume "n \<le> 32"
  moreover have "(a AND NOT (mask (32 - n))) AND mask (32 - n) = 0" by (rule bit_word_eqI) (auto simp: bit_simps)
  ultimately show ?thesis by (simp add: prefix_ok_def unat_of_nat)
qed

lemma Parse_prefix_ok: "Ipv4Prefix_Parse text = Inr (Some p) \<Longrightarrow> prefix_ok p"
  using masked_prefix_ok [of 32]
  by (auto simp: Ipv4Prefix_Parse_def Let_def PrefixMask_in PrefixMask_in [of 32, simplified] not_less masked_prefix_ok split: option.splits if_splits)

text \<open>A prefix of the peer \<open>i\<close> that may carry the destination: a default route only on the selected exit node.\<close>

definition route_candidate :: "u32 \<Rightarrow> nat option \<Rightarrow> nat \<Rightarrow> ipv4_prefix \<Rightarrow> bool" where
  "route_candidate d exitNode i p \<longleftrightarrow> covers p d \<and> (pf_length p = 0 \<longrightarrow> exitNode = Some i)"

definition better :: "nat \<times> ipv4_prefix \<Rightarrow> nat \<times> ipv4_prefix \<Rightarrow> bool" where
  "better = (\<lambda>(i, p) (j, q). pf_length q < pf_length p \<or> pf_length q = pf_length p \<and> i \<le> j)"

text \<open>The state of the search after the candidates in \<open>M\<close>.\<close>

definition best_of :: "(nat \<times> ipv4_prefix) set \<Rightarrow> nat option \<times> int \<Rightarrow> bool" where
  "best_of M found \<longleftrightarrow> (M = {} \<and> found = (None, - 1) \<or>
     (\<exists>i p. (i, p) \<in> M \<and> found = (Some i, int (unat (pf_length p))) \<and> (\<forall>c \<in> M. better (i, p) c)))"

lemma best_of_insert:
  assumes b: "best_of M (r, best)" and j: "\<forall>(i, q) \<in> M. i \<le> j"
  shows "best_of (insert (j, p) M) (if int (unat (pf_length p)) > best then (Some j, int (unat (pf_length p))) else (r, best))"
proof (cases "M = {}")
  case True
  have "- 1 < uint (pf_length p)" using uint_ge_0 [of "pf_length p"] by linarith
  then show ?thesis using b True by (simp add: best_of_def better_def)
next
  case False
  then obtain i q where q: "(i, q) \<in> M" "r = Some i" "best = int (unat (pf_length q))" "\<forall>c \<in> M. better (i, q) c"
    using b by (auto simp: best_of_def)
  show ?thesis
  proof (cases "int (unat (pf_length p)) > best")
    case True
    then have "pf_length q < pf_length p" using q(3) by (simp add: word_less_alt)
    then have "\<forall>c \<in> insert (j, p) M. better (j, p) c" using q(4) by (fastforce simp: better_def)
    then show ?thesis using True by (auto simp: best_of_def)
  next
    case no: False
    then have "pf_length p \<le> pf_length q" using q(3) by (simp add: word_le_def)
    then have "better (i, q) (j, p)" using q(1) j by (auto simp: better_def)
    then show ?thesis using no q by (auto simp: best_of_def)
  qed
qed

lemma route_prefixes_best:
  assumes "list_all prefix_ok ps" and "best_of M found" and "\<forall>(i, q) \<in> M. i \<le> index"
  shows "\<exists>found'. (route_prefixes d exitNode index ps found :: ('e, _) res) = Inr found' \<and>
    best_of (M \<union> {(index, p) | p. p \<in> set ps \<and> route_candidate d exitNode index p}) found'"
  using assms
proof (induction ps arbitrary: M found)
  case (Cons p ps)
  obtain r best where found: "found = (r, best)" by (cases found)
  show ?case
  proof (cases "route_candidate d exitNode index p")
    case True
    define next_found where "next_found =
      (if int (unat (pf_length p)) > best then (Some index, int (unat (pf_length p))) else (r, best))"
    let ?new = "{(index, q) | q. q \<in> set ps \<and> route_candidate d exitNode index q}"
    have step: "(route_prefixes d exitNode index (p # ps) found :: ('e, _) res) = route_prefixes d exitNode index ps next_found"
      using True Cons.prems(1) found by (auto simp: route_candidate_def Contains_covers next_found_def)
    have "best_of (insert (index, p) M) next_found"
      using best_of_insert Cons.prems found unfolding next_found_def by blast
    then obtain found' where f: "(route_prefixes d exitNode index ps next_found :: ('e, _) res) = Inr found'" "best_of (insert (index, p) M \<union> ?new) found'"
      using Cons.IH [of "insert (index, p) M" next_found] Cons.prems by auto
    have "insert (index, p) M \<union> ?new = M \<union> {(index, q) | q. q \<in> set (p # ps) \<and> route_candidate d exitNode index q}"
      using True by auto
    then show ?thesis using step f by auto
  next
    case False
    then have "(route_prefixes d exitNode index (p # ps) found :: ('e, _) res) = route_prefixes d exitNode index ps found"
      using Cons.prems(1) found by (auto simp: route_candidate_def Contains_covers)
    moreover have "{(index, q) | q. q \<in> set ps \<and> route_candidate d exitNode index q} =
        {(index, q) | q. q \<in> set (p # ps) \<and> route_candidate d exitNode index q}" using False by auto
    ultimately show ?thesis using Cons.IH [of M found] Cons.prems by auto
  qed
qed simp

definition routes_from :: "u32 \<Rightarrow> nat option \<Rightarrow> nat \<Rightarrow> peer_config list \<Rightarrow> (nat \<times> ipv4_prefix) set" where
  "routes_from d exitNode index peers =
     {(index + i, p) | i p. i < length peers \<and> p \<in> set (pc_allowedPrefixes (peers ! i)) \<and> route_candidate d exitNode (index + i) p}"

lemma routes_from_Cons:
  "routes_from d exitNode index (peer # peers) =
     {(index, p) | p. p \<in> set (pc_allowedPrefixes peer) \<and> route_candidate d exitNode index p} \<union> routes_from d exitNode (Suc index) peers"
  by (auto simp: routes_from_def less_Suc_eq_0_disj)

lemma route_peers_best:
  assumes "list_all (\<lambda>peer. list_all prefix_ok (pc_allowedPrefixes peer)) peers" and "best_of M found" and "\<forall>(i, q) \<in> M. i \<le> index"
  shows "\<exists>found'. (route_peers d exitNode index peers found :: ('e, _) res) = Inr found' \<and> best_of (M \<union> routes_from d exitNode index peers) found'"
  using assms
proof (induction peers arbitrary: index M found)
  case (Cons peer peers)
  let ?N = "M \<union> {(index, p) | p. p \<in> set (pc_allowedPrefixes peer) \<and> route_candidate d exitNode index p}"
  obtain found' where f: "(route_prefixes d exitNode index (pc_allowedPrefixes peer) found :: ('e, _) res) = Inr found'" "best_of ?N found'"
    using route_prefixes_best [of "pc_allowedPrefixes peer" M found index d exitNode] Cons.prems by auto
  have "\<forall>(i, q) \<in> ?N. i \<le> Suc index" using Cons.prems(3) by auto
  then show ?case using Cons.IH [of ?N found' "Suc index"] Cons.prems(1) f by (auto simp: routes_from_Cons Un_assoc)
qed (simp add: routes_from_def)

section \<open>Properties\<close>

lemma FindRoute_total:
  assumes "\<forall>peer \<in> set (nc_peers config). \<forall>p \<in> set (pc_allowedPrefixes peer). prefix_ok p"
  shows "\<exists>r. FindRoute config d exitNode = (Inr r :: ('e, nat option) res)"
proof -
  have "list_all (\<lambda>peer. list_all prefix_ok (pc_allowedPrefixes peer)) (nc_peers config)" using assms by (simp add: list_all_iff)
  from route_peers_best [OF this, of "{}" "(None, - 1)" 0 d exitNode] obtain r best where
    "(route_peers d exitNode 0 (nc_peers config) (None, - 1) :: ('e, _) res) = Inr (r, best)"
    by (auto simp: best_of_def)
  then show ?thesis by (auto simp: FindRoute_def split: option.splits)
qed

text \<open>
  C21: a destination is routed by the longest prefix.  With prefixes as \<open>Ipv4Prefix::Parse\<close> produces them, \<open>FindRoute\<close>
  always returns.  If some allowed prefix covers the destination (a default route counts for the selected exit node
  only), the result is a peer with the longest such prefix, and the first of them.  Otherwise it is the exit node, if
  it exists and offers to be one, and else nothing.
\<close>

theorem FindRoute_longest_prefix:
  assumes "\<forall>peer \<in> set (nc_peers config). \<forall>p \<in> set (pc_allowedPrefixes peer). prefix_ok p"
  shows "case FindRoute config d exitNode :: (unit, nat option) res of
      Inl _ \<Rightarrow> False
    | Inr result \<Rightarrow>
        (\<exists>i p. result = Some i \<and> (i, p) \<in> routes_from d exitNode 0 (nc_peers config) \<and>
          (\<forall>(j, q) \<in> routes_from d exitNode 0 (nc_peers config).
            pf_length q < pf_length p \<or> pf_length q = pf_length p \<and> i \<le> j)) \<or>
        routes_from d exitNode 0 (nc_peers config) = {} \<and>
          result = (case exitNode of Some e \<Rightarrow>
            if e < length (nc_peers config) \<and> pc_exitNodeOption (nc_peers config ! e) then Some e else None | None \<Rightarrow> None)"
proof -
  let ?M = "routes_from d exitNode 0 (nc_peers config)"
  have "list_all (\<lambda>peer. list_all prefix_ok (pc_allowedPrefixes peer)) (nc_peers config)" using assms by (simp add: list_all_iff)
  from route_peers_best [OF this, of "{}" "(None, - 1)" 0 d exitNode] obtain r best where
    f: "(route_peers d exitNode 0 (nc_peers config) (None, - 1) :: (unit, _) res) = Inr (r, best)" "best_of ?M (r, best)"
    by (auto simp: best_of_def)
  show ?thesis
  proof (cases "?M = {}")
    case True
    then have "r = None" using f(2) by (auto simp: best_of_def)
    then show ?thesis using f(1) True by (auto simp: FindRoute_def split: option.splits)
  next
    case False
    then obtain i p where "r = Some i" "(i, p) \<in> ?M" "\<forall>c \<in> ?M. better (i, p) c" using f(2) by (auto simp: best_of_def)
    then show ?thesis using f(1) by (auto simp: FindRoute_def better_def)
  qed
qed

text \<open>Two peers, one with 10.0.0.0/8 and one with 10.1.0.0/16.\<close>

definition example_routes :: network_config where
  "example_routes = NetworkConfig\<lparr>nc_peers := [PeerConfig\<lparr>pc_allowedPrefixes := [\<lparr>pf_network = 0x0a000000, pf_length = 8\<rparr>]\<rparr>,
     PeerConfig\<lparr>pc_allowedPrefixes := [\<lparr>pf_network = 0x0a010000, pf_length = 16\<rparr>]\<rparr>]\<rparr>"

theorem FindRoute_longest_prefix_witness:
  "\<exists>i. (FindRoute example_routes 0x0a010203 None :: (unit, nat option) res) = Inr (Some i)"
proof -
  have ok: "\<forall>peer \<in> set (nc_peers example_routes). \<forall>p \<in> set (pc_allowedPrefixes peer). prefix_ok p"
    by (simp add: example_routes_def prefix_ok_def mask_eq_exp_minus_1)
  have "(1, \<lparr>pf_network = 0x0a010000, pf_length = 16\<rparr>) \<in> routes_from 0x0a010203 None 0 (nc_peers example_routes)"
    by (simp add: example_routes_def routes_from_def route_candidate_def covers_def)
  then have "routes_from 0x0a010203 None 0 (nc_peers example_routes) \<noteq> {}" by blast
  then show ?thesis using FindRoute_longest_prefix [where d = "0x0a010203" and exitNode = None, OF ok] ok by (auto split: sum.splits)
qed

lemma find_owner_Some: "find_owner P index peers (Some i) = Some m \<longleftrightarrow> m = i \<and> (\<forall>j < length peers. \<not> P (peers ! j))"
  by (induction peers arbitrary: index) (auto simp: All_less_Suc2)

lemma find_owner_ge: "find_owner P index peers None = Some i \<Longrightarrow> index \<le> i"
  by (induction peers arbitrary: index) (force simp: find_owner_Some split: if_splits)+

lemma find_owner_unique:
  "find_owner P index peers None = Some (index + k) \<longleftrightarrow>
     k < length peers \<and> P (peers ! k) \<and> (\<forall>j < length peers. P (peers ! j) \<longrightarrow> j = k)"
proof (induction peers arbitrary: index k)
  case (Cons peer peers)
  show ?case
  proof (cases "P peer")
    case True
    then show ?thesis by (cases k) (auto simp: find_owner_Some All_less_Suc2)
  next
    case False
    then show ?thesis using Cons [of "Suc index"] find_owner_ge [of P "Suc index" peers index]
      by (cases k) (auto simp: All_less_Suc2)
  qed
qed simp

lemma grant_applies_iff:
  "grant_applies sources destinations grant \<longleftrightarrow> (\<exists>source \<in> set sources. \<exists>destination.
     List.find (\<lambda>own. ip_family own = ip_family source) destinations = Some destination \<and>
     (\<exists>range \<in> set (cg_Sources grant). Contains range source) \<and> (\<exists>range \<in> set (cg_Destinations grant). Contains range destination))"
  unfolding grant_applies_def list_ex_iff
  by (intro bex_cong refl) (auto simp: Matches_def list_ex_iff split: option.splits)

lemma peer_capabilities_iff:
  "name \<in> set (peer_capabilities aton config peer) \<longleftrightarrow>
     (\<exists>(key, grants) \<in> set (nc_capabilityFilters config). \<exists>grant \<in> set grants. name \<in> set (cg_Names grant) \<and>
       grant_applies (map_addresses aton (pc_addresses peer) (pc_address peer))
         (map_addresses aton (nc_selfAddresses config) (nc_selfAddress config)) grant)"
  by (force simp: peer_capabilities_def Let_def)

text \<open>
  C38: a peer is identified by an address only when it is the only one: \<open>FindPeerAddress\<close> returns a peer exactly when
  that peer has the address and no other has it.  The capabilities of a peer are refreshed to exactly those named by
  a grant of some filter that covers one of the peer's addresses together with the node's first address of the same
  family, in order and without duplicates, and nothing else of the map changes.
\<close>

theorem peer_identity:
  "(FindPeerAddress aton config address = Some i \<longleftrightarrow>
      i < length (nc_peers config) \<and> owns_address aton address (nc_peers config ! i) \<and>
      (\<forall>j < length (nc_peers config). owns_address aton address (nc_peers config ! j) \<longrightarrow> j = i)) \<and>
   (\<exists>capabilities. RefreshPeerCapabilities aton config =
        config\<lparr>nc_peers := map (\<lambda>peer. peer\<lparr>pc_capabilities := capabilities peer\<rparr>) (nc_peers config)\<rparr> \<and>
      (\<forall>peer. sorted (capabilities peer) \<and> distinct (capabilities peer) \<and> (\<forall>name. name \<in> set (capabilities peer) \<longleftrightarrow>
        (\<exists>(key, grants) \<in> set (nc_capabilityFilters config). \<exists>grant \<in> set grants. name \<in> set (cg_Names grant) \<and>
          (\<exists>source \<in> set (map_addresses aton (pc_addresses peer) (pc_address peer)). \<exists>destination.
            List.find (\<lambda>own. ip_family own = ip_family source)
              (map_addresses aton (nc_selfAddresses config) (nc_selfAddress config)) = Some destination \<and>
            (\<exists>range \<in> set (cg_Sources grant). Contains range source) \<and>
            (\<exists>range \<in> set (cg_Destinations grant). Contains range destination))))))"
proof (intro conjI exI allI)
  show "RefreshPeerCapabilities aton config =
      config\<lparr>nc_peers := map (\<lambda>peer. peer\<lparr>pc_capabilities := peer_capabilities aton config peer\<rparr>) (nc_peers config)\<rparr>"
    by (simp add: RefreshPeerCapabilities_def)
  show "sorted (peer_capabilities aton config peer)" "distinct (peer_capabilities aton config peer)" for peer
    by (simp_all add: peer_capabilities_def Let_def)
qed (use find_owner_unique [of "owns_address aton address" 0 "nc_peers config" i] in
    \<open>simp_all only: FindPeerAddress_def peer_capabilities_iff grant_applies_iff add_0\<close>)

definition example_peers :: network_config where
  "example_peers = NetworkConfig\<lparr>nc_peers := [PeerConfig, PeerConfig\<lparr>pc_address := ''100.64.0.2''\<rparr>]\<rparr>"

theorem peer_identity_witness: "FindPeerAddress (\<lambda>_. None) example_peers (Ip_of_v4 0x64400002) = Some 1"
proof -
  have "Ipv4_ToString 0x64400002 = ''100.64.0.2''" by (simp add: Ipv4_ToString_def Octets_def show_nat.simps)
  then have "Ipv4_TryParse ''100.64.0.2'' = Some 0x64400002" using Ipv4_TryParse_ToString [of "0x64400002"] by simp
  moreover have "Ip_TryParse (\<lambda>_. None) [] = None" by code_simp
  ultimately have "owns_address (\<lambda>_. None) (Ip_of_v4 0x64400002) (nc_peers example_peers ! 1)"
    "\<not> owns_address (\<lambda>_. None) (Ip_of_v4 0x64400002) (nc_peers example_peers ! 0)" "length (nc_peers example_peers) = 2"
    by (simp_all add: owns_address_def Ip_TryParse_def example_peers_def PeerConfig_def NetworkConfig_def)
  then show ?thesis using peer_identity [of "\<lambda>_. None" example_peers "Ip_of_v4 0x64400002" 1] by (auto simp: less_2_cases_iff)
qed

end
