(* ===== verification/Tailnet_Dns.thy ===== *)
theory Tailnet_Dns
  imports Dns_Message Net_Map
begin

text \<open>
  The resolver a node offers to its own system at 100.100.100.100, \<^verbatim>\<open>src/core/net/dns/TailnetDns.cpp\<close>: it reads the one
  question of a DNS query in a UDP datagram, looks the name up in the network map and builds the datagram that
  answers it.
\<close>

section \<open>TailnetDns.cpp\<close>

definition MagicDnsIpv4Address :: u32 where "MagicDnsIpv4Address = FromOctets 100 100 100 100"
definition DnsPort :: u16 where "DnsPort = 53"
definition DnsQuestionFooterSize :: nat where "DnsQuestionFooterSize = 4"
definition MaximumDnsLabelLength :: nat where "MaximumDnsLabelLength = 63"
definition DnsQueryResponseFlag :: u16 where "DnsQueryResponseFlag = 0x8000"
definition DnsAuthoritativeFlag :: u16 where "DnsAuthoritativeFlag = 0x0400"
definition DnsRecursionDesiredFlag :: u16 where "DnsRecursionDesiredFlag = 0x0100"
definition DnsOpcodeMask :: u16 where "DnsOpcodeMask = 0x7800"
definition DnsResponseCodeNameError :: u16 where "DnsResponseCodeNameError = 3"
definition DnsResponseCodeRefused :: u16 where "DnsResponseCodeRefused = 5"
definition DnsTypeAaaa :: u16 where "DnsTypeAaaa = 28"
definition DnsTypeAny :: u16 where "DnsTypeAny = 255"
definition DnsClassInternet :: u16 where "DnsClassInternet = 1"
definition TailnetRecordTimeToLive :: u32 where "TailnetRecordTimeToLive = 30"
definition DnsQuestionNamePointer :: u16 where "DnsQuestionNamePointer = 0xc00c"

lemmas tailnet_constants = DnsQuestionFooterSize_def MaximumDnsLabelLength_def DnsQueryResponseFlag_def
  DnsAuthoritativeFlag_def DnsRecursionDesiredFlag_def DnsOpcodeMask_def DnsResponseCodeNameError_def DnsResponseCodeRefused_def
  DnsTypeAaaa_def DnsTypeAny_def DnsClassInternet_def TailnetRecordTimeToLive_def DnsQuestionNamePointer_def

record dns_question =
  dq_Name :: string
  dq_Type :: u16
  dq_Class :: u16
  dq_EndOffset :: nat

record tailnet_host =
  th_Found :: bool
  th_Ipv4 :: "u32 list"
  th_Ipv6 :: "byte list list"

text \<open>All trailing dots are removed here.\<close>

definition Tailnet_NormalizeName :: "string \<Rightarrow> string" where
  "Tailnet_NormalizeName s = to_lower (rev (dropWhile (\<lambda>c. c = CHR ''.'') (rev s)))"

function question_labels :: "byte list \<Rightarrow> nat \<Rightarrow> string \<Rightarrow> (dns_error, (string \<times> nat) option) res" where
  "question_labels query offset name =
     (if offset < length query then
        bindE (at query offset) (\<lambda>len.
        if len = 0 then Inr (Some (name, offset))
        else if unat len = 0 \<or> unat len > MaximumDnsLabelLength \<or> offset + 1 + unat len > length query then Inr None
        else bindE (slice query (offset + 1) (unat len)) (\<lambda>label.
          question_labels query (offset + 1 + unat len) (add_label name label)))
      else Inr (Some (name, offset)))"
  by pat_completeness auto
termination
  by (relation "measure (\<lambda>(query, offset, _). length query - offset)") auto

declare question_labels.simps [simp del]

definition ParseQuestion :: "byte list \<Rightarrow> (dns_error, dns_question option) res" where
  "ParseQuestion query =
     (if length query < DnsHeaderSize then Inr None else
      bindE (Read16 query 4) (\<lambda>questions. if questions \<noteq> 1 then Inr None else
      bindE (question_labels query DnsHeaderSize []) (\<lambda>labels. case labels of
        None \<Rightarrow> Inr None
      | Some (name, offset) \<Rightarrow>
          if name = [] \<or> offset \<ge> length query \<or> offset + 1 + DnsQuestionFooterSize > length query then Inr None else
          bindE (Read16 query (offset + 1)) (\<lambda>type. bindE (Read16 query (offset + 3)) (\<lambda>class.
            Inr (Some \<lparr>dq_Name = Tailnet_NormalizeName name, dq_Type = type, dq_Class = class,
              dq_EndOffset = offset + 1 + DnsQuestionFooterSize\<rparr>))))))"

definition FirstLabel :: "string \<Rightarrow> string" where
  "FirstLabel name = first_label (Tailnet_NormalizeName name)"

definition append_ipv4 :: "u32 list \<Rightarrow> string \<Rightarrow> u32 list" where
  "append_ipv4 result text = (case Ipv4_TryParse text of Some address \<Rightarrow> if address \<in> set result then result else result @ [address]
     | None \<Rightarrow> result)"

definition Ipv4Addresses :: "string list \<Rightarrow> string \<Rightarrow> u32 list" where
  "Ipv4Addresses addresses primary = append_ipv4 (foldl append_ipv4 [] addresses) primary"

text \<open>\<^verbatim>\<open>boost::algorithm::unhex\<close> of an even number of digits.\<close>

definition hex_digit :: "char \<Rightarrow> byte option" where
  "hex_digit c = (let n = of_char c :: nat in
     if 48 \<le> n \<and> n \<le> 57 then Some (word_of_nat (n - 48))
     else if 97 \<le> n \<and> n \<le> 102 then Some (word_of_nat (n - 87))
     else if 65 \<le> n \<and> n \<le> 70 then Some (word_of_nat (n - 55)) else None)"

fun unhex :: "string \<Rightarrow> byte list option" where
  "unhex [] = Some []"
| "unhex [_] = None"
| "unhex (a # b # rest) = (case (hex_digit a, hex_digit b, unhex rest) of
     (Some x, Some y, Some bytes) \<Rightarrow> Some ((16 * x + y) # bytes) | _ \<Rightarrow> None)"

function parse_side :: "string \<Rightarrow> nat \<Rightarrow> u16 list option" where
  "parse_side side start =
     (if start < length side then
        let finish = (case find_char side CHR '':'' start of None \<Rightarrow> length side | Some colon \<Rightarrow> colon) in
        if finish = start \<or> finish - start > 4 then None else
        let wordText = take (finish - start) (drop start side);
            padded = (if length wordText mod 2 \<noteq> 0 then CHR ''0'' # wordText else wordText) in
        (case unhex padded of
           None \<Rightarrow> None
         | Some bytes \<Rightarrow> map_option ((#) (foldl (\<lambda>word b. push_bit 8 word OR ucast b) 0 bytes)) (parse_side side (finish + 1)))
      else Some [])"
  by pat_completeness auto
termination
  by (relation "measure (\<lambda>(side, start). length side - start)") (auto split: option.splits simp: find_char_def)

declare parse_side.simps [simp del]

text \<open>\<^verbatim>\<open>text.rfind("::")\<close>\<close>

definition rfind_sub :: "string \<Rightarrow> string \<Rightarrow> nat option" where
  "rfind_sub s p = map_option (\<lambda>i. length s - length p - i) (index_sub (rev p) (rev s))"

definition ParseIpv6 :: "string \<Rightarrow> byte list option" where
  "ParseIpv6 text =
     (if text = [] \<or> find_char text CHR ''.'' 0 \<noteq> None \<or> find_sub text ''::'' 0 \<noteq> rfind_sub text ''::'' then None else
      let compression = find_sub text ''::'' 0;
          left = parse_side (case compression of None \<Rightarrow> text | Some i \<Rightarrow> take i text) 0;
          right = parse_side (case compression of None \<Rightarrow> [] | Some i \<Rightarrow> drop (i + 2) text) 0 in
      case (left, right) of
        (Some l, Some r) \<Rightarrow>
          if compression = None \<and> length l \<noteq> 8 \<or> compression \<noteq> None \<and> length l + length r \<ge> 8 then None
          else Some (concat (map Append16 (l @ replicate (8 - length l - length r) 0 @ r)))
      | _ \<Rightarrow> None)"

definition Ipv6Addresses :: "string list \<Rightarrow> byte list list" where
  "Ipv6Addresses addresses = foldl (\<lambda>result text. case ParseIpv6 text of
     Some address \<Rightarrow> if address \<in> set result then result else result @ [address] | None \<Rightarrow> result) [] addresses"

record dns_node =
  dnd_Name :: string
  dnd_PrimaryAddress :: string
  dnd_Addresses :: "string list"

definition dns_nodes :: "network_config \<Rightarrow> dns_node list" where
  "dns_nodes config =
     \<lparr>dnd_Name = nc_selfName config, dnd_PrimaryAddress = nc_selfAddress config, dnd_Addresses = nc_selfAddresses config\<rparr> #
     map (\<lambda>peer. \<lparr>dnd_Name = pc_name peer, dnd_PrimaryAddress = pc_address peer, dnd_Addresses = pc_addresses peer\<rparr>) (nc_peers config)"

definition node_matches :: "string \<Rightarrow> dns_node \<Rightarrow> bool" where
  "node_matches queriedName node =
     (let normalized = Tailnet_NormalizeName (dnd_Name node); singleLabel = (find_char queriedName CHR ''.'' 0 = None) in
      normalized = queriedName \<or> singleLabel \<and> FirstLabel normalized = queriedName)"

text \<open>The loop over the nodes; a second match ends it without a result.\<close>

fun match_node :: "string \<Rightarrow> dns_node list \<Rightarrow> dns_node option \<Rightarrow> dns_node option" where
  "match_node queriedName [] found = found"
| "match_node queriedName (node # nodes) found =
     (if \<not> node_matches queriedName node then match_node queriedName nodes found
      else if found \<noteq> None then None else match_node queriedName nodes (Some node))"

definition FindHost :: "network_config \<Rightarrow> string \<Rightarrow> tailnet_host" where
  "FindHost config queriedName =
     (case match_node queriedName (dns_nodes config) None of
        None \<Rightarrow> \<lparr>th_Found = False, th_Ipv4 = [], th_Ipv6 = []\<rparr>
      | Some node \<Rightarrow> \<lparr>th_Found = True, th_Ipv4 = Ipv4Addresses (dnd_Addresses node) (dnd_PrimaryAddress node),
          th_Ipv6 = Ipv6Addresses (dnd_Addresses node)\<rparr>)"

definition IsTailnetName :: "network_config \<Rightarrow> string \<Rightarrow> bool" where
  "IsTailnetName config name \<longleftrightarrow> find_char name CHR ''.'' 0 = None \<or>
     (let magicDomain = (if nc_magicDnsDomain config = [] then nc_domain config else nc_magicDnsDomain config) in
      magicDomain \<noteq> [] \<and> DnsNameHasSuffix name magicDomain)"

definition ipv4_record :: "u32 \<Rightarrow> byte list" where
  "ipv4_record address = Append16 DnsQuestionNamePointer @ Append16 DnsTypeA @ Append16 DnsClassInternet @
     Append32 TailnetRecordTimeToLive @ Append16 4 @ Append32 address"

definition ipv6_record :: "byte list \<Rightarrow> byte list" where
  "ipv6_record address = Append16 DnsQuestionNamePointer @ Append16 DnsTypeAaaa @ Append16 DnsClassInternet @
     Append32 TailnetRecordTimeToLive @ Append16 (word_of_nat (length address)) @ address"

definition BuildDnsResponse :: "byte list \<Rightarrow> dns_question \<Rightarrow> u32 list \<Rightarrow> byte list list \<Rightarrow> u16 \<Rightarrow> (dns_error, byte list) res" where
  "BuildDnsResponse query question ipv4 ipv6 responseCode =
     bindE (Read16 query 2) (\<lambda>requestFlags.
     bindE (Read16 query 0) (\<lambda>transactionId.
     bindE (slice query DnsHeaderSize (dq_EndOffset question - DnsHeaderSize)) (\<lambda>asked_question.
       Inr (Append16 transactionId @
         Append16 (DnsQueryResponseFlag OR DnsAuthoritativeFlag OR (requestFlags AND DnsRecursionDesiredFlag) OR responseCode) @
         Append16 1 @ Append16 (word_of_nat (length ipv4 + length ipv6)) @ Append16 0 @ Append16 0 @ asked_question @
         concat (map ipv4_record ipv4) @ concat (map ipv6_record ipv6)))))"

text \<open>The addresses and the response code for a question.\<close>

definition tailnet_answer :: "network_config \<Rightarrow> dns_question \<Rightarrow> u32 list \<times> byte list list \<times> u16" where
  "tailnet_answer config question =
     (if dq_Class question \<noteq> DnsClassInternet \<or>
        dq_Type question \<noteq> DnsTypeA \<and> dq_Type question \<noteq> DnsTypeAaaa \<and> dq_Type question \<noteq> DnsTypeAny then ([], [], 0)
      else if \<not> IsTailnetName config (dq_Name question) then ([], [], DnsResponseCodeRefused)
      else let host = FindHost config (dq_Name question) in
        if \<not> th_Found host then ([], [], DnsResponseCodeNameError)
        else (if dq_Type question = DnsTypeA \<or> dq_Type question = DnsTypeAny then th_Ipv4 host else [],
              if dq_Type question = DnsTypeAaaa \<or> dq_Type question = DnsTypeAny then th_Ipv6 host else [], 0))"

definition TailnetDnsResponse_Build :: "network_config \<Rightarrow> byte list \<Rightarrow> (dns_error, byte list option) res" where
  "TailnetDnsResponse_Build config request =
     bindE (Ipv4UdpDatagram_Parse request) (\<lambda>datagram. case datagram of
       None \<Rightarrow> Inr None
     | Some d \<Rightarrow>
         if ud_destination d \<noteq> MagicDnsIpv4Address \<or> ud_destinationPort d \<noteq> DnsPort \<or> length (ud_payload d) < DnsHeaderSize then Inr None else
         bindE (Read16 (ud_payload d) 2) (\<lambda>flags.
         bindE (ParseQuestion (ud_payload d)) (\<lambda>parsed. case parsed of
           None \<Rightarrow> Inr None
         | Some question \<Rightarrow>
             if flags AND (DnsQueryResponseFlag OR DnsOpcodeMask) \<noteq> 0 then Inr None else
             (case tailnet_answer config question of (ipv4, ipv6, responseCode) \<Rightarrow>
               bindE (BuildDnsResponse (ud_payload d) question ipv4 ipv6 responseCode) (\<lambda>dnsResponse.
               bindE (Ipv4UdpDatagram_Build MagicDnsIpv4Address (ud_source d) DnsPort (ud_sourcePort d) dnsResponse) (\<lambda>packet.
                 Inr (Some packet)))))))"

section \<open>Reading the question\<close>

lemma question_labels_eq: "query_labels query offset name = Inr r \<Longrightarrow> question_labels query offset name = Inr r"
proof (induction query offset name rule: query_labels.induct)
  case (1 query offset name)
  from 1(2) show ?case
    by (subst (asm) query_labels.simps, subst question_labels.simps)
      (use 1(1) in \<open>auto simp: MaximumDnsLabelLength_def unat_eq_zero split: if_splits\<close>)
qed

definition header_of :: "u16 \<Rightarrow> byte list" where
  "header_of transactionId = Append16 transactionId @ [1, 0, 0, 1, 0, 0, 0, 0, 0, 0]"

lemma length_header_of [simp]: "length (header_of t) = 12"
  by (simp add: header_of_def)

lemma DnsQuery_Build_eq:
  "DnsQuery_Build name t = Inr query \<longleftrightarrow>
     (\<exists>labels. build_labels (NormalizeName name) 0 = Inr labels \<and> query = header_of t @ labels @ [0, 0, 1, 0, 1])"
  by (auto simp: DnsQuery_Build_def bindE_eq_Inr_iff header_of_def)

lemma Tailnet_NormalizeName_id: "s \<noteq> [] \<Longrightarrow> List.last s \<noteq> CHR ''.'' \<Longrightarrow> Tailnet_NormalizeName s = to_lower s"
  by (cases s rule: rev_cases) (simp_all add: Tailnet_NormalizeName_def)

lemma plain_name:
  assumes "NormalizeName name \<noteq> []" and "List.last (NormalizeName name) \<noteq> CHR ''.''"
  shows "joined [] (NormalizeName name) = NormalizeName name" "Tailnet_NormalizeName (NormalizeName name) = NormalizeName name"
    "NormalizeName (NormalizeName name) = NormalizeName name"
proof -
  have d: "drop_dot (NormalizeName name) = NormalizeName name" using assms by (simp add: drop_dot_def)
  then show "joined [] (NormalizeName name) = NormalizeName name" by (simp add: joined_def)
  have l: "to_lower (NormalizeName name) = NormalizeName name" by (simp add: NormalizeName_def)
  then show "Tailnet_NormalizeName (NormalizeName name) = NormalizeName name" using Tailnet_NormalizeName_id [OF assms] by simp
  show "NormalizeName (NormalizeName name) = NormalizeName name" unfolding NormalizeName_def [of "NormalizeName name"] d l ..
qed

lemma ParseQuestion_Build:
  fixes t :: u16
  assumes l: "build_labels (NormalizeName name) 0 = Inr labels"
    and n: "NormalizeName name \<noteq> []" "List.last (NormalizeName name) \<noteq> CHR ''.''"
  defines "query \<equiv> header_of t @ labels @ [0, 0, 1, 0, 1]"
  shows "ParseQuestion query = Inr (Some \<lparr>dq_Name = NormalizeName name, dq_Type = 1, dq_Class = 1, dq_EndOffset = length query\<rparr>)"
proof -
  have "query_labels query 12 [] = Inr (Some (NormalizeName name, 12 + length labels))"
    using read_labels(1) [OF l, of "header_of t" "[0, 1, 0, 1]" "[]"] plain_name [OF n] by (simp add: query_def)
  then have q: "question_labels query 12 [] = Inr (Some (NormalizeName name, 12 + length labels))" by (rule question_labels_eq)
  have len: "length query = 17 + length labels" by (simp add: query_def)
  have "query ! (13 + length labels) = 0" "query ! (14 + length labels) = 1" "query ! (15 + length labels) = 0" "query ! (16 + length labels) = 1"
    by (simp_all add: query_def nth_append)
  moreover have "query ! 4 = 0" "query ! 5 = 1" by (simp_all add: query_def header_of_def Append16_def)
  moreover have "be16 0 1 = (1 :: u16)" by (simp add: be16_def)
  ultimately show ?thesis using q len n plain_name [OF n]
    by (simp add: ParseQuestion_def dns_constants tailnet_constants)
qed

section \<open>Reading the answer\<close>

text \<open>A message whose question holds the name at offset 12, as in every response.\<close>

lemma pointer_name:
  assumes l: "build_labels (NormalizeName name) 0 = Inr labels" and m: "message = pre @ labels @ 0 # post" "length pre = 12"
    and p: "offset + 1 < length message" "message ! offset = 0xc0" "message ! (offset + 1) = 12"
  shows "ReadName message offset 0 = Inr (joined [] (NormalizeName name), offset + 2)"
proof -
  have "read_name_loop message 1 12 [] = Inr (joined [] (NormalizeName name), 12 + length labels + 1)"
    using read_labels(2) [OF l, of pre post 1 "[]"] m by simp
  moreover have "unat (0xc0 AND 0x3f :: byte) * 256 + unat (12 :: byte) = 12" by simp
  ultimately show ?thesis using p unfolding ReadName_def dns_constants
    by (subst read_name_loop.simps) (simp add: dns_constants)
qed

lemma read_ipv4_record:
  assumes l: "build_labels (NormalizeName name) 0 = Inr labels" and n: "NormalizeName name \<noteq> []" "List.last (NormalizeName name) \<noteq> CHR ''.''"
    and m: "message = pre @ labels @ 0 # post" "length pre = 12" "message = front @ ipv4_record a @ back"
  shows "read_record message (length front) =
    Inr (\<lparr>rr_Name = NormalizeName name, rr_Type = 1, rr_NameValue = [], rr_Address = Ipv4_ToString a\<rparr>, length front + 16)"
proof -
  let ?o = "length front"
  have r: "ipv4_record a = [0xc0, 12, 0, 1, 0, 1, 0, 0, 0, 30, 0, 4] @ Octets a"
    by (simp add: ipv4_record_def Append16_def Append32_def tailnet_constants dns_constants Octets_def)
  have l16: "length (ipv4_record a) = 16" by (simp add: r Octets_def)
  have cells: "message ! (?o + k) = (ipv4_record a) ! k" if "k < 16" for k
    using that m(3) l16 by (simp add: nth_append)
  have len: "?o + 16 \<le> length message" using m(3) l16 by simp
  have name: "ReadName message ?o 0 = Inr (NormalizeName name, ?o + 2)"
    using pointer_name [OF l m(1,2), of ?o] cells [of 0] cells [of 1] len r plain_name(1) [OF n] by simp
  have v: "be16 0 1 = (1 :: u16)" "be16 0 4 = (4 :: u16)" by (simp_all add: be16_def)
  show ?thesis using name v plain_name(3) [OF n] unfolding m(3) r
    by (simp add: read_record_def Dns_Read16_def dns_constants Let_def Ipv4_ToString_def nth_append Octets_def)
qed

lemma read_ipv4_records:
  assumes l: "build_labels (NormalizeName name) 0 = Inr labels" and n: "NormalizeName name \<noteq> []" "List.last (NormalizeName name) \<noteq> CHR ''.''"
    and m: "message = pre @ labels @ 0 # post" "length pre = 12" "message = front @ concat (map ipv4_record as)"
  shows "read_records message (length as) (length front) =
    Inr (map (\<lambda>a. \<lparr>rr_Name = NormalizeName name, rr_Type = 1, rr_NameValue = [], rr_Address = Ipv4_ToString a\<rparr>) as)"
  using m(3)
proof (induction "as" arbitrary: front)
  case (Cons a as)
  have len: "length (ipv4_record a) = 16" by (simp add: ipv4_record_def)
  have "read_record message (length front) =
      Inr (\<lparr>rr_Name = NormalizeName name, rr_Type = 1, rr_NameValue = [], rr_Address = Ipv4_ToString a\<rparr>, length front + 16)"
    using read_ipv4_record [OF l n m(1,2), of front a "concat (map ipv4_record as)"] Cons.prems by simp
  moreover have "read_records message (length as) (length (front @ ipv4_record a)) =
      Inr (map (\<lambda>a. \<lparr>rr_Name = NormalizeName name, rr_Type = 1, rr_NameValue = [], rr_Address = Ipv4_ToString a\<rparr>) as)"
    using Cons by simp
  ultimately show ?case using len by simp
qed simp

text \<open>The response to an A question of a query built by \<open>DnsQuery::Build\<close>.\<close>

definition reply_header :: "u16 \<Rightarrow> u16 \<Rightarrow> nat \<Rightarrow> byte list" where
  "reply_header t code count_of = Append16 t @ Append16 (0x8500 OR code) @ [0, 1] @ Append16 (word_of_nat count_of) @ [0, 0, 0, 0]"

definition reply_of :: "u16 \<Rightarrow> u16 \<Rightarrow> byte list \<Rightarrow> u32 list \<Rightarrow> byte list" where
  "reply_of t code labels ips = reply_header t code (length ips) @ labels @ [0, 0, 1, 0, 1] @ concat (map ipv4_record ips)"

lemma length_reply_header [simp]: "length (reply_header t code k) = 12"
  by (simp add: reply_header_def)

lemma BuildDnsResponse_reply:
  assumes "dq_EndOffset question = length (header_of t @ labels @ [0, 0, 1, 0, 1])"
  shows "BuildDnsResponse (header_of t @ labels @ [0, 0, 1, 0, 1]) question ips [] code = Inr (reply_of t code labels ips)"
proof -
  have "be16 1 0 = (0x100 :: u16)" by (simp add: be16_def)
  then show ?thesis using assms
    by (simp add: BuildDnsResponse_def reply_of_def reply_header_def header_of_def Append16_def dns_constants tailnet_constants or.assoc [symmetric])
qed

lemma Parse_reply:
  assumes l: "build_labels (NormalizeName name) 0 = Inr labels" and n: "NormalizeName name \<noteq> []" "List.last (NormalizeName name) \<noteq> CHR ''.''"
    and ips: "length ips < 65536"
  shows "DnsAnswer_Parse (reply_of t 0 labels ips) t name = Inr \<lparr>an_canonicalName = NormalizeName name, an_addresses = map Ipv4_ToString ips\<rparr>"
proof -
  let ?m = "reply_of t 0 labels ips" and ?h = "reply_header t 0 (length ips)"
  let ?rs = "map (\<lambda>a. \<lparr>rr_Name = NormalizeName name, rr_Type = 1, rr_NameValue = [], rr_Address = Ipv4_ToString a\<rparr>) ips"
  have m: "?m = ?h @ labels @ 0 # [0, 1, 0, 1] @ concat (map ipv4_record ips)"
    "?m = (?h @ labels @ [0, 0, 1, 0, 1]) @ concat (map ipv4_record ips)" by (simp_all add: reply_of_def)
  have h: "Dns_Read16 ?m 0 = Inr t" "?m ! 2 = 0x85" "?m ! 3 = 0" "Dns_Read16 ?m 4 = Inr 1" "Dns_Read16 ?m 6 = Inr (word_of_nat (length ips))"
    "17 \<le> length ?m"
    by (simp_all add: Dns_Read16_def reply_of_def reply_header_def Append16_def be16_def [of 0 1])
  have "read_name_loop ?m 0 12 [] = Inr (NormalizeName name, 12 + length labels + 1)"
    using read_labels(2) [OF l, of ?h "[0, 1, 0, 1] @ concat (map ipv4_record ips)" 0 "[]"] plain_name(1) [OF n] by (simp add: m(1))
  moreover have "12 + length labels + 1 + 4 \<le> length ?m" by (simp add: m(1))
  ultimately have q: "skip_questions ?m 1 12 = Inr (17 + length labels)" by (simp add: ReadName_def dns_constants)
  have r: "read_records ?m (length ips) (17 + length labels) = Inr ?rs"
    using read_ipv4_records [OF l n m(1) _ m(2)] by simp
  have u: "unat (word_of_nat (length ips) :: u16) = length ips" using ips by (simp add: unat_of_nat)
  have "List.find (renames (NormalizeName name)) ?rs = None" by (auto simp: find_None_iff renames_def dns_constants)
  then have "follow_aliases ?rs (length ?rs) (NormalizeName name) = NormalizeName name" by (cases "length ?rs") simp_all
  then show ?thesis using h q r u by (simp add: DnsAnswer_Parse_def dns_constants Let_def comp_def)
qed

lemma Parse_refusal:
  assumes "code = 3 \<or> code = 5"
  shows "DnsAnswer_Parse (reply_of t code labels []) t name = Inl (Throw (DnsResponseError (NormalizeName name) (ucast code)))"
proof -
  let ?m = "reply_of t code labels []"
  have "Dns_Read16 ?m 0 = Inr t" "?m ! 2 = 0x85" "?m ! 3 = ucast code" "17 \<le> length ?m"
    using assms by (auto simp: Dns_Read16_def reply_of_def reply_header_def Append16_def)
  then show ?thesis using assms by (auto simp: DnsAnswer_Parse_def dns_constants)
qed

lemma match_node_unique:
  "match_node q nodes None = (case filter (node_matches q) nodes of [node] \<Rightarrow> Some node | _ \<Rightarrow> None)"
proof -
  have "match_node q nodes (Some node) = (if filter (node_matches q) nodes = [] then Some node else None)" for nodes node
    by (induction nodes) auto
  then show ?thesis by (induction nodes) (auto split: list.splits)
qed

section \<open>Memory safety\<close>

lemma question_labels_total: "\<exists>r. question_labels query offset name = Inr r"
  using query_labels_total question_labels_eq by blast

lemma ParseQuestion_ok:
  "\<exists>r. ParseQuestion query = Inr r \<and> (\<forall>question. r = Some question \<longrightarrow> 12 \<le> dq_EndOffset question \<and> dq_EndOffset question \<le> length query)"
proof -
  have grows: "offset \<le> o'" if "question_labels query offset name = Inr (Some (n, o'))" for offset name n o'
    using that
  proof (induction query offset name rule: question_labels.induct)
    case (1 query offset name)
    from 1(2) show ?case
      by (subst (asm) question_labels.simps) (use 1(1) in \<open>fastforce split: if_splits\<close>)
  qed
  obtain r where r: "question_labels query 12 [] = Inr r" using question_labels_total by blast
  show ?thesis using r grows [of 12 "[]"]
    by (cases r) (auto simp: ParseQuestion_def dns_constants tailnet_constants)
qed

text \<open>
  C39: the resolver answers or ignores every packet: \<open>TailnetDnsResponse::Build\<close> returns on arbitrary bytes, without
  touching memory outside of them.
\<close>

theorem tailnet_dns_total: "\<exists>r. TailnetDnsResponse_Build config packet = Inr r"
proof -
  obtain d where d: "(Ipv4UdpDatagram_Parse packet :: (dns_error, _) res) = Inr d" using Ipv4UdpDatagram_Parse_total by blast
  show ?thesis
  proof (cases d)
    case (Some datagram)
    obtain r where r: "ParseQuestion (ud_payload datagram) = Inr r"
      "\<forall>question. r = Some question \<longrightarrow> 12 \<le> dq_EndOffset question \<and> dq_EndOffset question \<le> length (ud_payload datagram)"
      using ParseQuestion_ok by blast
    note def = TailnetDnsResponse_Build_def d Some dns_constants
    show ?thesis
    proof (cases "r = None \<or> length (ud_payload datagram) < 12")
      case True
      then show ?thesis using r(1) by (auto simp: def)
    next
      case False
      then obtain question where q: "r = Some question" by auto
      obtain x y code where a: "tailnet_answer config question = (x, y, code)" by (cases "tailnet_answer config question")
      obtain reply where reply: "BuildDnsResponse (ud_payload datagram) question x y code = Inr reply"
        using r(2) q False by (simp add: BuildDnsResponse_def dns_constants)
      obtain answer where "Ipv4UdpDatagram_Build MagicDnsIpv4Address (ud_source datagram) DnsPort (ud_sourcePort datagram) reply =
          (Inr answer :: (dns_error, _) res)" using Ipv4UdpDatagram_Build_eq by blast
      then show ?thesis using r(1) q False a reply by (simp add: def)
    qed
  qed (simp add: TailnetDnsResponse_Build_def d)
qed

text \<open>
  C20: a name resolved through the tailnet's own resolver.  The query that \<open>DnsQuery::Build\<close> makes for a name, sent as
  a datagram to 100.100.100.100, is answered by a datagram to the sender, and \<open>DnsAnswer::Parse\<close> reads from it the
  IPv4 addresses of the one node that has the name, NXDOMAIN (3) when none or several have it, and REFUSED (5) when
  the name is outside the tailnet.
\<close>

theorem tailnet_dns_resolves:
  assumes query: "DnsQuery_Build name t = Inr query" and n: "NormalizeName name \<noteq> []" "List.last (NormalizeName name) \<noteq> CHR ''.''"
    and size: "8 + length query + 16 * length (th_Ipv4 (FindHost config (NormalizeName name))) < 65536"
  shows "\<exists>request response reply.
    Ipv4UdpDatagram_Build client MagicDnsIpv4Address port DnsPort query = (Inr request :: (dns_error, _) res) \<and>
    TailnetDnsResponse_Build config request = Inr (Some response) \<and>
    Ipv4UdpDatagram_Parse response = (Inr (Some \<lparr>ud_source = MagicDnsIpv4Address, ud_destination = client, ud_sourcePort = DnsPort,
      ud_destinationPort = port, ud_payload = reply\<rparr>) :: (dns_error, _) res) \<and>
    DnsAnswer_Parse reply t name =
      (if \<not> IsTailnetName config (NormalizeName name) then Inl (Throw (DnsResponseError (NormalizeName name) 5))
       else case filter (node_matches (NormalizeName name)) (dns_nodes config) of
         [node] \<Rightarrow> Inr \<lparr>an_canonicalName = NormalizeName name,
           an_addresses = map Ipv4_ToString (Ipv4Addresses (dnd_Addresses node) (dnd_PrimaryAddress node))\<rparr>
       | _ \<Rightarrow> Inl (Throw (DnsResponseError (NormalizeName name) 3)))"
proof -
  let ?n = "NormalizeName name" and ?host = "FindHost config (NormalizeName name)"
  from query obtain labels where l: "build_labels ?n 0 = Inr labels" and q: "query = header_of t @ labels @ [0, 0, 1, 0, 1]"
    by (auto simp: DnsQuery_Build_eq)
  let ?question = "\<lparr>dq_Name = ?n, dq_Type = 1, dq_Class = 1, dq_EndOffset = length query\<rparr>"
  have parsed: "ParseQuestion query = Inr (Some ?question)" using ParseQuestion_Build [OF l n, of t] by (simp add: q)
  define code where "code = (if \<not> IsTailnetName config ?n then 5 else if \<not> th_Found ?host then 3 else 0 :: u16)"
  define ips where "ips = (if code = 0 then th_Ipv4 ?host else [])"
  have answer: "tailnet_answer config ?question = (ips, [], code)"
    by (simp add: tailnet_answer_def code_def ips_def tailnet_constants dns_constants)
  let ?reply = "reply_of t code labels ips"
  have built: "BuildDnsResponse query ?question ips [] code = Inr ?reply" using BuildDnsResponse_reply [of ?question t labels ips code] by (simp add: q)
  have "length (ipv4_record a) = 16" for a by (simp add: ipv4_record_def)
  then have "length (concat (map ipv4_record ips)) = 16 * length ips" by (induction ips) simp_all
  then have sizes: "8 + length ?reply < 65536" "length ips < 65536" "8 + length query < 65536"
    using size by (auto simp: q reply_of_def ips_def split: if_splits)
  obtain request where request: "Ipv4UdpDatagram_Build client MagicDnsIpv4Address port DnsPort query = (Inr request :: (dns_error, _) res)"
    "Ipv4UdpDatagram_Parse request = (Inr (Some \<lparr>ud_source = client, ud_destination = MagicDnsIpv4Address, ud_sourcePort = port,
      ud_destinationPort = DnsPort, ud_payload = query\<rparr>) :: (dns_error, _) res)"
    using udp_build_parse [OF sizes(3)] by blast
  obtain response where response: "Ipv4UdpDatagram_Build MagicDnsIpv4Address client DnsPort port ?reply = (Inr response :: (dns_error, _) res)"
    "Ipv4UdpDatagram_Parse response = (Inr (Some \<lparr>ud_source = MagicDnsIpv4Address, ud_destination = client, ud_sourcePort = DnsPort,
      ud_destinationPort = port, ud_payload = ?reply\<rparr>) :: (dns_error, _) res)"
    using udp_build_parse [OF sizes(1)] by blast
  have flags: "Read16 query 2 = (Inr 0x100 :: (dns_error, _) res)" "12 \<le> length query"
    by (simp_all add: q header_of_def Append16_def be16_def)
  have "TailnetDnsResponse_Build config request = Inr (Some response)"
    using request(2) response(1) parsed answer built flags
    by (simp add: TailnetDnsResponse_Build_def dns_constants tailnet_constants)
  moreover have "DnsAnswer_Parse ?reply t name =
      (if \<not> IsTailnetName config ?n then Inl (Throw (DnsResponseError ?n 5))
       else case filter (node_matches ?n) (dns_nodes config) of
         [node] \<Rightarrow> Inr \<lparr>an_canonicalName = ?n, an_addresses = map Ipv4_ToString (Ipv4Addresses (dnd_Addresses node) (dnd_PrimaryAddress node))\<rparr>
       | _ \<Rightarrow> Inl (Throw (DnsResponseError ?n 3)))"
    using Parse_reply [OF l n sizes(2), of t] Parse_refusal [of code t labels name]
    by (auto simp: code_def ips_def FindHost_def match_node_unique split: list.splits)
  ultimately show ?thesis using request(1) response(2) by blast
qed

definition example_tailnet :: network_config where
  "example_tailnet = NetworkConfig\<lparr>nc_selfName := ''node.example.ts.net.'', nc_selfAddress := ''100.64.0.1'', nc_magicDnsDomain := ''example.ts.net'',
     nc_peers := [PeerConfig\<lparr>pc_name := ''db.example.ts.net.'', pc_address := ''100.64.0.2'', pc_addresses := [''100.64.0.2'']\<rparr>]\<rparr>"

theorem tailnet_dns_resolves_witness:
  "\<exists>query request response reply. DnsQuery_Build ''db'' 9 = Inr query \<and>
    TailnetDnsResponse_Build example_tailnet request = Inr (Some response) \<and>
    DnsAnswer_Parse reply 9 ''db'' = Inr \<lparr>an_canonicalName = ''db'', an_addresses = [''100.64.0.2'']\<rparr>"
proof -
  let ?db = "\<lparr>dnd_Name = ''db.example.ts.net.'', dnd_PrimaryAddress = ''100.64.0.2'', dnd_Addresses = [''100.64.0.2'']\<rparr>"
  let ?self = "\<lparr>dnd_Name = ''node.example.ts.net.'', dnd_PrimaryAddress = ''100.64.0.1'', dnd_Addresses = []\<rparr>"
  have nodes: "dns_nodes example_tailnet = [?self, ?db]"
    by (simp add: dns_nodes_def example_tailnet_def NetworkConfig_def PeerConfig_def)
  have "node_matches ''db'' ?db" "\<not> node_matches ''db'' ?self" by code_simp+
  then have f: "filter (node_matches ''db'') (dns_nodes example_tailnet) = [?db]" by (simp add: nodes)
  have printed: "Ipv4_ToString 0x64400002 = ''100.64.0.2''" by (simp add: Ipv4_ToString_def Octets_def show_nat.simps)
  then have "Ipv4_TryParse ''100.64.0.2'' = Some 0x64400002" using Ipv4_TryParse_ToString [of "0x64400002"] by simp
  then have ips: "Ipv4Addresses [''100.64.0.2''] ''100.64.0.2'' = [0x64400002]" by (simp add: Ipv4Addresses_def append_ipv4_def)
  have q: "DnsQuery_Build ''db'' 9 = Inr [0, 9, 1, 0, 0, 1, 0, 0, 0, 0, 0, 0, 2, 100, 98, 0, 0, 1, 0, 1]" "NormalizeName ''db'' = ''db''" by code_simp+
  have "th_Ipv4 (FindHost example_tailnet ''db'') = [0x64400002]" "IsTailnetName example_tailnet ''db''"
    using f ips by (simp_all add: FindHost_def match_node_unique IsTailnetName_def find_char_def)
  then show ?thesis using tailnet_dns_resolves [where config = example_tailnet and client = "0x64400001" and port = 5353, OF q(1)] q f ips printed by auto
qed

text \<open>The parser of IPv6 addresses accepts a colon at the end.\<close>

theorem ipv6_trailing_colon: "ParseIpv6 ''1:2:3:4:5:6:7:8:'' = ParseIpv6 ''1:2:3:4:5:6:7:8'' \<and> ParseIpv6 ''1:2:3:4:5:6:7:8:'' \<noteq> None"
  by code_simp

end
