(* ===== verification/Dns_Forwarder.thy ===== *)
theory Dns_Forwarder
  imports Tailnet_Dns
begin

text \<open>
  Forwarding the system's DNS queries, \<^verbatim>\<open>src/core/ipn/ipnlocal/DnsForwarder.cpp\<close>, with the choice of the resolver,
  \<^verbatim>\<open>src/core/net/dns/ResolverSelection.cpp\<close>.  Every query gets a number of its own on the wire, so that clients that share
  the transport do not receive each other's answers.
\<close>

section \<open>ResolverSelection.cpp\<close>

record resolver_selection =
  rs_Address :: string
  rs_RouteMatched :: bool

text \<open>The loop over the routes: a route with a suffix at least as long as that of the selected one replaces it.\<close>

fun select_route :: "string option \<Rightarrow> dns_route list \<Rightarrow> string list option \<Rightarrow> nat \<Rightarrow> string list option" where
  "select_route name [] selected selectedSuffixLength = selected"
| "select_route name (route # routes) selected selectedSuffixLength =
     (if (case name of None \<Rightarrow> False | Some n \<Rightarrow> length (dn_Suffix route) \<ge> selectedSuffixLength \<and> DnsNameHasSuffix n (dn_Suffix route))
      then select_route name routes (Some (dn_Resolvers route)) (length (dn_Suffix route))
      else select_route name routes selected selectedSuffixLength)"

definition SelectResolver ::
    "byte list \<Rightarrow> string \<Rightarrow> dns_route list \<Rightarrow> string list \<Rightarrow> (dns_error, resolver_selection option) res" where
  "SelectResolver query primaryResolver routes defaultResolvers =
     bindE (DnsQuery_Name query) (\<lambda>name.
     case select_route name routes None 0 of
       Some resolvers \<Rightarrow> (let address = (case resolvers of [] \<Rightarrow> primaryResolver | r # _ \<Rightarrow> r) in
         Inr (if address = [] then None else Some \<lparr>rs_Address = address, rs_RouteMatched = True\<rparr>))
     | None \<Rightarrow> (let address = (case defaultResolvers of [] \<Rightarrow> primaryResolver | r # _ \<Rightarrow> r) in
         Inr (if address = [] then None else Some \<lparr>rs_Address = address, rs_RouteMatched = False\<rparr>)))"

section \<open>DnsForwarder.cpp\<close>

datatype forward_status = ForwardReady | InvalidQuery | UnsupportedResolver | ForwardFull

record dns_reply =
  rep_Client :: endpoint
  rep_Payload :: "byte list"

record dns_forward =
  dfw_Status :: forward_status
  dfw_Resolver :: endpoint
  dfw_Payload :: "byte list"
  dfw_TunnelPacket :: "byte list option"
  dfw_LocalReply :: "dns_reply option"

record pending_query =
  pq_Client :: endpoint
  pq_Self :: ipv4
  pq_Resolver :: ipv4
  pq_OriginalId :: u16
  pq_WireId :: u16
  pq_Tunneled :: bool
  pq_Started :: int

record dns_forwarder =
  fw_pending :: "pending_query list"
  fw_wireIds :: "u16 set"

definition PendingTimeout :: int where "PendingTimeout = 10 * 1000000000"
definition MaximumPending :: nat where "MaximumPending = 4096"
definition IdSize :: nat where "IdSize = 2"

definition DnsForwarder :: dns_forwarder where
  "DnsForwarder = \<lparr>fw_pending = [], fw_wireIds = {}\<rparr>"

definition no_endpoint :: endpoint where
  "no_endpoint = \<lparr>ep_address = 0, ep_port = 0\<rparr>"

definition forward_result :: "forward_status \<Rightarrow> dns_forward" where
  "forward_result status = \<lparr>dfw_Status = status, dfw_Resolver = no_endpoint, dfw_Payload = [], dfw_TunnelPacket = None, dfw_LocalReply = None\<rparr>"

definition Dns_Id :: "byte list \<Rightarrow> (dns_error, u16) res" where
  "Dns_Id payload = Read16 payload 0"

definition SetId :: "byte list \<Rightarrow> u16 \<Rightarrow> (dns_error, byte list) res" where
  "SetId payload i = bindE (put payload 0 (ucast (drop_bit 8 i))) (\<lambda>p. put p 1 (ucast i))"

text \<open>\<^verbatim>\<open>std::erase_if\<close> over the pending queries, releasing the numbers of those that go.\<close>

definition erase_pending :: "(pending_query \<Rightarrow> bool) \<Rightarrow> dns_forwarder \<Rightarrow> dns_forwarder" where
  "erase_pending gone f = f\<lparr>fw_pending := filter (\<lambda>q. \<not> gone q) (fw_pending f),
     fw_wireIds := fw_wireIds f - set (map pq_WireId (filter gone (fw_pending f)))\<rparr>"

definition Forwarder_Expire :: "int \<Rightarrow> dns_forwarder \<Rightarrow> dns_forwarder" where
  "Forwarder_Expire now f = erase_pending (\<lambda>q. now - pq_Started q \<ge> PendingTimeout) f"

text \<open>\<^verbatim>\<open>while (m_wireIds.test(wireId)) ++wireId;\<close> with the wrap-around of 16 bits.\<close>

partial_function (option) free_id :: "u16 set \<Rightarrow> u16 \<Rightarrow> u16 option" where
  "free_id used wireId = (if wireId \<in> used then free_id used (wireId + 1) else Some wireId)"

text \<open>
  \<open>forward_to\<close> is what \<open>Begin\<close> does once the number is chosen.  \<open>network\<close> and \<open>exitPeer\<close> are those of the policy; \<open>randomId\<close>
  is what the random source fills in.  \<open>None\<close> stands for a call that does not return.  Nothing that \<open>Begin\<close> calls throws.
\<close>

definition forward_to ::
    "endpoint \<Rightarrow> byte list \<Rightarrow> network_config \<Rightarrow> nat option \<Rightarrow> int \<Rightarrow> ipv4 \<Rightarrow> ipv4 \<Rightarrow> u16 \<Rightarrow> u16 \<Rightarrow> dns_forwarder \<Rightarrow>
       (dns_error, dns_forwarder \<times> dns_forward) res" where
  "forward_to client payload network exitPeer now resolver self originalId wireId f =
     bindE (SetId payload wireId) (\<lambda>query.
     bindE (if resolver = MagicDnsIpv4Address then Inr True
            else bindE (FindRoute network resolver exitPeer) (\<lambda>route. Inr (route \<noteq> None))) (\<lambda>tunneled.
     bindE (if tunneled
            then bindE (Ipv4UdpDatagram_Build self resolver (ep_port client) DnsPort query) (\<lambda>packet. Inr (Some packet))
            else Inr None) (\<lambda>packet.
       Inr (f\<lparr>fw_pending := fw_pending f @ [\<lparr>pq_Client = client, pq_Self = self, pq_Resolver = resolver,
              pq_OriginalId = originalId, pq_WireId = wireId, pq_Tunneled = tunneled, pq_Started = now\<rparr>],
              fw_wireIds := insert wireId (fw_wireIds f)\<rparr>,
            (forward_result ForwardReady)\<lparr>dfw_Resolver := \<lparr>ep_address = resolver, ep_port = DnsPort\<rparr>,
              dfw_Payload := query, dfw_TunnelPacket := packet\<rparr>))))"

definition drop_replaced :: "endpoint \<Rightarrow> u16 \<Rightarrow> int \<Rightarrow> dns_forwarder \<Rightarrow> dns_forwarder" where
  "drop_replaced client originalId now f =
     erase_pending (\<lambda>q. pq_Client q = client \<and> pq_OriginalId q = originalId) (Forwarder_Expire now f)"

definition Forwarder_Begin ::
    "endpoint \<Rightarrow> byte list \<Rightarrow> network_config \<Rightarrow> nat option \<Rightarrow> string list \<Rightarrow> int \<Rightarrow> u16 \<Rightarrow> dns_forwarder \<Rightarrow>
       (dns_error, dns_forwarder \<times> dns_forward) res option" where
  "Forwarder_Begin client payload network exitPeer originalResolvers now randomId f =
     (if length payload < IdSize then Some (Inr (f, forward_result InvalidQuery)) else
      case SelectResolver payload (nc_dnsResolver network) (nc_dnsRoutes network)
          (if nc_dnsDefaultResolvers network = [] then originalResolvers else nc_dnsDefaultResolvers network) of
        Inl e \<Rightarrow> Some (Inl e)
      | Inr selected \<Rightarrow>
          (case Option.bind selected (\<lambda>s. Ipv4_TryParse (rs_Address s)) of
             None \<Rightarrow> Some (Inr (f, forward_result UnsupportedResolver))
           | Some resolver \<Rightarrow>
          (case Ipv4_TryParse (nc_selfAddress network) of
             None \<Rightarrow> Some (Inr (f, forward_result UnsupportedResolver))
           | Some self \<Rightarrow>
          (case Dns_Id payload of Inl e \<Rightarrow> Some (Inl e) | Inr originalId \<Rightarrow>
             let f2 = drop_replaced client originalId now f in
             if length (fw_pending f2) \<ge> MaximumPending then Some (Inr (f2, forward_result ForwardFull)) else
             (case free_id (fw_wireIds f2) randomId of
                None \<Rightarrow> None
              | Some wireId \<Rightarrow> Some (forward_to client payload network exitPeer now resolver self originalId wireId f2))))))"

definition Forwarder_Finish :: "pending_query \<Rightarrow> byte list \<Rightarrow> dns_forwarder \<Rightarrow> (dns_error, dns_forwarder \<times> dns_reply) res" where
  "Forwarder_Finish q payload f =
     bindE (SetId payload (pq_OriginalId q)) (\<lambda>answer.
       Inr (f\<lparr>fw_pending := remove1 q (fw_pending f), fw_wireIds := fw_wireIds f - {pq_WireId q}\<rparr>,
            \<lparr>rep_Client = pq_Client q, rep_Payload = answer\<rparr>))"

definition finish_first :: "(pending_query \<Rightarrow> bool) \<Rightarrow> byte list \<Rightarrow> dns_forwarder \<Rightarrow> (dns_error, dns_forwarder \<times> dns_reply option) res" where
  "finish_first matches payload f =
     (case List.find matches (fw_pending f) of
        None \<Rightarrow> Inr (f, None)
      | Some q \<Rightarrow> bindE (Forwarder_Finish q payload f) (\<lambda>(f', reply). Inr (f', Some reply)))"

definition CompletePacket :: "byte list \<Rightarrow> dns_forwarder \<Rightarrow> (dns_error, dns_forwarder \<times> dns_reply option) res" where
  "CompletePacket packet f =
     bindE (Ipv4UdpDatagram_Parse packet) (\<lambda>datagram. case datagram of
       None \<Rightarrow> Inr (f, None)
     | Some d \<Rightarrow>
         if ud_sourcePort d \<noteq> DnsPort \<or> length (ud_payload d) < IdSize then Inr (f, None) else
         bindE (Dns_Id (ud_payload d)) (\<lambda>wireId.
           finish_first (\<lambda>q. pq_Tunneled q \<and> pq_Resolver q = ud_source d \<and> pq_Self q = ud_destination d \<and>
             ep_port (pq_Client q) = ud_destinationPort d \<and> pq_WireId q = wireId) (ud_payload d) f))"

definition CompleteDatagram :: "endpoint \<Rightarrow> byte list \<Rightarrow> dns_forwarder \<Rightarrow> (dns_error, dns_forwarder \<times> dns_reply option) res" where
  "CompleteDatagram source payload f =
     (if ep_port source \<noteq> DnsPort \<or> length payload < IdSize then Inr (f, None) else
      bindE (Dns_Id payload) (\<lambda>wireId.
        finish_first (\<lambda>q. \<not> pq_Tunneled q \<and> pq_Resolver q = ep_address source \<and> pq_WireId q = wireId) payload f))"

definition Forwarder_Reset :: "dns_forwarder \<Rightarrow> dns_forwarder" where
  "Forwarder_Reset f = f\<lparr>fw_pending := [], fw_wireIds := {}\<rparr>"

definition Forwarder_NextDeadline :: "dns_forwarder \<Rightarrow> int option" where
  "Forwarder_NextDeadline f =
     (case map pq_Started (fw_pending f) of [] \<Rightarrow> None | t # ts \<Rightarrow> Some (foldl min t ts + PendingTimeout))"

section \<open>The invariant\<close>

definition forwarder_ok :: "dns_forwarder \<Rightarrow> bool" where
  "forwarder_ok f \<longleftrightarrow> distinct (map pq_WireId (fw_pending f)) \<and> fw_wireIds f = set (map pq_WireId (fw_pending f)) \<and>
     length (fw_pending f) \<le> MaximumPending \<and> distinct (map (\<lambda>q. (pq_Client q, pq_OriginalId q)) (fw_pending f))"

text \<open>A free number exists and the loop finds it.\<close>

lemma free_id_ends:
  assumes "w + word_of_nat k \<notin> used" and "\<forall>j < k. w + word_of_nat j \<in> used"
  shows "free_id used w = Some (w + word_of_nat k)"
  using assms
proof (induction k arbitrary: w)
  case 0
  then show ?case by (simp add: free_id.simps)
next
  case (Suc k)
  have "w \<in> used" using Suc.prems(2) by auto
  moreover have "free_id used (w + 1) = Some (w + 1 + word_of_nat k)"
  proof (rule Suc.IH)
    show "w + 1 + word_of_nat k \<notin> used" using Suc.prems(1) by (simp add: add.assoc)
    show "\<forall>j < k. w + 1 + word_of_nat j \<in> used"
    proof (intro allI impI)
      fix j assume "j < k"
      then have "w + word_of_nat (Suc j) \<in> used" using Suc.prems(2) by blast
      then show "w + 1 + word_of_nat j \<in> used" by (simp add: add.assoc)
    qed
  qed
  ultimately show ?case by (subst free_id.simps) (simp add: add.assoc)
qed

lemma free_id_total:
  assumes "card used < 65536"
  obtains w' where "free_id used w = Some w'" "w' \<notin> used"
proof -
  have "\<exists>k. w + word_of_nat k \<notin> used"
  proof (rule ccontr)
    assume "\<nexists>k. w + word_of_nat k \<notin> used"
    then have "v \<in> used" for v using spec [of "\<lambda>k. w + word_of_nat k \<in> used" "unat (v - w)"] by simp
    then have "used = UNIV" by auto
    then show False using assms by (simp add: card_word)
  qed
  then obtain k where "w + word_of_nat k \<notin> used" "\<forall>j < k. w + word_of_nat j \<in> used"
    using exists_least_iff [of "\<lambda>k. w + word_of_nat k \<notin> used"] by auto
  then show thesis using that free_id_ends by blast
qed

lemma erase_pending_ok: "forwarder_ok f \<Longrightarrow> forwarder_ok (erase_pending P f)"
proof -
  assume f: "forwarder_ok f"
  have "set (map pq_WireId xs) - set (map pq_WireId (filter P xs)) = set (map pq_WireId (filter (\<lambda>q. \<not> P q) xs))"
    if "distinct (map pq_WireId xs)" for xs using that by (auto simp: distinct_map inj_on_def)
  then show ?thesis using f
    by (auto simp: forwarder_ok_def erase_pending_def distinct_map_filter intro: order.trans [OF length_filter_le])
qed

lemma remove_ok:
  assumes "forwarder_ok f" and "q \<in> set (fw_pending f)"
  shows "forwarder_ok (f\<lparr>fw_pending := remove1 q (fw_pending f), fw_wireIds := fw_wireIds f - {pq_WireId q}\<rparr>)"
proof -
  have d: "distinct (map pq_WireId (fw_pending f))" "distinct (fw_pending f)" using assms(1) by (auto simp: forwarder_ok_def distinct_map)
  have "remove1 q (fw_pending f) = filter (\<lambda>r. r \<noteq> q) (fw_pending f)"
    using d(2) by (auto simp: distinct_remove1_removeAll removeAll_filter_not_eq intro: filter_cong)
  moreover have "set (map pq_WireId (filter (\<lambda>r. r = q) (fw_pending f))) = {pq_WireId q}" using assms(2) by auto
  ultimately show ?thesis using erase_pending_ok [OF assms(1), of "\<lambda>r. r = q"] by (simp add: erase_pending_def)
qed

section \<open>Starting a query\<close>

lemma SetId_in: "2 \<le> length p \<Longrightarrow> SetId p i = Inr (Append16 i @ drop 2 p)"
  by (cases p rule: list.exhaust [case_product list.exhaust]; cases "tl p") (auto simp: SetId_def put_def Append16_def)

lemma Id_in: "2 \<le> length p \<Longrightarrow> Dns_Id p = Inr (be16 (p ! 0) (p ! 1))"
  by (simp add: Dns_Id_def)

lemma free_id_ok: "forwarder_ok f \<Longrightarrow> \<exists>w. free_id (fw_wireIds f) r = Some w \<and> w \<notin> fw_wireIds f"
proof -
  assume f: "forwarder_ok f"
  then have "card (fw_wireIds f) \<le> 4096"
    using card_length [of "map pq_WireId (fw_pending f)"] by (simp add: forwarder_ok_def MaximumPending_def)
  then have "card (fw_wireIds f) < 65536" by simp
  then show ?thesis by (rule free_id_total [where w = r]) blast
qed

lemma drop_replaced_ok: "forwarder_ok f \<Longrightarrow> forwarder_ok (drop_replaced client i now f)"
  by (simp add: drop_replaced_def Forwarder_Expire_def erase_pending_ok)

lemma drop_replaced_fresh: "q \<in> set (fw_pending (drop_replaced client i now f)) \<Longrightarrow> pq_Client q \<noteq> client \<or> pq_OriginalId q \<noteq> i"
  by (auto simp: drop_replaced_def erase_pending_def)

lemma SelectResolver_total: "\<exists>r. SelectResolver query primary routes defaults = Inr r"
  using DnsQuery_Name_total [of query] by (auto simp: SelectResolver_def Let_def split: option.split)

lemma forward_to_total:
  assumes "2 \<le> length payload" "\<forall>peer \<in> set (nc_peers network). \<forall>p \<in> set (pc_allowedPrefixes peer). prefix_ok p"
  shows "\<exists>r. forward_to client payload network exitPeer now resolver self i w f = Inr r"
proof -
  obtain route where "FindRoute network resolver exitPeer = (Inr route :: (dns_error, nat option) res)"
    using FindRoute_total [OF assms(2)] by blast
  then show ?thesis using assms(1) by (simp add: forward_to_def SetId_in Ipv4UdpDatagram_Build_eq)
qed

lemma Begin_returns:
  assumes f: "forwarder_ok f" and ok: "\<forall>peer \<in> set (nc_peers network). \<forall>p \<in> set (pc_allowedPrefixes peer). prefix_ok p"
  shows "\<exists>r. Forwarder_Begin client payload network exitPeer rs now randomId f = Some (Inr r)"
proof (cases "length payload < IdSize")
  case False
  then have len: "2 \<le> length payload" by (simp add: IdSize_def)
  obtain i where i: "Dns_Id payload = Inr i" using Id_in [OF len] by blast
  obtain w where w: "free_id (fw_wireIds (drop_replaced client i now f)) randomId = Some w"
    using free_id_ok [OF drop_replaced_ok [OF f]] by blast
  obtain s where s: "SelectResolver payload (nc_dnsResolver network) (nc_dnsRoutes network)
      (if nc_dnsDefaultResolvers network = [] then rs else nc_dnsDefaultResolvers network) = Inr s"
    using SelectResolver_total by blast
  show ?thesis
    unfolding Forwarder_Begin_def Let_def s i sum.case using False w forward_to_total [OF len ok]
    by (simp split: option.split)
qed (simp add: Forwarder_Begin_def)

definition query_queued :: "endpoint \<Rightarrow> byte list \<Rightarrow> network_config \<Rightarrow> dns_forwarder \<Rightarrow> dns_forward \<Rightarrow> dns_forwarder \<Rightarrow> pending_query \<Rightarrow> bool" where
  "query_queued client payload network f2 r f' q \<longleftrightarrow>
     f' = f2\<lparr>fw_pending := fw_pending f2 @ [q], fw_wireIds := insert (pq_WireId q) (fw_wireIds f2)\<rparr> \<and>
     pq_Client q = client \<and> dfw_Payload r = Append16 (pq_WireId q) @ drop 2 payload \<and>
     Ipv4_TryParse (nc_selfAddress network) = Some (pq_Self q) \<and>
     dfw_Resolver r = \<lparr>ep_address = pq_Resolver q, ep_port = DnsPort\<rparr> \<and> (pq_Tunneled q \<longleftrightarrow> dfw_TunnelPacket r \<noteq> None)"

lemma forward_to_query:
  assumes "forward_to client payload network exitPeer now resolver self i w f2 = Inr (f', r)" "2 \<le> length payload"
    "Ipv4_TryParse (nc_selfAddress network) = Some self"
  obtains q where "query_queued client payload network f2 r f' q" "pq_WireId q = w" "pq_OriginalId q = i"
proof -
  let ?q = "\<lambda>t. \<lparr>pq_Client = client, pq_Self = self, pq_Resolver = resolver, pq_OriginalId = i, pq_WireId = w, pq_Tunneled = t, pq_Started = now\<rparr>"
  have "query_queued client payload network f2 r f' (?q (dfw_TunnelPacket r \<noteq> None))"
    using assms by (auto simp: forward_to_def query_queued_def forward_result_def SetId_in bindE_eq_Inr_iff split: if_splits)
  then show thesis by (rule that) simp_all
qed

lemma Begin_cases:
  assumes f: "forwarder_ok f" and b: "Forwarder_Begin client payload network exitPeer rs now randomId f = Some (Inr (f', r))"
  obtains (same) "f' = f" "dfw_Status r \<noteq> ForwardReady"
  | (full) i where "f' = drop_replaced client i now f" "dfw_Status r \<noteq> ForwardReady"
  | (ready) q f2 where "query_queued client payload network f2 r f' q" "f2 = drop_replaced client (pq_OriginalId q) now f"
      "length (fw_pending f2) < MaximumPending" "pq_WireId q \<notin> fw_wireIds f2"
      "2 \<le> length payload" "Append16 (pq_OriginalId q) = take 2 payload"
proof (cases "length payload < IdSize")
  case True
  then show thesis using b same by (auto simp: Forwarder_Begin_def forward_result_def)
next
  case False
  then have len: "2 \<le> length payload" by (simp add: IdSize_def)
  define i where "i = be16 (payload ! 0) (payload ! 1)"
  have i: "Dns_Id payload = Inr i" "Append16 i = take 2 payload" using len
    by (cases payload; cases "tl payload"; auto simp: Id_in i_def Append16_def)+
  obtain w where w: "free_id (fw_wireIds (drop_replaced client i now f)) randomId = Some w" "w \<notin> fw_wireIds (drop_replaced client i now f)"
    using free_id_ok [OF drop_replaced_ok [OF f]] by blast
  consider "f' = f" "dfw_Status r \<noteq> ForwardReady" | "f' = drop_replaced client i now f" "dfw_Status r \<noteq> ForwardReady"
    | resolver self where "forward_to client payload network exitPeer now resolver self i w (drop_replaced client i now f) = Inr (f', r)"
        "Ipv4_TryParse (nc_selfAddress network) = Some self" "length (fw_pending (drop_replaced client i now f)) < MaximumPending"
    using b False i(1) w(1) by (auto simp: Forwarder_Begin_def Let_def forward_result_def split: sum.splits option.splits if_splits)
  then show thesis
  proof cases
    case (3 resolver self)
    obtain q where q: "query_queued client payload network (drop_replaced client i now f) r f' q" "pq_WireId q = w" "pq_OriginalId q = i"
      using forward_to_query [OF 3(1) len 3(2)] .
    show thesis by (rule ready [OF q(1)]) (use q w 3 i len in auto)
  qed (use same full in blast)+
qed

section \<open>The steps\<close>

inductive forwarder_step :: "dns_forwarder \<Rightarrow> dns_forwarder \<Rightarrow> bool" where
  begins: "Forwarder_Begin client payload network exitPeer rs now randomId f = Some (Inr (f', r)) \<Longrightarrow> forwarder_step f f'"
| packet: "CompletePacket p f = Inr (f', reply) \<Longrightarrow> forwarder_step f f'"
| datagram: "CompleteDatagram source payload f = Inr (f', reply) \<Longrightarrow> forwarder_step f f'"
| expire: "forwarder_step f (Forwarder_Expire now f)"
| reset: "forwarder_step f (Forwarder_Reset f)"

lemma finish_first_ok: "forwarder_ok f \<Longrightarrow> finish_first P payload f = Inr (f', reply) \<Longrightarrow> forwarder_ok f'"
  by (auto simp: finish_first_def Forwarder_Finish_def bindE_eq_Inr_iff find_Some_iff split: option.splits intro!: remove_ok)

lemma query_queued_ok:
  assumes "forwarder_ok f2" "query_queued client payload network f2 r f' q" "length (fw_pending f2) < MaximumPending"
    "pq_WireId q \<notin> fw_wireIds f2" "\<And>p. p \<in> set (fw_pending f2) \<Longrightarrow> pq_Client p \<noteq> client \<or> pq_OriginalId p \<noteq> pq_OriginalId q"
  shows "forwarder_ok f'"
  using assms by (fastforce simp: forwarder_ok_def query_queued_def)

lemma Forwarder_Begin_ok:
  assumes f: "forwarder_ok f" and b: "Forwarder_Begin client payload network exitPeer rs now randomId f = Some (Inr (f', r))"
  shows "forwarder_ok f'"
  using f b
proof (cases rule: Begin_cases)
  case (ready q f2)
  then show ?thesis using query_queued_ok [OF _ ready(1,3,4)] drop_replaced_ok [OF f] drop_replaced_fresh by metis
qed (use f drop_replaced_ok in auto)

lemma forwarder_step_ok: "forwarder_step f f' \<Longrightarrow> forwarder_ok f \<Longrightarrow> forwarder_ok f'"
proof (induction rule: forwarder_step.induct)
  case (packet p f f' reply)
  then show ?case by (auto simp: CompletePacket_def bindE_eq_Inr_iff split: option.splits if_splits intro: finish_first_ok)
next
  case (datagram source payload f f' reply)
  then show ?case by (auto simp: CompleteDatagram_def bindE_eq_Inr_iff split: if_splits intro: finish_first_ok)
next
  case (expire f now)
  then show ?case by (simp add: Forwarder_Expire_def erase_pending_ok)
next
  case (reset f)
  then show ?case by (simp add: Forwarder_Reset_def forwarder_ok_def)
qed (rule Forwarder_Begin_ok)

interpretation dns_forwarder: component_invariant forwarder_step forwarder_ok
  by unfold_locales (rule forwarder_step_ok)

lemma DnsForwarder_ok [simp]: "forwarder_ok DnsForwarder"
  by (simp add: forwarder_ok_def DnsForwarder_def)

lemma find_by_wire_id:
  assumes "distinct (map pq_WireId qs)" "q \<in> set qs" "P q" "\<And>r. P r \<Longrightarrow> pq_WireId r = pq_WireId q"
  shows "List.find P qs = Some q" "List.find P (remove1 q qs) = None"
proof -
  have only: "r = q" if "r \<in> set qs" "P r" for r
    using that assms(1,2) assms(4) [OF that(2)] by (metis distinct_map inj_onD)
  obtain r where r: "List.find P qs = Some r" using assms(2,3) by (cases "List.find P qs") (auto simp: find_None_iff)
  then have "r \<in> set qs" "P r" by (auto simp: find_Some_iff)
  then show "List.find P qs = Some q" using only r by simp
  have "distinct qs" using assms(1) by (simp add: distinct_map)
  then show "List.find P (remove1 q qs) = None" using only by (auto simp: find_None_iff)
qed

lemma finish_first_once:
  assumes "forwarder_ok f" "q \<in> set (fw_pending f)" "P q" "\<And>r. P r \<Longrightarrow> pq_WireId r = pq_WireId q" "2 \<le> length answer"
  shows "\<exists>f'. finish_first P answer f =
      Inr (f', Some \<lparr>rep_Client = pq_Client q, rep_Payload = Append16 (pq_OriginalId q) @ drop 2 answer\<rparr>) \<and>
    finish_first P answer f' = Inr (f', None)"
proof -
  have "distinct (map pq_WireId (fw_pending f))" using assms(1) by (simp add: forwarder_ok_def)
  note found = find_by_wire_id [where P = P, OF this assms(2-4)]
  then show ?thesis using assms(5) by (simp add: finish_first_def Forwarder_Finish_def SetId_in)
qed

lemma wire_id_answer: "2 \<le> length answer \<Longrightarrow> take 2 answer = Append16 w \<Longrightarrow> Dns_Id answer = Inr w"
  by (cases answer; cases "tl answer") (auto simp: Id_in Append16_def)

section \<open>Properties\<close>

text \<open>
  C19:  Whatever queries and answers, with whatever timeouts and resets, the forwarder has seen: the pending queries have
  different numbers on the wire, the numbers marked as used are exactly theirs, at most 4096 queries are pending, no client has
  two pending queries with one number of its own, and starting another query, whatever its bytes, returns a result: the search
  for a free number ends and nothing throws or leaves a buffer, for a network map whose prefixes are as the parser makes them.
\<close>

theorem forwarder_invariant:
  assumes "forwarder_step\<^sup>*\<^sup>* DnsForwarder f"
    and "\<forall>peer \<in> set (nc_peers network). \<forall>p \<in> set (pc_allowedPrefixes peer). prefix_ok p"
  shows "distinct (map pq_WireId (fw_pending f)) \<and> fw_wireIds f = set (map pq_WireId (fw_pending f)) \<and>
    length (fw_pending f) \<le> 4096 \<and> distinct (map (\<lambda>q. (pq_Client q, pq_OriginalId q)) (fw_pending f)) \<and>
    (\<exists>f' r. Forwarder_Begin client payload network exitPeer rs now randomId f = Some (Inr (f', r)))"
proof -
  have f: "forwarder_ok f" using dns_forwarder.steps_inv [OF assms(1) DnsForwarder_ok] .
  then show ?thesis using Begin_returns [OF f assms(2)] by (simp add: forwarder_ok_def MaximumPending_def)
qed

text \<open>
  C18:  A query that was started is answered to its own client, once: in every later state in which the query is still pending,
  a datagram from its resolver with the number the query has on the wire, directly or through the tunnel, is handed to the
  client that asked, with the client's own number put back, and the same datagram a second time is handed to nobody.
\<close>

theorem forwarder_answers:
  assumes reached: "forwarder_step\<^sup>*\<^sup>* DnsForwarder f"
    and started: "Forwarder_Begin client query network exitPeer rs now randomId f = Some (Inr (f', r))"
    and "dfw_Status r = ForwardReady"
  shows "\<exists>q self. q \<in> set (fw_pending f') \<and> Ipv4_TryParse (nc_selfAddress network) = Some self \<and>
    (\<forall>g answer. forwarder_step\<^sup>*\<^sup>* f' g \<and> q \<in> set (fw_pending g) \<and> take 2 answer = take 2 (dfw_Payload r) \<and>
       8 + length answer < 65536 \<longrightarrow>
       (case dfw_TunnelPacket r of
          None \<Rightarrow> \<exists>g'. CompleteDatagram (dfw_Resolver r) answer g =
              Inr (g', Some \<lparr>rep_Client = client, rep_Payload = take 2 query @ drop 2 answer\<rparr>) \<and>
            CompleteDatagram (dfw_Resolver r) answer g' = Inr (g', None)
        | Some _ \<Rightarrow> \<exists>packet g'. Ipv4UdpDatagram_Build (ep_address (dfw_Resolver r)) self DnsPort (ep_port client) answer =
              (Inr packet :: (dns_error, _) res) \<and>
            CompletePacket packet g =
              Inr (g', Some \<lparr>rep_Client = client, rep_Payload = take 2 query @ drop 2 answer\<rparr>) \<and>
            CompletePacket packet g' = Inr (g', None)))"
proof -
  have f: "forwarder_ok f" using dns_forwarder.steps_inv [OF reached DnsForwarder_ok] .
  obtain q f2 where q: "query_queued client query network f2 r f' q" "Append16 (pq_OriginalId q) = take 2 query"
    using f started by (cases rule: Begin_cases) (use assms(3) in auto)
  have payload: "take 2 (dfw_Payload r) = Append16 (pq_WireId q)" using q(1) by (simp add: query_queued_def Append16_def)
  show ?thesis
  proof (intro exI [of _ q] exI [of _ "pq_Self q"] conjI allI impI)
    show "q \<in> set (fw_pending f')" "Ipv4_TryParse (nc_selfAddress network) = Some (pq_Self q)" using q(1) by (auto simp: query_queued_def)
    fix g answer
    assume a: "forwarder_step\<^sup>*\<^sup>* f' g \<and> q \<in> set (fw_pending g) \<and> take 2 answer = take 2 (dfw_Payload r) \<and> 8 + length answer < 65536"
    have g: "forwarder_ok g" using a Forwarder_Begin_ok [OF f started] dns_forwarder.steps_inv by blast
    have t: "take 2 answer = Append16 (pq_WireId q)" using a payload by simp
    then have len: "2 \<le> length answer" by (cases answer; cases "tl answer") (auto simp: Append16_def)
    note ids = wire_id_answer [OF len t]
    note once = finish_first_once [where q = q and f = g, OF g _ _ _ len]
    show "case dfw_TunnelPacket r of
          None \<Rightarrow> \<exists>g'. CompleteDatagram (dfw_Resolver r) answer g =
              Inr (g', Some \<lparr>rep_Client = client, rep_Payload = take 2 query @ drop 2 answer\<rparr>) \<and>
            CompleteDatagram (dfw_Resolver r) answer g' = Inr (g', None)
        | Some _ \<Rightarrow> \<exists>packet g'. Ipv4UdpDatagram_Build (ep_address (dfw_Resolver r)) (pq_Self q) DnsPort (ep_port client) answer =
              (Inr packet :: (dns_error, _) res) \<and>
            CompletePacket packet g =
              Inr (g', Some \<lparr>rep_Client = client, rep_Payload = take 2 query @ drop 2 answer\<rparr>) \<and>
            CompletePacket packet g' = Inr (g', None)"
    proof (cases "dfw_TunnelPacket r")
      case None
      then show ?thesis
        using once [where P = "\<lambda>p. \<not> pq_Tunneled p \<and> pq_Resolver p = pq_Resolver q \<and> pq_WireId p = pq_WireId q"] a q len
        by (simp add: CompleteDatagram_def ids query_queued_def IdSize_def)
    next
      case (Some sent)
      obtain packet where p: "Ipv4UdpDatagram_Build (pq_Resolver q) (pq_Self q) DnsPort (ep_port client) answer = (Inr packet :: (dns_error, _) res)"
        "Ipv4UdpDatagram_Parse packet = (Inr (Some \<lparr>ud_source = pq_Resolver q, ud_destination = pq_Self q, ud_sourcePort = DnsPort,
           ud_destinationPort = ep_port client, ud_payload = answer\<rparr>) :: (dns_error, _) res)"
        using udp_build_parse [where 'a = dns_error] a by blast
      then show ?thesis
        using Some once [where P = "\<lambda>p. pq_Tunneled p \<and> pq_Resolver p = pq_Resolver q \<and> pq_Self p = pq_Self q \<and>
            ep_port (pq_Client p) = ep_port client \<and> pq_WireId p = pq_WireId q"] a q len
        by (simp add: CompletePacket_def ids query_queued_def IdSize_def)
    qed
  qed
qed

definition example_resolver :: network_config where
  "example_resolver = NetworkConfig\<lparr>nc_selfAddress := ''100.64.0.1'', nc_dnsResolver := ''8.8.8.8''\<rparr>"

lemma example_begin:
  "\<exists>f' r. Forwarder_Begin \<lparr>ep_address = 0x7f000001, ep_port = 5353\<rparr> [0, 9, 1, 0] example_resolver None [] 0 7 DnsForwarder = Some (Inr (f', r)) \<and>
     dfw_Status r = ForwardReady \<and> dfw_TunnelPacket r = None \<and> dfw_Payload r = [0, 7, 1, 0] \<and> dfw_Resolver r = \<lparr>ep_address = 0x08080808, ep_port = 53\<rparr> \<and>
     length (fw_pending f') = 1"
proof -
  have "Ipv4_ToString 0x64400001 = ''100.64.0.1''" "Ipv4_ToString 0x08080808 = ''8.8.8.8''"
    by (simp_all add: Ipv4_ToString_def Octets_def show_nat.simps)
  then have addresses: "Ipv4_TryParse ''100.64.0.1'' = Some 0x64400001" "Ipv4_TryParse ''8.8.8.8'' = Some 0x08080808"
    using Ipv4_TryParse_ToString [of "0x64400001"] Ipv4_TryParse_ToString [of "0x08080808"] by simp_all
  obtain name where "DnsQuery_Name [0, 9, 1, 0] = Inr name" using DnsQuery_Name_total by blast
  moreover have "free_id {} 7 = Some 7" by (simp add: free_id.simps)
  moreover have "MagicDnsIpv4Address \<noteq> 0x08080808" by code_simp
  ultimately show ?thesis
    using addresses by (simp add: Forwarder_Begin_def SelectResolver_def example_resolver_def NetworkConfig_def IdSize_def Dns_Id_def
      drop_replaced_def Forwarder_Expire_def erase_pending_def DnsForwarder_def MaximumPending_def forward_to_def SetId_def put_def
      FindRoute_def forward_result_def DnsPort_def)
qed

theorem forwarder_invariant_witness:
  "\<exists>f r. forwarder_step\<^sup>*\<^sup>* DnsForwarder f \<and> length (fw_pending f) = 1 \<and> fw_wireIds f = set (map pq_WireId (fw_pending f)) \<and>
     Forwarder_Begin \<lparr>ep_address = 0x7f000001, ep_port = 5353\<rparr> [0, 9, 1, 0] example_resolver None [] 0 7 f = Some (Inr r)"
proof -
  obtain f where f: "forwarder_step\<^sup>*\<^sup>* DnsForwarder f" "length (fw_pending f) = 1"
    using example_begin forwarder_step.begins by blast
  have ok: "\<forall>peer \<in> set (nc_peers example_resolver). \<forall>p \<in> set (pc_allowedPrefixes peer). prefix_ok p"
    by (simp add: example_resolver_def NetworkConfig_def)
  show ?thesis
    using forwarder_invariant [OF f(1) ok, of "\<lparr>ep_address = 0x7f000001, ep_port = 5353\<rparr>" "[0, 9, 1, 0]" None "[]" 0 7] f
    by (intro exI [of _ f]) auto
qed

theorem forwarder_answers_witness:
  "\<exists>f' r g'. Forwarder_Begin \<lparr>ep_address = 0x7f000001, ep_port = 5353\<rparr> [0, 9, 1, 0] example_resolver None [] 0 7 DnsForwarder = Some (Inr (f', r)) \<and>
     CompleteDatagram \<lparr>ep_address = 0x08080808, ep_port = 53\<rparr> [0, 7, 0x81, 0x80] f' =
       Inr (g', Some \<lparr>rep_Client = \<lparr>ep_address = 0x7f000001, ep_port = 5353\<rparr>, rep_Payload = [0, 9, 0x81, 0x80]\<rparr>)"
proof -
  obtain f' r where b: "Forwarder_Begin \<lparr>ep_address = 0x7f000001, ep_port = 5353\<rparr> [0, 9, 1, 0] example_resolver None [] 0 7 DnsForwarder = Some (Inr (f', r))"
    "dfw_Status r = ForwardReady" "dfw_TunnelPacket r = None" "dfw_Payload r = [0, 7, 1, 0]" "dfw_Resolver r = \<lparr>ep_address = 0x08080808, ep_port = 53\<rparr>"
    using example_begin by blast
  obtain q where q: "q \<in> set (fw_pending f')" and later: "\<forall>g answer. forwarder_step\<^sup>*\<^sup>* f' g \<and> q \<in> set (fw_pending g) \<and>
      take 2 answer = take 2 (dfw_Payload r) \<and> 8 + length answer < 65536 \<longrightarrow>
      (\<exists>g'. CompleteDatagram (dfw_Resolver r) answer g =
         Inr (g', Some \<lparr>rep_Client = \<lparr>ep_address = 0x7f000001, ep_port = 5353\<rparr>, rep_Payload = take 2 [0, 9, 1, 0] @ drop 2 answer\<rparr>) \<and>
       CompleteDatagram (dfw_Resolver r) answer g' = Inr (g', None))"
    using forwarder_answers [OF rtranclp.rtrancl_refl b(1,2)] b(3) by auto
  show ?thesis using spec [OF spec [OF later, of f'], of "[0, 7, 0x81, 0x80]"] q b by auto
qed

end
