(* ===== verification/Net_Stun.thy ===== *)
theory Net_Stun
  imports Net_Address
begin

unbundle bit_operations_syntax

text \<open>
  STUN, \<^verbatim>\<open>src/core/net/stun/Stun.cpp\<close>: the binding request a node sends to learn its address behind a translator, and
  the reader of the response.  A transaction id is a list of twelve bytes.
\<close>

definition BindingRequest :: u16 where "BindingRequest = 0x0001"
definition BindingSuccessResponse :: u16 where "BindingSuccessResponse = 0x0101"
definition SoftwareAttribute :: u16 where "SoftwareAttribute = 0x8022"
definition FingerprintAttribute :: u16 where "FingerprintAttribute = 0x8028"
definition XorMappedAddressAttribute :: u16 where "XorMappedAddressAttribute = 0x0020"
definition AlternateXorMappedAddressAttribute :: u16 where "AlternateXorMappedAddressAttribute = 0x8020"
definition MagicCookie :: u32 where "MagicCookie = 0x2112A442"
definition FingerprintXor :: u32 where "FingerprintXor = 0x5354554e"
definition StunHeaderSize :: nat where "StunHeaderSize = 20"
definition Ipv4XorMappedAddressSize :: nat where "Ipv4XorMappedAddressSize = 8"
definition Software :: string where "Software = ''tailnode''"

lemmas stun_constants = BindingRequest_def BindingSuccessResponse_def SoftwareAttribute_def FingerprintAttribute_def
  XorMappedAddressAttribute_def AlternateXorMappedAddressAttribute_def StunHeaderSize_def Ipv4XorMappedAddressSize_def Software_def

definition crc_bit :: "u32 \<Rightarrow> u32" where
  "crc_bit crc = drop_bit 1 crc XOR (0xedb88320 AND (0 - (crc AND 1)))"

definition crc_byte :: "u32 \<Rightarrow> byte \<Rightarrow> u32" where
  "crc_byte crc b = (crc_bit ^^ 8) (crc XOR ucast b)"

definition Crc32 :: "byte list \<Rightarrow> u32" where
  "Crc32 input = NOT (foldl crc_byte 0xffffffff input)"

definition BuildBindingRequest :: "byte list \<Rightarrow> byte list" where
  "BuildBindingRequest transaction =
     (let request = Append16 BindingRequest @ Append16 (word_of_nat (4 + length Software + 8)) @ Append32 MagicCookie @ transaction @
        Append16 SoftwareAttribute @ Append16 (word_of_nat (length Software)) @ string_bytes Software @
        Append16 FingerprintAttribute @ Append16 4
      in request @ Append32 (Crc32 request XOR FingerprintXor))"

text \<open>The loop over the attributes; \<open>finish\<close> is the end of the message.\<close>

function mapped_address :: "byte list \<Rightarrow> nat \<Rightarrow> nat \<Rightarrow> (unit, endpoint option) res" where
  "mapped_address response finish offset =
     (if offset + 4 \<le> finish then
        bindE (Read16 response offset) (\<lambda>type.
        bindE (Read16 response (offset + 2)) (\<lambda>len.
        if offset + 4 + unat len > length response then Inr None
        else bindE (if (type = XorMappedAddressAttribute \<or> type = AlternateXorMappedAddressAttribute) \<and> unat len \<ge> Ipv4XorMappedAddressSize
                    then bindE (at response (offset + 4 + 1)) (\<lambda>family. Inr (family = 0x01)) else Inr False) (\<lambda>found.
          if found then
            bindE (Read16 response (offset + 4 + 2)) (\<lambda>port.
            bindE (Read32 response (offset + 4 + 4)) (\<lambda>address.
              Inr (Some \<lparr>ep_address = address XOR MagicCookie, ep_port = port XOR ucast (drop_bit 16 MagicCookie)\<rparr>)))
          else mapped_address response finish (offset + 4 + (unat len + 3) div 4 * 4))))
      else Inr None)"
  by pat_completeness auto
termination
  by (relation "measure (\<lambda>(_, finish, offset). finish - offset)") auto

declare mapped_address.simps [simp del]

definition ParseMappedIpv4Endpoint :: "byte list \<Rightarrow> byte list \<Rightarrow> (unit, endpoint option) res" where
  "ParseMappedIpv4Endpoint transaction response =
     (if length response < StunHeaderSize then Inr None else
      bindE (Read16 response 0) (\<lambda>type. if type \<noteq> BindingSuccessResponse then Inr None else
      bindE (Read32 response 4) (\<lambda>cookie. if cookie \<noteq> MagicCookie then Inr None else
      bindE (slice response 8 (length transaction)) (\<lambda>echoed. if echoed \<noteq> transaction then Inr None else
      bindE (Read16 response 2) (\<lambda>messageLength.
        if StunHeaderSize + unat messageLength > length response then Inr None
        else mapped_address response (StunHeaderSize + unat messageLength) StunHeaderSize)))))"

section \<open>Safety\<close>

lemma mapped_address_total: "finish \<le> length response \<Longrightarrow> \<exists>r. mapped_address response finish offset = Inr r"
proof (induction "finish - offset" arbitrary: offset rule: less_induct)
  case less
  show ?case
  proof (cases "offset + 4 \<le> finish")
    case True
    define len where "len = be16 (response ! (offset + 2)) (response ! (offset + 2 + 1))"
    have reads: "Read16 response offset = (Inr (be16 (response ! offset) (response ! (offset + 1))) :: (unit, _) res)"
      "Read16 response (offset + 2) = (Inr len :: (unit, _) res)"
      using True less.prems by (simp_all add: len_def)
    have "finish - (offset + 4 + (unat len + 3) div 4 * 4) < finish - offset" using True by linarith
    then obtain r where "mapped_address response finish (offset + 4 + (unat len + 3) div 4 * 4) = Inr r"
      using less.hyps less.prems by blast
    then show ?thesis by (subst mapped_address.simps) (use True reads in \<open>auto simp: stun_constants\<close>)
  qed (simp add: mapped_address.simps)
qed

lemma ParseMappedIpv4Endpoint_total: "length transaction = 12 \<Longrightarrow> \<exists>r. ParseMappedIpv4Endpoint transaction response = Inr r"
  using mapped_address_total by (auto simp: ParseMappedIpv4Endpoint_def StunHeaderSize_def)

section \<open>Reading a response\<close>

text \<open>A server's response: attributes the reader does not look at, then the translated address.\<close>

definition stun_attribute :: "u16 \<times> byte list \<Rightarrow> byte list" where
  "stun_attribute a = (let (type, v) = a in
     Append16 type @ Append16 (word_of_nat (length v)) @ v @ replicate ((length v + 3) div 4 * 4 - length v) 0)"

definition mapped_attribute :: "endpoint \<Rightarrow> byte list" where
  "mapped_attribute e = Append16 XorMappedAddressAttribute @ Append16 8 @ [0, 1] @
     Append16 (ep_port e XOR ucast (drop_bit 16 MagicCookie)) @ Append32 (ep_address e XOR MagicCookie)"

definition stun_response :: "byte list \<Rightarrow> (u16 \<times> byte list) list \<Rightarrow> endpoint \<Rightarrow> byte list \<Rightarrow> byte list" where
  "stun_response transaction attributes e more_bytes =
     (let body = concat (map stun_attribute attributes) @ mapped_attribute e @ more_bytes in
      Append16 BindingSuccessResponse @ Append16 (word_of_nat (length body)) @ Append32 MagicCookie @ transaction @ body)"

definition other_attribute :: "u16 \<times> byte list \<Rightarrow> bool" where
  "other_attribute a \<longleftrightarrow> fst a \<noteq> XorMappedAddressAttribute \<and> fst a \<noteq> AlternateXorMappedAddressAttribute \<and> length (snd a) < 65536"

lemma stun_attribute_length: "length (stun_attribute (t, v)) = 4 + (length v + 3) div 4 * 4"
  by (simp add: stun_attribute_def)

lemma mapped_address_skip:
  assumes "other_attribute (t, v)" "finish \<le> length (pre @ stun_attribute (t, v) @ post)" "length pre + 4 + (length v + 3) div 4 * 4 \<le> finish"
  shows "mapped_address (pre @ stun_attribute (t, v) @ post) finish (length pre) =
    mapped_address (pre @ stun_attribute (t, v) @ post) finish (length pre + 4 + (length v + 3) div 4 * 4)"
proof -
  define r where "r = pre @ stun_attribute (t, v) @ post"
  have t: "Read16 r (length pre) = (Inr t :: (unit, _) res)"
    using Read16_Append16 [of pre "length pre" t] by (simp add: r_def stun_attribute_def)
  have n: "Read16 r (length pre + 2) = (Inr (word_of_nat (length v)) :: (unit, _) res)"
    using Read16_Append16 [of "pre @ Append16 t" "length pre + 2" "word_of_nat (length v)"] by (simp add: r_def stun_attribute_def)
  have u: "unat (word_of_nat (length v) :: u16) = length v" using assms(1) by (simp add: other_attribute_def unat_of_nat)
  have "length pre + 4 + length v \<le> length r" using assms(2,3) unfolding r_def by linarith
  then show ?thesis unfolding r_def [symmetric]
    using assms(1,3) t n u by (subst mapped_address.simps) (simp add: other_attribute_def)
qed

lemma mapped_address_found:
  assumes "length pre + 12 \<le> finish" "finish \<le> length (pre @ mapped_attribute e @ post)"
  shows "mapped_address (pre @ mapped_attribute e @ post) finish (length pre) = Inr (Some e)"
proof -
  define r where "r = pre @ mapped_attribute e @ post"
  let ?h = "pre @ Append16 XorMappedAddressAttribute"
  have t: "Read16 r (length pre) = (Inr XorMappedAddressAttribute :: (unit, _) res)"
    using Read16_Append16 [of pre "length pre" XorMappedAddressAttribute] by (simp add: r_def mapped_attribute_def)
  have n: "Read16 r (length pre + 2) = (Inr 8 :: (unit, _) res)"
    using Read16_Append16 [of ?h "length pre + 2" 8] by (simp add: r_def mapped_attribute_def)
  have f: "at r (length pre + 4 + 1) = (Inr 1 :: (unit, _) res)"
    by (simp add: r_def mapped_attribute_def at_def nth_append Append16_def)
  have p: "Read16 r (length pre + 4 + 2) = (Inr (ep_port e XOR ucast (drop_bit 16 MagicCookie)) :: (unit, _) res)"
    using Read16_Append16 [of "?h @ Append16 8 @ [0, 1]" "length pre + 4 + 2"] by (simp add: r_def mapped_attribute_def)
  have a: "Read32 r (length pre + 4 + 4) = (Inr (ep_address e XOR MagicCookie) :: (unit, _) res)"
    using Read32_Append32 [of "?h @ Append16 8 @ [0, 1] @ Append16 (ep_port e XOR ucast (drop_bit 16 MagicCookie))" "length pre + 4 + 4"]
    by (simp add: r_def mapped_attribute_def)
  have "length pre + 4 + 8 \<le> length r" using assms by (simp add: r_def mapped_attribute_def)
  then show ?thesis unfolding r_def [symmetric]
    using assms(1) t n f p a by (subst mapped_address.simps) (simp add: Ipv4XorMappedAddressSize_def xor.assoc)
qed

lemma mapped_address_attributes:
  assumes "list_all other_attribute attributes"
    "length pre + length (concat (map stun_attribute attributes)) + 12 \<le> finish"
    "finish \<le> length (pre @ concat (map stun_attribute attributes) @ mapped_attribute e @ post)"
  shows "mapped_address (pre @ concat (map stun_attribute attributes) @ mapped_attribute e @ post) finish (length pre) = Inr (Some e)"
  using assms
proof (induction attributes arbitrary: pre)
  case Nil
  then show ?case using mapped_address_found [of pre finish e post] by simp
next
  case (Cons a attributes)
  obtain t v where a: "a = (t, v)" by (cases a)
  let ?rest = "concat (map stun_attribute attributes) @ mapped_attribute e @ post"
  have "mapped_address (pre @ stun_attribute (t, v) @ ?rest) finish (length pre) =
      mapped_address (pre @ stun_attribute (t, v) @ ?rest) finish (length pre + 4 + (length v + 3) div 4 * 4)"
    using Cons.prems by (intro mapped_address_skip) (simp_all add: a stun_attribute_length)
  moreover have "mapped_address ((pre @ stun_attribute (t, v)) @ ?rest) finish (length (pre @ stun_attribute (t, v))) = Inr (Some e)"
    using Cons.prems by (intro Cons.IH) (simp_all add: a)
  ultimately show ?case by (simp add: a stun_attribute_length add.assoc)
qed

section \<open>Properties\<close>

text \<open>
  C24: the reader of STUN responses is total and memory safe on arbitrary bytes; and for a response to the node's own
  transaction it returns the address and port the server saw, whatever other attributes come before and after the translated
  address.
\<close>

theorem stun_mapped_endpoint:
  assumes "length transaction = 12" "list_all other_attribute attributes"
    and "length (stun_response transaction attributes e rest) < 65536"
  shows "ParseMappedIpv4Endpoint transaction (stun_response transaction attributes e rest) = Inr (Some e) \<and>
    (\<exists>r. ParseMappedIpv4Endpoint transaction bytes = Inr r)"
proof
  define body where "body = concat (map stun_attribute attributes) @ mapped_attribute e @ rest"
  define n where "n = (word_of_nat (length body) :: u16)"
  let ?pre = "Append16 BindingSuccessResponse @ Append16 n @ Append32 MagicCookie @ transaction"
  have r: "stun_response transaction attributes e rest = ?pre @ body" by (simp add: stun_response_def Let_def body_def n_def)
  have len: "length ?pre = 20" "length body < 65536" using assms(1,3) unfolding r by simp_all
  have u: "unat n = length body" using len(2) by (simp add: n_def unat_of_nat)
  have "Read16 (?pre @ body) 0 = (Inr BindingSuccessResponse :: (unit, _) res)"
    using Read16_Append16 [of "[]" 0 BindingSuccessResponse] by simp
  moreover have "Read16 (?pre @ body) 2 = (Inr n :: (unit, _) res)"
    using Read16_Append16 [of "Append16 BindingSuccessResponse" 2 n] by simp
  moreover have "Read32 (?pre @ body) 4 = (Inr MagicCookie :: (unit, _) res)"
    using Read32_Append32 [of "Append16 BindingSuccessResponse @ Append16 n" 4 MagicCookie] by simp
  moreover have "slice (?pre @ body) 8 (length transaction) = (Inr transaction :: (unit, _) res)"
    by (simp add: slice_def Append16_def Append32_def)
  moreover have "mapped_address (?pre @ body) (20 + length body) 20 = Inr (Some e)"
    using mapped_address_attributes [OF assms(2), of ?pre "20 + length body" e rest] len(1)
    by (simp add: body_def mapped_attribute_def)
  moreover have "length (?pre @ body) = 20 + length body" using len(1) by simp
  ultimately show "ParseMappedIpv4Endpoint transaction (stun_response transaction attributes e rest) = Inr (Some e)"
    unfolding r ParseMappedIpv4Endpoint_def StunHeaderSize_def using u by simp
  show "\<exists>r. ParseMappedIpv4Endpoint transaction bytes = Inr r" using ParseMappedIpv4Endpoint_total [OF assms(1)] .
qed

theorem stun_mapped_endpoint_witness:
  "ParseMappedIpv4Endpoint (replicate 12 7)
     (stun_response (replicate 12 7) [(0x8022, [116, 103, 0])] \<lparr>ep_address = 0xc0000201, ep_port = 41641\<rparr> []) =
     Inr (Some \<lparr>ep_address = 0xc0000201, ep_port = 41641\<rparr>)"
  using stun_mapped_endpoint [of "replicate 12 7" "[(0x8022, [116, 103, 0])]" "\<lparr>ep_address = 0xc0000201, ep_port = 41641\<rparr>" "[]"]
  by (simp add: other_attribute_def stun_constants stun_response_def stun_attribute_length mapped_attribute_def)

text \<open>The request announces the length it has and carries the checksum of all that precedes it.\<close>

theorem binding_request_layout:
  "length transaction = 12 \<Longrightarrow> length (BuildBindingRequest transaction) = 40 \<and>
     Read16 (BuildBindingRequest transaction) 2 = (Inr 20 :: (unit, u16) res) \<and>
     Read32 (BuildBindingRequest transaction) 36 =
       (Inr (Crc32 (take 36 (BuildBindingRequest transaction)) XOR FingerprintXor) :: (unit, u32) res)"
proof -
  assume t: "length transaction = 12"
  let ?r = "Append16 BindingRequest @ Append16 20 @ Append32 MagicCookie @ transaction @ Append16 SoftwareAttribute @
    Append16 8 @ string_bytes Software @ Append16 FingerprintAttribute @ Append16 4"
  have b: "BuildBindingRequest transaction = ?r @ Append32 (Crc32 ?r XOR FingerprintXor)"
    by (simp add: BuildBindingRequest_def Let_def Software_def)
  have n: "length ?r = 36" using t by (simp add: Software_def string_bytes_def)
  then show ?thesis
    using Read32_Append32 [of ?r 36 "Crc32 ?r XOR FingerprintXor" "[]"] Read16_Append16 [of "Append16 BindingRequest" 2 20] n
    unfolding b by simp
qed

end
