(* ===== verification/Peer_Path.thy ===== *)
theory Peer_Path
  imports Net_Address
begin

text \<open>
  The direct path to a peer, \<^verbatim>\<open>src/core/wgengine/magicsock/PeerPathState.cpp\<close>: which endpoint packets are sent to, which
  endpoints the peer has answered from, when a direct path is given up and how often one is looked for.
\<close>

datatype reset_mode = PreserveVerifiedEndpoints | ForgetVerifiedEndpoints

definition MaximumVerifiedEndpoints :: nat where "MaximumVerifiedEndpoints = 32"
definition DirectProbeInterval :: int where "DirectProbeInterval = 5 * 1000000000"
definition DirectPathTimeout :: int where "DirectPathTimeout = 15 * 1000000000"

record peer_path =
  pp_directEndpoint :: "endpoint option"
  pp_verifiedEndpoints :: "endpoint list"
  pp_lastDirectProbe :: "int option"
  pp_firstUnansweredDirectSend :: "int option"

definition PeerPathState :: peer_path where
  "PeerPathState = \<lparr>pp_directEndpoint = None, pp_verifiedEndpoints = [], pp_lastDirectProbe = None, pp_firstUnansweredDirectSend = None\<rparr>"

definition HasDirectPath :: "peer_path \<Rightarrow> bool" where
  "HasDirectPath p \<longleftrightarrow> pp_directEndpoint p \<noteq> None"

definition IsVerified :: "endpoint \<Rightarrow> peer_path \<Rightarrow> bool" where
  "IsVerified endpoint p \<longleftrightarrow> endpoint \<in> set (pp_verifiedEndpoints p)"

definition TryBeginProbe :: "int \<Rightarrow> peer_path \<Rightarrow> peer_path \<times> bool" where
  "TryBeginProbe now p =
     (if pp_directEndpoint p \<noteq> None \<or> (case pp_lastDirectProbe p of None \<Rightarrow> False | Some t \<Rightarrow> now - t < DirectProbeInterval)
      then (p, False) else (p\<lparr>pp_lastDirectProbe := Some now\<rparr>, True))"

definition RememberVerified :: "endpoint \<Rightarrow> peer_path \<Rightarrow> peer_path" where
  "RememberVerified endpoint p =
     (if IsVerified endpoint p then p
      else let kept = (if length (pp_verifiedEndpoints p) = MaximumVerifiedEndpoints then tl (pp_verifiedEndpoints p)
                       else pp_verifiedEndpoints p) in
        p\<lparr>pp_verifiedEndpoints := kept @ [endpoint]\<rparr>)"

definition MarkDirect :: "endpoint \<Rightarrow> peer_path \<Rightarrow> peer_path \<times> bool" where
  "MarkDirect endpoint p =
     (RememberVerified endpoint (p\<lparr>pp_directEndpoint := Some endpoint, pp_firstUnansweredDirectSend := None\<rparr>),
      pp_directEndpoint p \<noteq> Some endpoint)"

definition MarkDirectSend :: "int \<Rightarrow> peer_path \<Rightarrow> peer_path" where
  "MarkDirectSend now p =
     (if pp_directEndpoint p \<noteq> None \<and> pp_firstUnansweredDirectSend p = None
      then p\<lparr>pp_firstUnansweredDirectSend := Some now\<rparr> else p)"

definition MarkDirectReceive :: "peer_path \<Rightarrow> peer_path" where
  "MarkDirectReceive p = p\<lparr>pp_firstUnansweredDirectSend := None\<rparr>"

definition ExpireDirectPath :: "int \<Rightarrow> peer_path \<Rightarrow> peer_path \<times> bool" where
  "ExpireDirectPath now p =
     (if pp_directEndpoint p = None \<or>
         (case pp_firstUnansweredDirectSend p of None \<Rightarrow> True | Some t \<Rightarrow> now - t \<le> DirectPathTimeout)
      then (p, False) else (p\<lparr>pp_directEndpoint := None, pp_firstUnansweredDirectSend := None\<rparr>, True))"

definition Path_Reset :: "reset_mode \<Rightarrow> peer_path \<Rightarrow> peer_path" where
  "Path_Reset mode p =
     (let p1 = p\<lparr>pp_directEndpoint := None, pp_firstUnansweredDirectSend := None\<rparr> in
      if mode = ForgetVerifiedEndpoints then p1\<lparr>pp_verifiedEndpoints := []\<rparr> else p1)"

section \<open>Histories\<close>

text \<open>A step happens at a time not before the previous one; the state carries the time of the last step.\<close>

datatype path_op = Probe | Direct endpoint | Sent | Received | Expire | PathReset reset_mode

definition path_apply :: "int \<Rightarrow> path_op \<Rightarrow> peer_path \<Rightarrow> peer_path" where
  "path_apply now a p = (case a of
     Probe \<Rightarrow> fst (TryBeginProbe now p) | Direct e \<Rightarrow> fst (MarkDirect e p) | Sent \<Rightarrow> MarkDirectSend now p
   | Received \<Rightarrow> MarkDirectReceive p | Expire \<Rightarrow> fst (ExpireDirectPath now p) | PathReset mode \<Rightarrow> Path_Reset mode p)"

inductive path_step :: "int \<times> peer_path \<Rightarrow> int \<times> peer_path \<Rightarrow> bool" where
  "t \<le> now \<Longrightarrow> path_step (t, p) (now, path_apply now a p)"

inductive_cases path_stepE: "path_step (t, p) s"

lemmas path_defs = path_apply_def TryBeginProbe_def MarkDirect_def RememberVerified_def IsVerified_def MarkDirectSend_def
  MarkDirectReceive_def ExpireDirectPath_def Path_Reset_def Let_def

definition path_ok :: "int \<times> peer_path \<Rightarrow> bool" where
  "path_ok s \<longleftrightarrow> (let (t, p) = s in
     distinct (pp_verifiedEndpoints p) \<and> length (pp_verifiedEndpoints p) \<le> MaximumVerifiedEndpoints \<and>
     (\<forall>e. pp_directEndpoint p = Some e \<longrightarrow> e \<in> set (pp_verifiedEndpoints p)) \<and>
     (\<forall>u. pp_firstUnansweredDirectSend p = Some u \<longrightarrow> u \<le> t \<and> pp_directEndpoint p \<noteq> None))"

lemma remember_ok:
  assumes "distinct xs" "length xs \<le> MaximumVerifiedEndpoints" "e \<notin> set xs"
  shows "distinct ((if length xs = MaximumVerifiedEndpoints then tl xs else xs) @ [e])"
    "length ((if length xs = MaximumVerifiedEndpoints then tl xs else xs) @ [e]) \<le> MaximumVerifiedEndpoints"
  using assms by (cases xs; auto simp: MaximumVerifiedEndpoints_def)+

lemma path_step_ok: "path_ok s \<Longrightarrow> path_step s s' \<Longrightarrow> path_ok s'"
proof (cases s)
  case (Pair t p)
  assume ok: "path_ok s" and "path_step s s'"
  then obtain now a where s': "s' = (now, path_apply now a p)" "t \<le> now" unfolding Pair by (auto elim: path_stepE)
  show ?thesis
  proof (cases a)
    case (Direct e)
    then show ?thesis using ok remember_ok [of "pp_verifiedEndpoints p" e] unfolding Pair s' path_ok_def
      by (cases "e \<in> set (pp_verifiedEndpoints p)") (simp_all add: path_defs split del: if_split cong: if_cong)
  qed (use ok s'(2) in \<open>auto simp: Pair s'(1) path_ok_def path_defs split: option.splits\<close>)+
qed

interpretation peer_path: component_invariant path_step path_ok
  by unfold_locales (rule path_step_ok)

lemma last_probe_apply:
  assumes "pp_lastDirectProbe p = Some u" "u \<le> now"
  shows "pp_lastDirectProbe (path_apply now a p) = Some u \<or> pp_lastDirectProbe (path_apply now a p) = Some now"
proof (cases a)
  case (Direct e)
  then show ?thesis using assms by (simp add: path_defs)
qed (use assms in \<open>simp_all add: path_defs split: option.split\<close>)

definition probed_since :: "int \<Rightarrow> int \<times> peer_path \<Rightarrow> bool" where
  "probed_since u s \<longleftrightarrow> (\<exists>v. pp_lastDirectProbe (snd s) = Some v \<and> u \<le> v \<and> v \<le> fst s)"

interpretation probed: component_invariant path_step "probed_since u" for u
proof
  fix s s'
  assume since: "probed_since u s" and step: "path_step s s'"
  obtain t p where s: "s = (t, p)" by (cases s)
  obtain now a where s': "s' = (now, path_apply now a p)" "t \<le> now" using step unfolding s by (rule path_stepE)
  obtain v where v: "pp_lastDirectProbe p = Some v" "u \<le> v" "v \<le> t" using since by (auto simp: probed_since_def s)
  from last_probe_apply [OF v(1), of now a] v s' show "probed_since u s'" by (auto simp: probed_since_def)
qed

section \<open>Histories as lists of calls\<close>

text \<open>
  A history lists the calls with their times, the first call first.  \<open>quiet\<close> calls are those that neither bring an answer
  of the peer nor choose or drop an endpoint.
\<close>

definition path_run :: "(int \<times> path_op) list \<Rightarrow> peer_path" where
  "path_run h = fold (\<lambda>(t, a). path_apply t a) h PeerPathState"

definition quiet :: "(int \<times> path_op) list \<Rightarrow> bool" where
  "quiet h \<longleftrightarrow> snd ` set h \<subseteq> {Probe, Sent, Expire}"

text \<open>A packet was sent over the direct path at time \<open>u\<close>, and nothing came back from the peer since.\<close>

definition unanswered :: "(int \<times> path_op) list \<Rightarrow> int \<Rightarrow> bool" where
  "unanswered h u \<longleftrightarrow> (\<exists>h1 h2. h = h1 @ (u, Sent) # h2 \<and> HasDirectPath (path_run h1) \<and> quiet h2)"

lemma path_run_snoc [simp]: "path_run (h @ [(t, a)]) = path_apply t a (path_run h)"
  by (simp add: path_run_def)

lemma path_run_steps:
  "sorted (map fst h) \<Longrightarrow> \<forall>x \<in> set h. t0 \<le> fst x \<Longrightarrow>
     path_step\<^sup>*\<^sup>* (t0, PeerPathState) (if h = [] then t0 else fst (List.last h), path_run h)"
proof (induction h rule: rev_induct)
  case (snoc x h)
  obtain t a where x: "x = (t, a)" by (cases x)
  have "(if h = [] then t0 else fst (List.last h)) \<le> t" using snoc.prems by (auto simp: x sorted_append)
  then have "path_step (if h = [] then t0 else fst (List.last h), path_run h) (t, path_run (h @ [x]))"
    by (auto simp: x intro: path_step.intros)
  then show ?case using snoc by (auto simp: x sorted_append)
qed (simp add: path_run_def)

lemma path_run_ok:
  assumes "sorted (map fst h)" "\<forall>x \<in> set h. fst x \<le> t"
  shows "path_ok (t, path_run h)"
proof -
  obtain t0 where "\<forall>x \<in> set h. t0 \<le> fst x" using assms(1) by (cases h) auto
  moreover have "path_ok (t0, PeerPathState)" by (simp add: path_ok_def PeerPathState_def)
  ultimately have "path_ok (if h = [] then t0 else fst (List.last h), path_run h)"
    using peer_path.steps_inv path_run_steps [OF assms(1)] by blast
  moreover have "h \<noteq> [] \<Longrightarrow> fst (List.last h) \<le> t" using assms(2) by simp
  ultimately show ?thesis by (cases "h = []") (auto simp: path_ok_def path_run_def PeerPathState_def)
qed

lemma quiet_keeps:
  assumes "quiet h" "pp_directEndpoint p = None \<or> pp_firstUnansweredDirectSend p = Some v"
  shows "pp_directEndpoint (fold (\<lambda>(t, a). path_apply t a) h p) = None \<or>
    pp_firstUnansweredDirectSend (fold (\<lambda>(t, a). path_apply t a) h p) = Some v"
  using assms
proof (induction h arbitrary: p)
  case (Cons x h)
  obtain t a where x: "x = (t, a)" by (cases x)
  have "pp_directEndpoint (path_apply t a p) = None \<or> pp_firstUnansweredDirectSend (path_apply t a p) = Some v"
    using Cons.prems by (auto simp: x quiet_def path_defs)
  then show ?case using Cons.IH [of "path_apply t a p"] Cons.prems(1) by (simp add: x quiet_def)
qed simp

text \<open>The recorded time is that of an unanswered packet, and not later than that of any other.\<close>

lemma first_unanswered: "pp_firstUnansweredDirectSend (path_run h) = Some u \<Longrightarrow> unanswered h u"
proof (induction h rule: rev_induct)
  case Nil
  then show ?case by (simp add: path_run_def PeerPathState_def)
next
  case (snoc x h)
  obtain t a where x: "x = (t, a)" by (cases x)
  consider (new) "a = Sent" "u = t" "HasDirectPath (path_run h)"
    | (old) "pp_firstUnansweredDirectSend (path_run h) = Some u" "a \<in> {Probe, Sent, Expire}"
    using snoc.prems by (cases a) (auto simp: x path_defs HasDirectPath_def split: if_splits)
  then show ?case
  proof cases
    case new
    then have "h @ [x] = h @ (u, Sent) # [] \<and> HasDirectPath (path_run h) \<and> quiet []" by (simp add: x quiet_def)
    then show ?thesis unfolding unanswered_def by blast
  next
    case old
    then obtain h1 h2 where "h = h1 @ (u, Sent) # h2" "HasDirectPath (path_run h1)" "quiet h2"
      using snoc.IH by (auto simp: unanswered_def)
    then have "h @ [x] = h1 @ (u, Sent) # (h2 @ [x]) \<and> HasDirectPath (path_run h1) \<and> quiet (h2 @ [x])"
      using old(2) by (simp add: x quiet_def)
    then show ?thesis unfolding unanswered_def by blast
  qed
qed

lemma unanswered_first:
  assumes "sorted (map fst h)" "unanswered h u" "HasDirectPath (path_run h)"
  shows "\<exists>v \<le> u. pp_firstUnansweredDirectSend (path_run h) = Some v"
proof -
  obtain h1 h2 where h: "h = h1 @ (u, Sent) # h2" "HasDirectPath (path_run h1)" "quiet h2"
    using assms(2) by (auto simp: unanswered_def)
  have "path_ok (u, path_run h1)" using assms(1) by (intro path_run_ok) (auto simp: h(1) sorted_append)
  then obtain v where v: "v \<le> u" "pp_firstUnansweredDirectSend (path_apply u Sent (path_run h1)) = Some v"
    using h(2) by (cases "pp_firstUnansweredDirectSend (path_run h1)") (auto simp: path_ok_def path_defs HasDirectPath_def)
  have "path_run h = fold (\<lambda>(t, a). path_apply t a) h2 (path_apply u Sent (path_run h1))" by (simp add: h(1) path_run_def)
  then show ?thesis using quiet_keeps [OF h(3), of "path_apply u Sent (path_run h1)" v] v assms(3) by (auto simp: HasDirectPath_def)
qed

lemma verified_marked: "set (pp_verifiedEndpoints (path_run h)) \<subseteq> {e. Direct e \<in> snd ` set h}"
proof (induction h rule: rev_induct)
  case (snoc x h)
  obtain t a where x: "x = (t, a)" by (cases x)
  have "set (pp_verifiedEndpoints (path_apply t a p)) \<subseteq> set (pp_verifiedEndpoints p) \<union> {e. a = Direct e}" for p
    by (cases a; cases "pp_verifiedEndpoints p") (auto simp: path_defs split: option.splits if_splits)
  from this [of "path_run h"] show ?case using snoc by (auto simp: x)
qed (simp add: path_run_def PeerPathState_def)

section \<open>Properties\<close>

text \<open>
  C22: for every history of calls in order of time, the verified endpoints are distinct, at most 32, and all were marked
  direct; the endpoint in use is one of them.  \<open>ExpireDirectPath\<close> gives up a path in use exactly when a packet was sent over
  it more than 15 seconds ago and since then nothing was received from the peer and no endpoint was marked, and it
  leaves the path alone otherwise.
\<close>

theorem peer_path_invariant:
  assumes "sorted (map fst h)"
  shows "distinct (pp_verifiedEndpoints (path_run h)) \<and> length (pp_verifiedEndpoints (path_run h)) \<le> 32 \<and>
    set (pp_verifiedEndpoints (path_run h)) \<subseteq> {e. Direct e \<in> snd ` set h} \<and>
    (case pp_directEndpoint (path_run h) of None \<Rightarrow> \<not> HasDirectPath (path_run h) | Some e \<Rightarrow> IsVerified e (path_run h)) \<and>
    (snd (ExpireDirectPath now (path_run h)) \<longleftrightarrow>
      HasDirectPath (path_run h) \<and> (\<exists>u. unanswered h u \<and> now - u > 15 * 1000000000)) \<and>
    (if snd (ExpireDirectPath now (path_run h)) then \<not> HasDirectPath (fst (ExpireDirectPath now (path_run h)))
     else fst (ExpireDirectPath now (path_run h)) = path_run h)"
proof -
  let ?p = "path_run h"
  obtain t where "\<forall>x \<in> set h. fst x \<le> t" using assms by (cases h rule: rev_cases) (auto simp: sorted_append)
  then have ok: "path_ok (t, ?p)" using path_run_ok [OF assms] by blast
  have "snd (ExpireDirectPath now ?p) \<longleftrightarrow> HasDirectPath ?p \<and> (\<exists>u. pp_firstUnansweredDirectSend ?p = Some u \<and> now - u > 15 * 1000000000)"
    by (auto simp: ExpireDirectPath_def HasDirectPath_def DirectPathTimeout_def split: option.splits)
  also have "\<dots> \<longleftrightarrow> HasDirectPath ?p \<and> (\<exists>u. unanswered h u \<and> now - u > 15 * 1000000000)"
    using first_unanswered [of h] unanswered_first [OF assms] by force
  finally show ?thesis using ok verified_marked [of h]
    by (auto simp: path_ok_def MaximumVerifiedEndpoints_def HasDirectPath_def IsVerified_def ExpireDirectPath_def split: option.splits)
qed

text \<open>
  C23: two searches for a direct path start at least five seconds apart, whatever happens to the path in between, a reset
  included, and no search starts while a direct path is in use.
\<close>

theorem probe_interval:
  assumes "TryBeginProbe now p = (p1, True)" and "path_step\<^sup>*\<^sup>* (now, p1) (t, p2)" and "TryBeginProbe later p2 = (p3, True)"
  shows "later - now \<ge> 5 * 1000000000 \<and> \<not> HasDirectPath p \<and> \<not> HasDirectPath p2"
proof -
  have "probed_since now (now, p1)" using assms(1) by (auto simp: probed_since_def TryBeginProbe_def split: if_splits)
  then have "probed_since now (t, p2)" using probed.steps_inv [OF assms(2)] by blast
  then show ?thesis using assms(1,3)
    by (auto simp: probed_since_def TryBeginProbe_def HasDirectPath_def DirectProbeInterval_def split: if_splits)
qed

text \<open>An endpoint of a peer.\<close>

definition example_endpoint :: endpoint where
  "example_endpoint = \<lparr>ep_address = 0x0a000001, ep_port = 41641\<rparr>"

theorem peer_path_invariant_witness:
  "sorted (map fst [(1 :: int, Direct example_endpoint), (2, Sent), (3, Received), (4, Sent)]) \<and>
   snd (ExpireDirectPath 15000000005 (path_run [(1, Direct example_endpoint), (2, Sent), (3, Received), (4, Sent)])) \<and>
   \<not> snd (ExpireDirectPath 15000000004 (path_run [(1, Direct example_endpoint), (2, Sent), (3, Received), (4, Sent)]))"
proof -
  let ?h = "[(1, Direct example_endpoint), (2, Sent), (3, Received), (4, Sent)] :: (int \<times> path_op) list"
  have s: "sorted (map fst ?h)" by simp
  have p: "path_run ?h = PeerPathState\<lparr>pp_directEndpoint := Some example_endpoint, pp_verifiedEndpoints := [example_endpoint],
      pp_firstUnansweredDirectSend := Some 4\<rparr>"
    by (simp add: path_run_def path_defs PeerPathState_def MaximumVerifiedEndpoints_def)
  have u: "unanswered ?h 4" using first_unanswered [of ?h 4] by (simp add: p)
  have "4 \<le> v" if "unanswered ?h v" for v using unanswered_first [OF s that] by (auto simp: p HasDirectPath_def)
  then have "\<not> (\<exists>u. unanswered ?h u \<and> 15000000004 - u > 15 * 1000000000)" by fastforce
  then show ?thesis
    using peer_path_invariant [OF s, of 15000000005] peer_path_invariant [OF s, of 15000000004] u s
    by (auto simp: p HasDirectPath_def)
qed

theorem probe_interval_witness:
  "\<exists>p1 p3. TryBeginProbe 0 PeerPathState = (p1, True) \<and> TryBeginProbe 5000000000 p1 = (p3, True) \<and> (5000000000 :: int) - 0 \<ge> 5 * 1000000000"
proof -
  let ?p1 = "PeerPathState\<lparr>pp_lastDirectProbe := Some 0\<rparr>"
  have a: "TryBeginProbe 0 PeerPathState = (?p1, True)" "TryBeginProbe 5000000000 ?p1 = (?p1\<lparr>pp_lastDirectProbe := Some 5000000000\<rparr>, True)"
    by (simp_all add: TryBeginProbe_def PeerPathState_def DirectProbeInterval_def)
  show ?thesis using probe_interval [OF a(1) rtranclp.rtrancl_refl a(2)] a by blast
qed

end
