(* ===== verification/Crypto_Base64.thy ===== *)
theory Crypto_Base64
  imports Tailgate_Text
begin

unbundle bit_operations_syntax

text \<open>
  Base64, \<^verbatim>\<open>src/core/crypto/Base64.cpp\<close>.  The loops take three bytes or four characters at a time.
\<close>

datatype base64_error = base64_error string

definition Alphabet :: string where
  "Alphabet = ''ABCDEFGHIJKLMNOPQRSTUVWXYZabcdefghijklmnopqrstuvwxyz0123456789+/''"

definition DecodeChar :: "char \<Rightarrow> (base64_error, byte) res" where
  "DecodeChar ch = (let c = of_char ch :: nat in
     if of_char (CHR ''A'') \<le> c \<and> c \<le> of_char (CHR ''Z'') then Inr (word_of_nat (c - of_char (CHR ''A'')))
     else if of_char (CHR ''a'') \<le> c \<and> c \<le> of_char (CHR ''z'') then Inr (word_of_nat (26 + c - of_char (CHR ''a'')))
     else if of_char (CHR ''0'') \<le> c \<and> c \<le> of_char (CHR ''9'') then Inr (word_of_nat (52 + c - of_char (CHR ''0'')))
     else if ch = CHR ''+'' then Inr 62
     else if ch = CHR ''/'' then Inr 63
     else Inl (Throw (base64_error ''Invalid Base64 character.'')))"

definition sextet :: "u32 \<Rightarrow> nat \<Rightarrow> char" where
  "sextet value shift = Alphabet ! unat (drop_bit shift value AND 0x3f)"

definition encode_block :: "byte \<Rightarrow> byte option \<Rightarrow> byte option \<Rightarrow> string" where
  "encode_block first second third =
     (let v0 = push_bit 16 (ucast first) :: u32;
          v1 = (case second of None \<Rightarrow> v0 | Some b \<Rightarrow> v0 OR push_bit 8 (ucast b));
          v2 = (case third of None \<Rightarrow> v1 | Some b \<Rightarrow> v1 OR ucast b) in
      [sextet v2 18, sextet v2 12, if second \<noteq> None then sextet v2 6 else CHR ''='', if third \<noteq> None then sextet v2 0 else CHR ''=''])"

fun Base64Encode :: "byte list \<Rightarrow> string" where
  "Base64Encode [] = []"
| "Base64Encode [a] = encode_block a None None"
| "Base64Encode [a, b] = encode_block a (Some b) None"
| "Base64Encode (a # b # c # data) = encode_block a (Some b) (Some c) @ Base64Encode data"

definition decode_block :: "char \<Rightarrow> char \<Rightarrow> char \<Rightarrow> char \<Rightarrow> (base64_error, byte list) res" where
  "decode_block c0 c1 c2 c3 =
     bindE (DecodeChar c0) (\<lambda>d0. bindE (DecodeChar c1) (\<lambda>d1.
     let hasThird = (c2 \<noteq> CHR ''=''); hasFourth = (c3 \<noteq> CHR ''=''); v1 = push_bit 18 (ucast d0) OR push_bit 12 (ucast d1) :: u32 in
     bindE (if hasThird then bindE (DecodeChar c2) (\<lambda>d2. Inr (v1 OR push_bit 6 (ucast d2))) else Inr v1) (\<lambda>v2.
     bindE (if hasFourth then bindE (DecodeChar c3) (\<lambda>d3. Inr (v2 OR ucast d3)) else Inr v2) (\<lambda>v3.
       Inr ([ucast (drop_bit 16 v3 AND 0xff)] @ (if hasThird then [ucast (drop_bit 8 v3 AND 0xff)] else []) @
         (if hasFourth then [ucast (v3 AND 0xff)] else []))))))"

fun decode_blocks :: "string \<Rightarrow> (base64_error, byte list) res" where
  "decode_blocks (c0 # c1 # c2 # c3 # rest) =
     bindE (decode_block c0 c1 c2 c3) (\<lambda>block. bindE (decode_blocks rest) (\<lambda>output. Inr (block @ output)))"
| "decode_blocks _ = Inr []"

definition Base64Decode :: "string \<Rightarrow> (base64_error, byte list) res" where
  "Base64Decode s =
     (if length s mod 4 \<noteq> 0 then Inl (Throw (base64_error ''Base64 length must be a multiple of four.'')) else decode_blocks s)"

section \<open>Reading back a block\<close>

lemma map_DecodeChar: "map DecodeChar Alphabet = map (\<lambda>n. Inr (word_of_nat n)) [0..<64]"
  by (simp add: Alphabet_def DecodeChar_def upt_rec)

lemma Alphabet_facts: "length Alphabet = 64" "CHR ''='' \<notin> set Alphabet"
  by (simp_all add: Alphabet_def)

lemma DecodeChar_Alphabet:
  assumes "n < 64"
  shows "DecodeChar (Alphabet ! n) = Inr (word_of_nat n)" "Alphabet ! n \<noteq> CHR ''=''"
proof -
  have "map DecodeChar Alphabet ! n = Inr (word_of_nat n)" unfolding map_DecodeChar using assms by simp
  then show "DecodeChar (Alphabet ! n) = Inr (word_of_nat n)" using assms by (simp add: Alphabet_facts)
  show "Alphabet ! n \<noteq> CHR ''=''" using assms Alphabet_facts by (metis nth_mem)
qed

lemma and_masks: "x AND 0x3f = take_bit 6 (x :: 'a :: len word)" "x AND 0xff = take_bit 8 (x :: 'a :: len word)"
  by (simp_all add: take_bit_eq_mask mask_eq_exp_minus_1)

lemma DecodeChar_sextet: "DecodeChar (sextet v k) = Inr (ucast (take_bit 6 (drop_bit k v)))" "sextet v k \<noteq> CHR ''=''"
proof -
  have "unat (take_bit 6 (drop_bit k v) :: u32) < 64" using take_bit_nat_less_exp [of 6 "unat (drop_bit k v)"]
    by (simp add: unsigned_take_bit_eq)
  from DecodeChar_Alphabet [OF this] show "DecodeChar (sextet v k) = Inr (ucast (take_bit 6 (drop_bit k v)))" "sextet v k \<noteq> CHR ''=''"
    by (simp_all add: sextet_def and_masks)
qed

lemma ucast_sextet: "(ucast (ucast (take_bit 6 x :: u32) :: byte) :: u32) = take_bit 6 x"
  by (rule bit_word_eqI) (auto simp: bit_simps)

lemma sextets_join:
  "take_bit 24 v = push_bit 18 (take_bit 6 (drop_bit 18 v)) OR push_bit 12 (take_bit 6 (drop_bit 12 v)) OR
     push_bit 6 (take_bit 6 (drop_bit 6 v)) OR take_bit 6 (v :: u32)"
proof (rule bit_word_eqI)
  fix n assume "n < LENGTH(32)"
  consider "n < 6" | "6 \<le> n" "n < 12" | "12 \<le> n" "n < 18" | "18 \<le> n" "n < 24" | "24 \<le> n" by linarith
  then show "bit (take_bit 24 v) n = bit (push_bit 18 (take_bit 6 (drop_bit 18 v)) OR push_bit 12 (take_bit 6 (drop_bit 12 v)) OR
     push_bit 6 (take_bit 6 (drop_bit 6 v)) OR take_bit 6 v) n"
    by cases (auto simp: bit_simps)
qed

lemma decode_block_3:
  "decode_block (sextet v 18) (sextet v 12) (sextet v 6) (sextet v 0) =
     Inr [ucast (drop_bit 16 v), ucast (drop_bit 8 v), ucast v]"
proof -
  have "decode_block (sextet v 18) (sextet v 12) (sextet v 6) (sextet v 0) =
      Inr [ucast (take_bit 8 (drop_bit 16 (take_bit 24 v))), ucast (take_bit 8 (drop_bit 8 (take_bit 24 v))), ucast (take_bit 8 (take_bit 24 v))]"
    unfolding sextets_join
    by (simp add: decode_block_def Let_def DecodeChar_sextet ucast_sextet and_masks or.assoc del: take_bit_take_bit)
  also have "\<dots> = Inr [ucast (drop_bit 16 v), ucast (drop_bit 8 v), ucast v]"
    by (auto intro!: bit_word_eqI simp: bit_simps)
  finally show ?thesis .
qed

lemma decode_block_2:
  assumes "take_bit 6 v = 0"
  shows "decode_block (sextet v 18) (sextet v 12) (sextet v 6) CHR ''='' = Inr [ucast (drop_bit 16 v), ucast (drop_bit 8 v)]"
proof -
  have "decode_block (sextet v 18) (sextet v 12) (sextet v 6) CHR ''='' =
      Inr [ucast (take_bit 8 (drop_bit 16 (take_bit 24 v))), ucast (take_bit 8 (drop_bit 8 (take_bit 24 v)))]"
    unfolding sextets_join using assms
    by (simp add: decode_block_def Let_def DecodeChar_sextet ucast_sextet and_masks or.assoc del: take_bit_take_bit)
  also have "\<dots> = Inr [ucast (drop_bit 16 v), ucast (drop_bit 8 v)]"
    by (auto intro!: bit_word_eqI simp: bit_simps)
  finally show ?thesis .
qed

lemma decode_block_1:
  assumes "take_bit 12 v = 0"
  shows "decode_block (sextet v 18) (sextet v 12) CHR ''='' CHR ''='' = Inr [ucast (drop_bit 16 v)]"
proof -
  have "take_bit 6 v = take_bit 6 (take_bit 12 v)" "take_bit 6 (drop_bit 6 v) = drop_bit 6 (take_bit 12 v)"
    by (rule bit_word_eqI; auto simp: bit_simps)+
  then have z: "take_bit 6 v = 0" "take_bit 6 (drop_bit 6 v) = 0" using assms by simp_all
  have "decode_block (sextet v 18) (sextet v 12) CHR ''='' CHR ''='' =
      Inr [ucast (take_bit 8 (drop_bit 16 (take_bit 24 v)))]"
    unfolding sextets_join using z
    by (simp add: decode_block_def Let_def DecodeChar_sextet ucast_sextet and_masks or.assoc del: take_bit_take_bit)
  also have "\<dots> = Inr [ucast (drop_bit 16 v)]"
    by (auto intro!: bit_word_eqI simp: bit_simps)
  finally show ?thesis .
qed

lemma encode_decode_block:
  "\<exists>c0 c1 c2 c3. encode_block a (Some b) (Some c) = [c0, c1, c2, c3] \<and> decode_block c0 c1 c2 c3 = Inr [a, b, c]"
  "\<exists>c0 c1 c2 c3. encode_block a (Some b) None = [c0, c1, c2, c3] \<and> decode_block c0 c1 c2 c3 = Inr [a, b]"
  "\<exists>c0 c1 c2 c3. encode_block a None None = [c0, c1, c2, c3] \<and> decode_block c0 c1 c2 c3 = Inr [a]"
proof -
  let ?v = "push_bit 16 (ucast a) OR push_bit 8 (ucast b) OR ucast c :: u32"
  have "[ucast (drop_bit 16 ?v), ucast (drop_bit 8 ?v), ucast ?v] = [a, b, c]" by (auto intro!: bit_word_eqI simp: bit_simps)
  then show "\<exists>c0 c1 c2 c3. encode_block a (Some b) (Some c) = [c0, c1, c2, c3] \<and> decode_block c0 c1 c2 c3 = Inr [a, b, c]"
    using decode_block_3 [of ?v] by (simp add: encode_block_def Let_def or.assoc)
  let ?v = "push_bit 16 (ucast a) OR push_bit 8 (ucast b) :: u32"
  have "take_bit 6 ?v = 0" "[ucast (drop_bit 16 ?v), ucast (drop_bit 8 ?v)] = [a, b]" by (auto intro!: bit_word_eqI simp: bit_simps)
  then show "\<exists>c0 c1 c2 c3. encode_block a (Some b) None = [c0, c1, c2, c3] \<and> decode_block c0 c1 c2 c3 = Inr [a, b]"
    using decode_block_2 [of ?v] by (simp add: encode_block_def Let_def)
  let ?v = "push_bit 16 (ucast a) :: u32"
  have "take_bit 12 ?v = 0" "ucast (drop_bit 16 ?v) = a" by (auto intro!: bit_word_eqI simp: bit_simps)
  then show "\<exists>c0 c1 c2 c3. encode_block a None None = [c0, c1, c2, c3] \<and> decode_block c0 c1 c2 c3 = Inr [a]"
    using decode_block_1 [of ?v] by (simp add: encode_block_def Let_def)
qed

section \<open>Properties\<close>

text \<open>
  C25: \<open>Base64Decode\<close> reads back what \<open>Base64Encode\<close> wrote, for every byte sequence, and the text has four characters for every
  three bytes begun.
\<close>

theorem base64_round_trip: "Base64Decode (Base64Encode data) = Inr data \<and> length (Base64Encode data) = (length data + 2) div 3 * 4"
proof -
  have "decode_blocks (Base64Encode data) = Inr data \<and> length (Base64Encode data) = (length data + 2) div 3 * 4"
  proof (induction data rule: Base64Encode.induct)
    case (2 a)
    then show ?case using encode_decode_block(3) [of a] by auto
  next
    case (3 a b)
    then show ?case using encode_decode_block(2) [of a b] by auto
  next
    case (4 a b c data)
    have "(5 + length data) div 3 = Suc (Suc (Suc (length data)) div 3)" by presburger
    with 4 show ?case using encode_decode_block(1) [of a b c] by auto
  qed simp
  then show ?thesis by (simp add: Base64Decode_def)
qed

text \<open>Padding is not confined to the end of the text: the third character of a block may be left out before a fourth.\<close>

theorem base64_padding_anywhere: "\<exists>data. Base64Decode ''QQ=B'' = Inr data \<and> length data = 2"
  by (simp add: Base64Decode_def decode_block_def DecodeChar_def)

end
