(* ===== verification/Spec2Isabelle.thy ===== *)
theory Spec2Isabelle
  imports Net_Range Net_Packet Wireguard_Replay Relay_Codec Derp_Handshake Relay_Stream Relay_Recovery Handover Dns_Forwarder
    Net_Stun Peer_Path Crypto_Base64
begin

text \<open>
  A verification library for tailgate, a VPN client that is compatible with Tailscale.  Paths are relative to the
  root of the repository; the program is the C++ code under \<^verbatim>\<open>src/core\<close> with its headers under
  \<^verbatim>\<open>include/tailgate\<close>.

  \<^bold>\<open>The program.\<close>  A node exchanges WireGuard packets with its peers, directly or through DERP servers.  It runs either
  \<^emph>\<open>natively\<close>, with its own connections to the DERP servers, or \<^emph>\<open>hosted\<close>: a relay then owns these connections, and the
  node talks to the relay over one framed stream.  A coordinator on the node switches between the two while both
  sides keep working; a lease on the relay makes sure that ownership comes back when the node disappears.

  \<^bold>\<open>Conventions.\<close>  A byte vector or span is a \<open>byte list\<close>, an unsigned integer of N bits an N-bit word, an offset or size
  a \<open>nat\<close> (the buffers are far below \<open>2 ^ 64\<close> bytes), a time point an \<open>int\<close> of nanoseconds.  A function that may throw
  or access memory returns \<open>('e, 'a) res\<close>: \<open>Inr\<close> the result, \<open>Inl (Throw e)\<close> an exception, \<open>Inl Fault\<close> an access outside a
  buffer or of an empty container.  Where an exception leaves a changed object behind that is used again, it carries
  the object.  An object is a record, passed and returned.  Code that is not part of the repository is a parameter:
  the NaCl boxes of the DERP handshake, the sockets and TLS streams (a list of the chunks that reads will return and
  of the sizes that writes will accept), the clock, the dialler.

  \<^bold>\<open>The theories.\<close>

  \<^item> \<open>Tailgate_Prelude\<close>: result type, checked access, big-endian integers, and the interfaces as locales: \<open>codec\<close> and
    \<open>strict_codec\<close> (what a decoder promises about its encoder), \<open>component_invariant\<close> (every step keeps a predicate),
    \<open>simulation\<close> (a component implements a specification), \<open>message_stream\<close> (messages recovered from a byte stream).
    \<open>Tailgate_Text\<close>: the operations of \<^verbatim>\<open>std::string\<close> and \<^verbatim>\<open>std::from_chars\<close> the code uses.

  \<^item> \<open>Net_Address\<close>, \<open>Net_Range\<close> (\<^verbatim>\<open>net/Ipv4Address.cpp\<close>, \<^verbatim>\<open>IpAddress.cpp\<close>, \<^verbatim>\<open>Endpoint.cpp\<close>, \<^verbatim>\<open>IpRange.cpp\<close>): text forms are
    parsed exactly, printing and parsing are inverse, a CIDR range is the set of addresses with its prefix.

  \<^item> \<open>Net_Packet\<close> (\<^verbatim>\<open>net/packet/Ipv4.cpp\<close>, \<^verbatim>\<open>Ip.cpp\<close>, \<^verbatim>\<open>Tsmp.cpp\<close>): checksums verify, datagrams and pings are read back, and
    the parsers are memory safe on arbitrary bytes.

  \<^item> \<open>Wireguard_Replay\<close> (\<^verbatim>\<open>wgengine/wireguard/ReplayWindow.cpp\<close> and the session windows of \<^verbatim>\<open>Tunnel.cpp\<close>): the ring of
    bits implements the sliding window over sets of counters, no packet is accepted twice, and the one counter for
    which the code does not return is characterised.

  \<^item> \<open>Relay_Frame\<close>, \<open>Packet_Framing\<close>, \<open>Relay_Decoder\<close>, \<open>Relay_Codec\<close>, \<open>Delegation\<close>, \<open>Relay_Stream\<close> (\<^verbatim>\<open>hosted/Protocol.cpp\<close>,
    \<^verbatim>\<open>PacketFraming.cpp\<close>, \<^verbatim>\<open>Delegation.cpp\<close>, \<^verbatim>\<open>StreamTransport.cpp\<close>): frames survive any cutting of the stream, fragments
    any order of arrival, the codecs accept exactly the encoder's image, buffers are bounded, and the transport
    writes exactly the accepted bytes.

  \<^item> \<open>Relay_Recovery\<close> (\<^verbatim>\<open>hosted/Recovery.cpp\<close>, \<^verbatim>\<open>control/client/RetryBackoff.cpp\<close>): the node's thread and the bootstrap
    thread as interleaved steps; a stale connection is never returned.

  \<^item> \<open>Byte_Stream\<close> (\<^verbatim>\<open>base/ByteStream.h\<close>): the stream that the relay decoder and the DERP client read and write.

  \<^item> \<open>Derp_Client\<close>, \<open>Derp_Handshake\<close>, \<open>Derp_Connection\<close> (\<^verbatim>\<open>derp/Client.cpp\<close>, \<^verbatim>\<open>SendQueue.cpp\<close>, \<^verbatim>\<open>impl/ConnectionImpl.cpp\<close>): the handshake, batched reception for every cutting of the stream, output in order, the
    send queue's policy, and the invariant and the retry delays of a connection.

  \<^item> \<open>Derp_Ownership\<close> (\<^verbatim>\<open>hosted/DerpRouteTable.cpp\<close>, \<^verbatim>\<open>ipn/ipnlocal/DerpConnections.cpp\<close>, \<^verbatim>\<open>DelegationLease.cpp\<close>): all
    connections of a node have one owner, which changes only by the protocol, and an expired lease gives them back.

  \<^item> \<open>Transition\<close> (\<^verbatim>\<open>ipn/ipnlocal/TransitionCoordinator.cpp\<close> and what \<^verbatim>\<open>SwitchingNode::ApplyActions\<close> does with the native
    connections): the invariant of a transition, when native connections are activated, and that every transition
    ends.

  \<^item> \<open>Handover\<close>: the coordinator, its host, the two directions of the stream and the lease as one system of
    interleaved steps; during a session, until the relay fails or the session is aborted or retired, node and relay
    never use the connections at the same time.

  \<^item> \<open>Net_Map\<close> (\<^verbatim>\<open>types/netmap/NetworkMap.cpp\<close>, \<^verbatim>\<open>Capabilities.cpp\<close>): a destination is routed by the longest prefix, an address
    denotes a peer only when no other peer has it, and a peer has exactly the capabilities the grants give it.

  \<^item> \<open>Dns_Message\<close>, \<open>Tailnet_Dns\<close> (\<^verbatim>\<open>net/dns/Dns.cpp\<close>, \<^verbatim>\<open>TailnetDns.cpp\<close>): queries are read back, arbitrary messages are parsed
    without leaving the buffer, and a name asked of the tailnet's resolver, through packets in both directions, gives the
    addresses of the node with that name.

  \<^item> \<open>Dns_Forwarder\<close> (\<^verbatim>\<open>ipn/ipnlocal/DnsForwarder.cpp\<close>, \<^verbatim>\<open>net/dns/ResolverSelection.cpp\<close>): numbers on the wire are distinct, a
    free one is always found, and an answer reaches the client that asked, once.

  \<^item> \<open>Net_Stun\<close> (\<^verbatim>\<open>net/stun/Stun.cpp\<close>), \<open>Crypto_Base64\<close> (\<^verbatim>\<open>crypto/Base64.cpp\<close>), \<open>Peer_Path\<close> (\<^verbatim>\<open>wgengine/magicsock/PeerPathState.cpp\<close>):
    the translated address is read from every response that carries it, Base64 is read back, and a path in use leads to a
    verified endpoint, is given up after 15 silent seconds and is searched for at most every five.

  \<^bold>\<open>Loops and fuel.\<close>  Loops are recursive functions with a measure; the loop of the replay window, which may not end, and the
  search for a free DNS number, which ends by the bound on the pending queries, are each a \<open>partial_function\<close> in \<open>option\<close>.  No definition has fuel, except that theorems about repeated calls
  name a number of calls that suffices: one per 128 bytes for the DERP client, whose call handles up to 256 reads or frames,
  and for the relay transport the bytes not yet read plus the frames not yet returned, since every call makes progress
  on one of the two.

  \<^bold>\<open>Not modelled.\<close>  The platform front ends, event loops, sockets and TLS (operating system and mbed TLS); cryptography
  and the Noise and WireGuard handshakes (mbed TLS, monocypher, wireguard-lwip); the control protocol, network-map
  parser and WebDAV file sharing (nghttp2, JSON and XML libraries); the user-space network stack (lwIP); the HTTP
  parser (llhttp) and the reader of the resolver configuration.  Of
  \<^verbatim>\<open>SwitchingNode\<close>, \<^verbatim>\<open>HostedNode\<close> and \<^verbatim>\<open>DelegatedNode\<close> only the calls between the modelled components are represented, as
  steps of \<open>Handover\<close>; the loss and replacement of a relay session ends the history it considers.
\<close>

end
